(* ===== verification/Prelude.thy ===== *)
theory Prelude
  imports Main "HOL-Library.Word" "HOL-Library.List_Lexorder" "HOL-Library.AList"
    "HOL-Library.Sublist"
begin

text \<open>
  Shared vocabulary of the development: machine integers at their width, the byte codecs of
  the Rust standard library (\<open>to_be_bytes\<close>, \<open>to_le_bytes\<close> and their inverses), 32-byte
  strings as 256-bit words read in big-endian order, hash maps as association lists with
  distinct keys, and decimal formatting. The collection \<open>byte_simps\<close> holds the length and
  round-trip facts that later theories pass to the simplifier.
\<close>

unbundle bit_operations_syntax

named_theorems byte_simps \<open>lengths and round trips of the byte codecs\<close>

section \<open>Machine integers and byte strings\<close>

type_synonym byte = "8 word"
type_synonym u32 = "32 word"
type_synonym u64 = "64 word"
type_synonym i64 = "64 word"
type_synonym bytes = "byte list"
type_synonym bytes32 = "256 word"

primrec le_bytes :: "nat \<Rightarrow> 'a::len word \<Rightarrow> bytes" where
  "le_bytes 0 w = []"
| "le_bytes (Suc n) w = ucast w # le_bytes n (drop_bit 8 w)"

primrec from_le_bytes :: "bytes \<Rightarrow> 'a::len word" where
  "from_le_bytes [] = 0"
| "from_le_bytes (b # bs) = ucast b OR push_bit 8 (from_le_bytes bs)"

definition be_bytes :: "nat \<Rightarrow> 'a::len word \<Rightarrow> bytes" where
  "be_bytes n w = rev (le_bytes n w)"

definition from_be_bytes :: "bytes \<Rightarrow> 'a::len word" where
  "from_be_bytes bs = from_le_bytes (rev bs)"

text \<open>A 32-byte string, most significant byte first; \<open>as_ref\<close> is the source's \<open>as_ref()\<close>.\<close>

definition as_ref :: "bytes32 \<Rightarrow> bytes" where
  "as_ref w = be_bytes 32 w"

definition bytes32_from :: "bytes \<Rightarrow> bytes32" where
  "bytes32_from bs = from_be_bytes bs"

definition u64_to_be_bytes :: "u64 \<Rightarrow> bytes" where
  "u64_to_be_bytes w = be_bytes 8 w"

definition u64_from_be_bytes :: "bytes \<Rightarrow> u64" where
  "u64_from_be_bytes bs = from_be_bytes bs"

definition u64_to_le_bytes :: "u64 \<Rightarrow> bytes" where
  "u64_to_le_bytes w = le_bytes 8 w"

definition u64_from_le_bytes :: "bytes \<Rightarrow> u64" where
  "u64_from_le_bytes bs = from_le_bytes bs"

lemma length_le_bytes [simp, byte_simps]: "length (le_bytes n w) = n"
  by (induction n arbitrary: w) auto

lemma nth_le_bytes: "j < n \<Longrightarrow> le_bytes n w ! j = ucast (drop_bit (8 * j) w)"
proof (induction n arbitrary: w j)
  case 0
  then show ?case by simp
next
  case (Suc n)
  show ?case
  proof (cases j)
    case 0
    then show ?thesis by simp
  next
    case (Suc i)
    with Suc.prems Suc.IH [of i "drop_bit 8 w"] show ?thesis
      by (simp add: drop_bit_drop_bit add.commute)
  qed
qed

lemma bit_from_le_bytes:
  "bit (from_le_bytes bs :: 'a::len word) i \<longleftrightarrow>
     i < LENGTH('a) \<and> i < 8 * length bs \<and> bit (bs ! (i div 8)) (i mod 8)"
proof (induction bs arbitrary: i)
  case Nil
  then show ?case by simp
next
  case (Cons b bs)
  show ?case
  proof (cases "i < 8")
    case True
    then show ?thesis
      by (auto simp: bit_or_iff bit_push_bit_iff bit_ucast_iff bit_imp_le_length)
  next
    case False
    define k where "k = i - 8"
    with False have i: "i = k + 8" by simp
    have high: "\<not> bit b i" using False bit_imp_le_length [of b i] by auto
    have "(k + 8) div 8 = Suc (k div 8)" "(k + 8) mod 8 = k mod 8" by simp_all
    then show ?thesis
      using Cons.IH [of k] high
      by (auto simp: bit_or_iff bit_push_bit_iff bit_ucast_iff i)
  qed
qed

lemma from_le_bytes_le_bytes:
  "from_le_bytes (le_bytes n w) = take_bit (8 * n) (w :: 'a::len word)"
proof (rule bit_word_eqI)
  fix i
  assume "i < LENGTH('a)"
  have "i div 8 < n \<longleftrightarrow> i < 8 * n" by (auto simp: div_less_iff_less_mult mult.commute)
  then show "bit (from_le_bytes (le_bytes n w) :: 'a word) i \<longleftrightarrow> bit (take_bit (8 * n) w) i"
    by (auto simp: bit_from_le_bytes nth_le_bytes bit_take_bit_iff bit_ucast_iff bit_drop_bit_eq
        bit_imp_le_length)
qed

lemma le_bytes_from_le_bytes:
  assumes "8 * length bs \<le> LENGTH('a)"
  shows "le_bytes (length bs) (from_le_bytes bs :: 'a::len word) = bs"
proof (rule nth_equalityI)
  show "length (le_bytes (length bs) (from_le_bytes bs :: 'a word)) = length bs" by simp
next
  fix j
  assume "j < length (le_bytes (length bs) (from_le_bytes bs :: 'a word))"
  then have j: "j < length bs" by simp
  show "le_bytes (length bs) (from_le_bytes bs :: 'a word) ! j = bs ! j"
  proof (rule bit_word_eqI)
    fix i
    assume i: "i < LENGTH(8)"
    have "(8 * j + i) div 8 = j" "(8 * j + i) mod 8 = i" "8 * j + i < 8 * length bs"
      using i j by simp_all
    moreover have "8 * j + i < LENGTH('a)" using calculation(3) assms by linarith
    ultimately show "bit (le_bytes (length bs) (from_le_bytes bs :: 'a word) ! j) i = bit (bs ! j) i"
      using i by (simp add: nth_le_bytes [OF j] bit_ucast_iff bit_drop_bit_eq bit_from_le_bytes)
  qed
qed

lemma length_be_bytes [simp, byte_simps]: "length (be_bytes n w) = n"
  by (simp add: be_bytes_def)

lemma from_be_bytes_be_bytes:
  "LENGTH('a) \<le> 8 * n \<Longrightarrow> from_be_bytes (be_bytes n w) = (w :: 'a::len word)"
  by (simp add: from_be_bytes_def be_bytes_def from_le_bytes_le_bytes take_bit_word_eq_self)

lemma be_bytes_from_be_bytes:
  "length bs = n \<Longrightarrow> 8 * n \<le> LENGTH('a) \<Longrightarrow> be_bytes n (from_be_bytes bs :: 'a::len word) = bs"
  using le_bytes_from_le_bytes [of "rev bs", where 'a = 'a]
  by (simp add: from_be_bytes_def be_bytes_def)

lemma be_bytes_inject:
  "LENGTH('a) \<le> 8 * n \<Longrightarrow> be_bytes n v = be_bytes n w \<longleftrightarrow> v = (w :: 'a::len word)"
  by (metis from_be_bytes_be_bytes)

lemma length_as_ref [simp, byte_simps]: "length (as_ref w) = 32"
  by (simp add: as_ref_def)

lemma bytes32_from_as_ref [simp, byte_simps]: "bytes32_from (as_ref w) = w"
  by (simp add: bytes32_from_def as_ref_def from_be_bytes_be_bytes)

lemma as_ref_bytes32_from [byte_simps]: "length bs = 32 \<Longrightarrow> as_ref (bytes32_from bs) = bs"
  by (simp add: bytes32_from_def as_ref_def be_bytes_from_be_bytes)

lemma as_ref_inject [simp]: "as_ref v = as_ref w \<longleftrightarrow> v = w"
  by (simp add: as_ref_def be_bytes_inject)

lemma length_u64_to_be_bytes [simp, byte_simps]: "length (u64_to_be_bytes w) = 8"
  by (simp add: u64_to_be_bytes_def)

lemma u64_from_to_be_bytes [simp, byte_simps]: "u64_from_be_bytes (u64_to_be_bytes w) = w"
  by (simp add: u64_from_be_bytes_def u64_to_be_bytes_def from_be_bytes_be_bytes)

lemma u64_to_from_be_bytes [byte_simps]:
  "length bs = 8 \<Longrightarrow> u64_to_be_bytes (u64_from_be_bytes bs) = bs"
  by (simp add: u64_from_be_bytes_def u64_to_be_bytes_def be_bytes_from_be_bytes)

lemma u64_to_be_bytes_inject [simp]: "u64_to_be_bytes v = u64_to_be_bytes w \<longleftrightarrow> v = w"
  by (simp add: u64_to_be_bytes_def be_bytes_inject)

lemma length_u64_to_le_bytes [simp, byte_simps]: "length (u64_to_le_bytes w) = 8"
  by (simp add: u64_to_le_bytes_def)

lemma u64_from_to_le_bytes [simp, byte_simps]: "u64_from_le_bytes (u64_to_le_bytes w) = w"
  by (simp add: u64_from_le_bytes_def u64_to_le_bytes_def from_le_bytes_le_bytes
      take_bit_word_eq_self)

lemma u64_to_from_le_bytes [byte_simps]:
  "length bs = 8 \<Longrightarrow> u64_to_le_bytes (u64_from_le_bytes bs) = bs"
  using le_bytes_from_le_bytes [of bs, where 'a = 64]
  by (simp add: u64_from_le_bytes_def u64_to_le_bytes_def)

lemma u64_to_le_bytes_inject [simp]: "u64_to_le_bytes v = u64_to_le_bytes w \<longleftrightarrow> v = w"
  by (metis u64_from_to_le_bytes)

text \<open>Prefixes of fixed width decide equality of the component they hold.\<close>

lemma prefix_same_length: "length p = length q \<Longrightarrow> prefix p (q @ r) \<longleftrightarrow> p = q"
  by (auto simp: prefix_def append_eq_append_conv2)

lemma prefix_as_ref [simp]: "prefix (as_ref v) (as_ref w @ r) \<longleftrightarrow> v = w"
  by (simp add: prefix_same_length)

lemma prefix_u64_to_be_bytes [simp]: "prefix (u64_to_be_bytes v) (u64_to_be_bytes w @ r) \<longleftrightarrow> v = w"
  by (simp add: prefix_same_length)

section \<open>Big-endian order is numeric order\<close>

text \<open>The value of a byte string read in base 256.\<close>

fun be_val :: "bytes \<Rightarrow> nat" where
  "be_val [] = 0"
| "be_val (b # bs) = unat b * 256 ^ length bs + be_val bs"

lemma be_val_bound: "be_val bs < 256 ^ length bs"
proof (induction bs)
  case Nil
  then show ?case by simp
next
  case (Cons b bs)
  have "unat b \<le> 255" using unsigned_less [of b, where 'a = nat] by simp
  then have "unat b * 256 ^ length bs \<le> 255 * 256 ^ length bs" by (rule mult_le_mono1)
  with Cons have "unat b * 256 ^ length bs + be_val bs < 255 * 256 ^ length bs + 256 ^ length bs"
    by (rule add_le_less_mono [rotated])
  then show ?case by simp
qed

lemma be_val_append: "be_val (xs @ ys) = be_val xs * 256 ^ length ys + be_val ys"
  by (induction xs) (auto simp: algebra_simps power_add)

lemma be_val_less:
  assumes "length xs = length ys"
  shows "xs < ys \<longleftrightarrow> be_val xs < be_val ys"
  using assms
proof (induction xs ys rule: list_induct2)
  case Nil
  then show ?case by simp
next
  case (Cons x xs y ys)
  have bx: "be_val xs < 256 ^ length ys" using be_val_bound [of xs] Cons.hyps by simp
  have by': "be_val ys < 256 ^ length ys" by (rule be_val_bound)
  have step: "unat a * 256 ^ length ys + m < unat b * 256 ^ length ys + n"
    if "a < b" "m < 256 ^ length ys" for a b :: byte and m n
  proof -
    have "Suc (unat a) * 256 ^ length ys \<le> unat b * 256 ^ length ys"
      using that(1) by (intro mult_le_mono1) (simp add: word_less_nat_alt Suc_le_eq)
    with that(2) show ?thesis by simp
  qed
  consider "x < y" | "x = y" | "y < x" by (rule linorder_cases)
  then show ?case
  proof cases
    case 1
    with step [OF 1 bx, of "be_val ys"] Cons.hyps show ?thesis by (simp add: Cons_less_Cons)
  next
    case 2
    with Cons show ?thesis by (simp add: Cons_less_Cons)
  next
    case 3
    then have "\<not> x < y" "x \<noteq> y" by simp_all
    with step [OF 3 by', of "be_val xs"] Cons.hyps show ?thesis by (simp add: Cons_less_Cons)
  qed
qed

lemma be_val_be_bytes: "be_val (be_bytes n w) = unat (take_bit (8 * n) w)"
proof (induction n arbitrary: w)
  case 0
  then show ?case by (simp add: be_bytes_def)
next
  case (Suc n)
  have "be_bytes (Suc n) w = be_bytes n (drop_bit 8 w) @ [ucast w]"
    by (simp add: be_bytes_def)
  then have "be_val (be_bytes (Suc n) w)
      = unat (take_bit (8 * n) (drop_bit 8 w)) * 256 + unat (ucast w :: byte)"
    using Suc.IH by (simp add: be_val_append)
  also have "\<dots> = take_bit (8 * n) (drop_bit 8 (unat w)) * 256 + take_bit 8 (unat w)"
    by (simp add: unsigned_take_bit_eq unat_drop_bit_eq unsigned_ucast_eq)
  also have "\<dots> = take_bit (8 * n + 8) (unat w)"
    by (simp add: take_bit_eq_mod drop_bit_eq_div mod_mult2_eq power_add mult.commute)
  finally show ?case by (simp add: unsigned_take_bit_eq add.commute)
qed

lemma be_bytes_less:
  assumes "LENGTH('a) \<le> 8 * n"
  shows "be_bytes n v < be_bytes n w \<longleftrightarrow> v < (w :: 'a::len word)"
  using assms
  by (simp add: be_val_less be_val_be_bytes take_bit_word_eq_self word_less_nat_alt)

lemma u64_to_be_bytes_less: "u64_to_be_bytes v < u64_to_be_bytes w \<longleftrightarrow> v < w"
  by (simp add: u64_to_be_bytes_def be_bytes_less)

lemma as_ref_less: "as_ref v < as_ref w \<longleftrightarrow> v < w"
  by (simp add: as_ref_def be_bytes_less)

lemma append_less_iff:
  "length xs = length xs' \<Longrightarrow> (xs @ ys :: bytes) < xs' @ ys' \<longleftrightarrow> xs < xs' \<or> xs = xs' \<and> ys < ys'"
  by (induction xs xs' rule: list_induct2) (auto simp: Cons_less_Cons)

section \<open>Hash maps as association lists\<close>

text \<open>
  A \<open>HashMap\<close> is an association list with distinct keys; the list's order stands for the
  unspecified iteration order. \<open>insert\<close> is \<^const>\<open>AList.update\<close> and \<open>remove\<close> is
  \<^const>\<open>AList.delete\<close>.
\<close>

type_synonym ('k, 'v) hash_map = "('k \<times> 'v) list"

definition hm_ok :: "('k, 'v) hash_map \<Rightarrow> bool" where
  "hm_ok m \<longleftrightarrow> distinct (map fst m)"

definition hm_insert :: "'k \<Rightarrow> 'v \<Rightarrow> ('k, 'v) hash_map \<Rightarrow> ('k, 'v) hash_map" where
  "hm_insert k v m = AList.update k v m"

definition hm_remove :: "'k \<Rightarrow> ('k, 'v) hash_map \<Rightarrow> ('k, 'v) hash_map" where
  "hm_remove k m = AList.delete k m"

definition hm_contains_key :: "('k, 'v) hash_map \<Rightarrow> 'k \<Rightarrow> bool" where
  "hm_contains_key m k \<longleftrightarrow> map_of m k \<noteq> None"

lemma hm_ok_empty [simp]: "hm_ok []"
  by (simp add: hm_ok_def)

lemma hm_ok_insert [simp]: "hm_ok m \<Longrightarrow> hm_ok (hm_insert k v m)"
  by (simp add: hm_ok_def hm_insert_def distinct_update)

lemma hm_ok_remove [simp]: "hm_ok m \<Longrightarrow> hm_ok (hm_remove k m)"
  by (simp add: hm_ok_def hm_remove_def distinct_delete)

lemma map_of_hm_insert [simp]: "map_of (hm_insert k v m) = (map_of m)(k \<mapsto> v)"
  by (simp add: hm_insert_def update_conv')

lemma map_of_hm_remove [simp]: "map_of (hm_remove k m) = (map_of m)(k := None)"
  by (simp add: hm_remove_def delete_conv')

lemma hm_contains_key_iff: "hm_contains_key m k \<longleftrightarrow> k \<in> dom (map_of m)"
  by (auto simp: hm_contains_key_def)

lemma map_of_eq_set:
  "hm_ok m \<Longrightarrow> hm_ok m' \<Longrightarrow> map_of m = map_of m' \<longleftrightarrow> set m = set m'"
  unfolding hm_ok_def by (metis map_of_inject_set)

section \<open>Decimal formatting\<close>

fun show_nat :: "nat \<Rightarrow> string" where
  "show_nat n =
     (if n < 10 then [char_of (48 + n)] else show_nat (n div 10) @ [char_of (48 + n mod 10)])"

declare show_nat.simps [simp del]

text \<open>Formatting a signed 64-bit integer.\<close>

definition show_int :: "int \<Rightarrow> string" where
  "show_int i = (if i < 0 then ''-'' @ show_nat (nat (- i)) else show_nat (nat i))"

section \<open>Error propagation\<close>

text \<open>The success case of the \<open>?\<close> operator.\<close>

lemma try_eq_Inr: "(case r of Inl e \<Rightarrow> Inl (g e) | Inr x \<Rightarrow> f x) = Inr y \<longleftrightarrow> (\<exists>x. r = Inr x \<and> f x = Inr y)"
  by (cases r) auto

end
