(* ===== verification/Types.thy ===== *)
theory Types
  imports Prelude
begin

text \<open>
  The domain types of \<open>src/src/types.rs\<close> and their methods, the structs of \<open>chia_protocol\<close>
  that they embed, and the record \<open>externals\<close> of the third-party functions that the crate
  calls (SHA-256, \<open>Coin::coin_id\<close>, bincode, the formatting of 32-byte strings). Every
  definition that calls one of them takes the record as its argument. A \<open>usize\<close> is a
  \<^typ>\<open>nat\<close>, an \<open>i64\<close> is a 64-bit word read with \<^const>\<open>sint\<close>.
\<close>

section \<open>Data\<close>

type_synonym coin_id = bytes32
type_synonym puzzle_hash = bytes32

record coin =
  parent_coin_info :: bytes32
  coin_puzzle_hash :: bytes32
  amount :: u64

record coin_state =
  cst_coin :: coin
  cst_spent_height :: "u32 option"
  cst_created_height :: "u32 option"

record coin_state_filters =
  csf_include_spent :: bool
  csf_include_unspent :: bool
  csf_include_hinted :: bool
  csf_min_amount :: u64

record chia_coin_record =
  ccr_coin :: coin
  confirmed_block_index :: u32
  spent_block_index :: u32
  ccr_coinbase :: bool
  ccr_timestamp :: u64

record coin_record =
  cr_coin :: coin
  confirmed_height :: u64
  spent_height :: "u64 option"
  coinbase :: bool
  cr_timestamp :: u64
  ff_eligible :: bool

record coin_addition =
  ca_coin_id :: coin_id
  ca_coin :: coin
  same_as_parent :: bool

record block_data =
  bd_height :: u64
  bd_timestamp :: u64
  block_hash :: bytes32
  parent_hash :: bytes32
  additions :: "coin_addition list"
  removals :: "coin_id list"
  coinbase_coins :: "coin list"
  bd_hints :: "(coin_id \<times> bytes32) list"
  expected_state_root :: "bytes32 option"

record apply_block_result =
  abr_state_root :: bytes32
  coins_created :: nat
  coins_spent :: nat
  abr_height :: u64

record rollback_result =
  modified_coins :: "(coin_id, coin_record) hash_map"
  coins_deleted :: nat
  coins_unspent :: nat
  new_height :: u64

record coin_store_stats =
  ss_height :: u64
  ss_timestamp :: u64
  unspent_count :: u64
  spent_count :: u64
  ss_total_unspent_value :: u64
  ss_state_root :: bytes32
  ss_tip_hash :: bytes32
  hint_count :: u64
  snapshot_count :: nat

record coin_store_snapshot =
  sn_height :: u64
  sn_block_hash :: bytes32
  sn_state_root :: bytes32
  sn_timestamp :: u64
  sn_coins :: "(coin_id, coin_record) hash_map"
  sn_hints :: "(coin_id \<times> bytes32) list"
  total_coins :: u64
  total_value :: u64

record unspent_lineage_info =
  li_coin_id :: coin_id
  li_parent_id :: coin_id
  li_parent_parent_id :: coin_id

section \<open>Third-party functions\<close>

text \<open>
  \<open>sha256\<close> is the digest of the concatenation of all \<open>update\<close> calls, \<open>coin_id_of\<close> is
  \<open>Coin::coin_id\<close>. The \<open>kv_\<close> pair is bincode with the options of \<open>kv_bincode_options\<close>, the
  \<open>default_\<close> decoders are \<open>bincode::deserialize\<close>; an error is its message.
\<close>

record externals =
  sha256 :: "bytes \<Rightarrow> bytes32"
  coin_id_of :: "coin \<Rightarrow> coin_id"
  kv_serialize_record :: "coin_record \<Rightarrow> string + bytes"
  kv_deserialize_record :: "bytes \<Rightarrow> string + coin_record"
  default_deserialize_record :: "bytes \<Rightarrow> string + coin_record"
  kv_serialize_snapshot :: "coin_store_snapshot \<Rightarrow> string + bytes"
  kv_deserialize_snapshot :: "bytes \<Rightarrow> string + coin_store_snapshot"
  default_deserialize_snapshot :: "bytes \<Rightarrow> string + coin_store_snapshot"
  display_bytes32 :: "bytes32 \<Rightarrow> string"
  debug_bytes32 :: "bytes32 \<Rightarrow> string"

section \<open>Methods\<close>

definition chia_coin_record_new :: "coin \<Rightarrow> u32 \<Rightarrow> u32 \<Rightarrow> bool \<Rightarrow> u64 \<Rightarrow> chia_coin_record" where
  "chia_coin_record_new c confirmed spent cb ts =
     \<lparr>ccr_coin = c, confirmed_block_index = confirmed, spent_block_index = spent,
      ccr_coinbase = cb, ccr_timestamp = ts\<rparr>"

definition coin_record_new :: "coin \<Rightarrow> u64 \<Rightarrow> u64 \<Rightarrow> bool \<Rightarrow> coin_record" where
  "coin_record_new c h ts cb =
     \<lparr>cr_coin = c, confirmed_height = h, spent_height = None, coinbase = cb,
      cr_timestamp = ts, ff_eligible = False\<rparr>"

definition is_spent :: "coin_record \<Rightarrow> bool" where
  "is_spent r \<longleftrightarrow> spent_height r \<noteq> None"

definition spend :: "u64 \<Rightarrow> coin_record \<Rightarrow> coin_record" where
  "spend h r = r\<lparr>spent_height := Some h\<rparr>"

definition record_coin_id :: "externals \<Rightarrow> coin_record \<Rightarrow> coin_id" where
  "record_coin_id X r = coin_id_of X (cr_coin r)"

text \<open>The release build: \<open>debug_assert!\<close> is compiled out and \<open>as u32\<close> truncates.\<close>

definition to_coin_state :: "coin_record \<Rightarrow> coin_state" where
  "to_coin_state r =
     \<lparr>cst_coin = cr_coin r, cst_spent_height = map_option ucast (spent_height r),
      cst_created_height = Some (ucast (confirmed_height r))\<rparr>"

definition from_chia_coin_record :: "chia_coin_record \<Rightarrow> coin_record" where
  "from_chia_coin_record r =
     \<lparr>cr_coin = ccr_coin r, confirmed_height = ucast (confirmed_block_index r),
      spent_height = (if spent_block_index r = 0 then None else Some (ucast (spent_block_index r))),
      coinbase = ccr_coinbase r, cr_timestamp = ccr_timestamp r, ff_eligible = False\<rparr>"

definition u32_max :: u64 where
  "u32_max = 0xFFFFFFFF"

text \<open>\<open>None\<close> is a failed \<open>assert!\<close>, which panics.\<close>

definition to_chia_coin_record :: "coin_record \<Rightarrow> chia_coin_record option" where
  "to_chia_coin_record r =
     (if confirmed_height r \<le> u32_max then
        (case spent_height r of
           None \<Rightarrow> Some (chia_coin_record_new (cr_coin r) (ucast (confirmed_height r)) 0
                          (coinbase r) (cr_timestamp r))
         | Some h \<Rightarrow>
             if h \<le> u32_max then
               Some (chia_coin_record_new (cr_coin r) (ucast (confirmed_height r)) (ucast h)
                       (coinbase r) (cr_timestamp r))
             else None)
      else None)"

definition coin_addition_from_coin :: "externals \<Rightarrow> coin \<Rightarrow> bool \<Rightarrow> coin_addition" where
  "coin_addition_from_coin X c same =
     \<lparr>ca_coin_id = coin_id_of X c, ca_coin = c, same_as_parent = same\<rparr>"

section \<open>Facts about the methods\<close>

lemma coin_record_new_sel [simp]:
  "cr_coin (coin_record_new c h ts cb) = c"
  "confirmed_height (coin_record_new c h ts cb) = h"
  "spent_height (coin_record_new c h ts cb) = None"
  "coinbase (coin_record_new c h ts cb) = cb"
  "cr_timestamp (coin_record_new c h ts cb) = ts"
  "ff_eligible (coin_record_new c h ts cb) = False"
  by (simp_all add: coin_record_new_def)

lemma spend_sel [simp]:
  "cr_coin (spend h r) = cr_coin r"
  "confirmed_height (spend h r) = confirmed_height r"
  "spent_height (spend h r) = Some h"
  "coinbase (spend h r) = coinbase r"
  "cr_timestamp (spend h r) = cr_timestamp r"
  "ff_eligible (spend h r) = ff_eligible r"
  "is_spent (spend h r)"
  "record_coin_id X (spend h r) = record_coin_id X r"
  by (simp_all add: spend_def is_spent_def record_coin_id_def)

lemma record_coin_id_new [simp]: "record_coin_id X (coin_record_new c h ts cb) = coin_id_of X c"
  by (simp add: record_coin_id_def)

lemma ucast_u32_u64 [simp]: "ucast (ucast (x :: u32) :: u64) = x"
  by (simp add: ucast_up_ucast_id is_up)

lemma ucast_u64_u32: "x \<le> u32_max \<Longrightarrow> ucast (ucast (x :: u64) :: u32) = x"
proof -
  assume "x \<le> u32_max"
  then have "unat x < 2 ^ 32" by (simp add: word_le_nat_alt u32_max_def)
  then have "take_bit 32 (unat x) = unat x" by (simp add: take_bit_nat_eq_self)
  then show ?thesis
    by (intro word_unat_eq_iff [THEN iffD2]) (simp add: unsigned_ucast_eq unsigned_take_bit_eq)
qed

lemma ucast_u32_le: "ucast (x :: u32) \<le> u32_max"
proof -
  have "unat x < 2 ^ 32" using unsigned_less [of x, where 'a = nat] by simp
  then show ?thesis by (simp add: word_le_nat_alt u32_max_def unsigned_ucast_eq take_bit_nat_eq_self)
qed

text \<open>The heights of a record fit the 32-bit fields of the Chia row.\<close>

definition heights_fit_u32 :: "coin_record \<Rightarrow> bool" where
  "heights_fit_u32 r \<longleftrightarrow> confirmed_height r \<le> u32_max \<and> pred_option (\<lambda>h. h \<le> u32_max) (spent_height r)"

text \<open>
  Exporting a coin record to the Chia row and ingesting it again panics exactly when a
  height does not fit 32 bits; otherwise it returns the record with the fast-forward flag
  reset and a spend at height 0 read as unspent, and every other field unchanged.
\<close>

theorem chia_record_roundtrip:
  "map_option from_chia_coin_record (to_chia_coin_record r) =
     (if heights_fit_u32 r
      then Some (r\<lparr>ff_eligible := False,
                   spent_height := (if spent_height r = Some 0 then None else spent_height r)\<rparr>)
      else None)"
proof (cases "spent_height r")
  case None
  then show ?thesis
    by (simp add: to_chia_coin_record_def from_chia_coin_record_def chia_coin_record_new_def
        heights_fit_u32_def ucast_u64_u32)
next
  case (Some h)
  have "(ucast h :: u32) = 0 \<longleftrightarrow> h = 0" if "h \<le> u32_max"
    using ucast_u64_u32 [OF that] by auto
  with Some show ?thesis
    by (auto simp: to_chia_coin_record_def from_chia_coin_record_def chia_coin_record_new_def
        heights_fit_u32_def ucast_u64_u32)
qed

text \<open>
  Ingesting a Chia row and exporting it again is the identity: every 32-bit row fits, and
  the sentinel 0 of an unspent row survives the detour through \<open>Option\<close>.
\<close>

theorem chia_row_roundtrip: "to_chia_coin_record (from_chia_coin_record r) = Some r"
  by (simp add: to_chia_coin_record_def from_chia_coin_record_def chia_coin_record_new_def
      ucast_u32_le)

end
