(* ===== verification/Errors.thy ===== *)
theory Errors
  imports Types
begin

text \<open>
  The error types of \<open>src/src/error.rs\<close>, \<open>src/src/storage/mod.rs\<close>, \<open>src/src/hints.rs\<close> and
  \<open>src/src/merkle/mod.rs\<close>, their \<open>Display\<close> texts, and the \<open>From\<close> conversions. \<open>Panicked\<close> is not a variant of the source: it stands for a Rust panic
  that unwinds out of the operation.
\<close>

datatype storage_error =
    UnknownColumnFamily string
  | BackendError string
  | MapFull
  | StorageSerializationError string

datatype hint_error = HintErrorTooLong nat nat

datatype merkle_error =
    KeyAlreadyExists bytes32
  | KeyNotFound bytes32
  | PersistedRootMissing
  | InvalidPersistedRootLength nat
  | PersistedRootMismatch bytes32 bytes32
  | MerkleStorage string
  | ProofRequiresCleanTree

datatype coin_store_error =
    HeightMismatch u64 u64
  | ParentHashMismatch bytes32 bytes32
  | StateRootMismatch bytes32 bytes32
  | CoinNotFound coin_id
  | CoinAlreadyExists coin_id
  | DoubleSpend coin_id
  | SpendCountMismatch nat nat
  | InvalidRewardCoinCount string nat
  | HintTooLong nat nat
  | GenesisAlreadyInitialized
  | NotInitialized
  | RollbackAboveTip i64 u64
  | PuzzleHashBatchTooLarge nat nat
  | StorageError string
  | SerializationError string
  | DeserializationError string
  | Panicked

definition storage_error_to_string :: "storage_error \<Rightarrow> string" where
  "storage_error_to_string e =
     (case e of
        UnknownColumnFamily cf \<Rightarrow> ''unknown column family: '' @ cf
      | BackendError m \<Rightarrow> ''backend error: '' @ m
      | MapFull \<Rightarrow> ''LMDB map full: increase lmdb_map_size and reopen the environment''
      | StorageSerializationError m \<Rightarrow> ''serialization error: '' @ m)"

definition merkle_error_to_string :: "externals \<Rightarrow> merkle_error \<Rightarrow> string" where
  "merkle_error_to_string X e =
     (case e of
        KeyAlreadyExists k \<Rightarrow> ''key already exists: '' @ display_bytes32 X k
      | KeyNotFound k \<Rightarrow> ''key not found: '' @ display_bytes32 X k
      | PersistedRootMissing \<Rightarrow>
          ''persisted merkle state root missing from metadata column family''
      | InvalidPersistedRootLength n \<Rightarrow>
          ''persisted merkle state root has invalid length: '' @ show_nat n
            @ '' bytes (expected 32)''
      | PersistedRootMismatch d r \<Rightarrow>
          ''persisted merkle root mismatch: disk='' @ debug_bytes32 X d
            @ '' recomputed='' @ debug_bytes32 X r
      | MerkleStorage m \<Rightarrow> ''storage error during merkle load: '' @ m
      | ProofRequiresCleanTree \<Rightarrow>
          ''cannot generate coin proof while tree is dirty; call root() after mutations'')"

definition hint_error_to_string :: "hint_error \<Rightarrow> string" where
  "hint_error_to_string e =
     (case e of
        HintErrorTooLong len mx \<Rightarrow>
          ''hint too long: '' @ show_nat len @ '' bytes exceeds maximum '' @ show_nat mx)"

text \<open>A panic has no text in the source; the model gives it the empty one.\<close>

definition coin_store_error_to_string :: "externals \<Rightarrow> coin_store_error \<Rightarrow> string" where
  "coin_store_error_to_string X e =
     (case e of
        HeightMismatch expected got \<Rightarrow>
          ''block height '' @ show_nat (unat got) @ '' does not follow current height ''
            @ show_nat (unat expected)
      | ParentHashMismatch expected got \<Rightarrow>
          ''parent hash mismatch: expected '' @ debug_bytes32 X expected @ '', got ''
            @ debug_bytes32 X got
      | StateRootMismatch expected computed \<Rightarrow>
          ''state root mismatch: expected '' @ debug_bytes32 X expected @ '', computed ''
            @ debug_bytes32 X computed
      | CoinNotFound i \<Rightarrow> ''coin not found: '' @ debug_bytes32 X i
      | CoinAlreadyExists i \<Rightarrow> ''coin already exists: '' @ debug_bytes32 X i
      | DoubleSpend i \<Rightarrow> ''double spend: coin '' @ debug_bytes32 X i @ '' already spent''
      | SpendCountMismatch expected actual \<Rightarrow>
          ''spend count mismatch: expected '' @ show_nat expected @ '' updates, got '' @ show_nat actual
      | InvalidRewardCoinCount expected got \<Rightarrow>
          ''invalid reward coin count: expected '' @ expected @ '', got '' @ show_nat got
      | HintTooLong len mx \<Rightarrow>
          ''hint too long: '' @ show_nat len @ '' bytes exceeds maximum '' @ show_nat mx
      | GenesisAlreadyInitialized \<Rightarrow> ''genesis already initialized''
      | NotInitialized \<Rightarrow> ''coinstate not initialized (call init_genesis first)''
      | RollbackAboveTip target current \<Rightarrow>
          ''cannot rollback: target height '' @ show_int (sint target) @ '' above current height ''
            @ show_nat (unat current)
      | PuzzleHashBatchTooLarge n mx \<Rightarrow>
          ''puzzle hash batch size '' @ show_nat n @ '' exceeds maximum '' @ show_nat mx
      | StorageError m \<Rightarrow> ''storage error: '' @ m
      | SerializationError m \<Rightarrow> ''serialization error: '' @ m
      | DeserializationError m \<Rightarrow> ''deserialization error: '' @ m
      | Panicked \<Rightarrow> [])"

definition from_bincode_deserialize :: "string \<Rightarrow> coin_store_error" where
  "from_bincode_deserialize err = DeserializationError err"

definition from_bincode_error :: "string \<Rightarrow> coin_store_error" where
  "from_bincode_error err = SerializationError err"

definition from_storage_error :: "storage_error \<Rightarrow> coin_store_error" where
  "from_storage_error err = StorageError (storage_error_to_string err)"

text \<open>The engines' errors, by their \<open>to_string()\<close>; each exists with the engine's feature.\<close>

definition from_heed_error :: "string \<Rightarrow> coin_store_error" where
  "from_heed_error err = StorageError err"

definition from_rocksdb_error :: "string \<Rightarrow> coin_store_error" where
  "from_rocksdb_error err = StorageError err"

fun from_hint_error :: "hint_error \<Rightarrow> coin_store_error" where
  "from_hint_error (HintErrorTooLong len mx) = HintTooLong len mx"

text \<open>The \<open>?\<close> operator on a storage result inside an operation of the store.\<close>

definition lift_storage :: "storage_error + 'a \<Rightarrow> coin_store_error + 'a" where
  "lift_storage r = (case r of Inl e \<Rightarrow> Inl (from_storage_error e) | Inr x \<Rightarrow> Inr x)"

lemma lift_storage_simps [simp]:
  "lift_storage (Inl e) = Inl (from_storage_error e)"
  "lift_storage (Inr x) = Inr x"
  by (simp_all add: lift_storage_def)

lemma lift_storage_Inr [simp]: "lift_storage r = Inr x \<longleftrightarrow> r = Inr x"
  by (cases r) (auto simp: lift_storage_def)

text \<open>The conversions keep the text, a storage error with a prefix.\<close>

lemma display_converted:
  "coin_store_error_to_string X (from_hint_error h) = hint_error_to_string h"
  "coin_store_error_to_string X (from_storage_error e) = ''storage error: '' @ storage_error_to_string e"
  by (cases h) (simp_all add: coin_store_error_to_string_def hint_error_to_string_def from_storage_error_def)

end
