(* ===== verification/Schema.thy ===== *)
theory Schema
  imports Prelude
begin

text \<open>
  \<open>src/src/storage/schema.rs\<close>: the twelve logical column families and the composite keys. A
  decoder that indexes a slice out of range panics in the source; its model returns \<open>None\<close>.
  The lemmas give the round trips, the injectivity and the prefix behaviour that the scans of
  the store rely on.
\<close>

section \<open>Column families\<close>

definition CF_COIN_RECORDS :: string where "CF_COIN_RECORDS = ''coin_records''"
definition CF_COIN_BY_PUZZLE_HASH :: string where "CF_COIN_BY_PUZZLE_HASH = ''coin_by_puzzle_hash''"
definition CF_UNSPENT_BY_PUZZLE_HASH :: string where
  "CF_UNSPENT_BY_PUZZLE_HASH = ''unspent_by_puzzle_hash''"
definition CF_COIN_BY_PARENT :: string where "CF_COIN_BY_PARENT = ''coin_by_parent''"
definition CF_COIN_BY_CONFIRMED_HEIGHT :: string where
  "CF_COIN_BY_CONFIRMED_HEIGHT = ''coin_by_confirmed_height''"
definition CF_COIN_BY_SPENT_HEIGHT :: string where
  "CF_COIN_BY_SPENT_HEIGHT = ''coin_by_spent_height''"
definition CF_HINTS :: string where "CF_HINTS = ''hints''"
definition CF_HINTS_BY_VALUE :: string where "CF_HINTS_BY_VALUE = ''hints_by_value''"
definition CF_MERKLE_NODES :: string where "CF_MERKLE_NODES = ''merkle_nodes''"
definition CF_ARCHIVE_COIN_RECORDS :: string where
  "CF_ARCHIVE_COIN_RECORDS = ''archive_coin_records''"
definition CF_STATE_SNAPSHOTS :: string where "CF_STATE_SNAPSHOTS = ''state_snapshots''"
definition CF_METADATA :: string where "CF_METADATA = ''metadata''"

lemmas cf_defs = CF_COIN_RECORDS_def CF_COIN_BY_PUZZLE_HASH_def CF_UNSPENT_BY_PUZZLE_HASH_def
  CF_COIN_BY_PARENT_def CF_COIN_BY_CONFIRMED_HEIGHT_def CF_COIN_BY_SPENT_HEIGHT_def CF_HINTS_def
  CF_HINTS_BY_VALUE_def CF_MERKLE_NODES_def CF_ARCHIVE_COIN_RECORDS_def CF_STATE_SNAPSHOTS_def
  CF_METADATA_def

definition ALL_COLUMN_FAMILIES :: "string list" where
  "ALL_COLUMN_FAMILIES =
     [CF_COIN_RECORDS, CF_COIN_BY_PUZZLE_HASH, CF_UNSPENT_BY_PUZZLE_HASH, CF_COIN_BY_PARENT,
      CF_COIN_BY_CONFIRMED_HEIGHT, CF_COIN_BY_SPENT_HEIGHT, CF_HINTS, CF_HINTS_BY_VALUE,
      CF_MERKLE_NODES, CF_ARCHIVE_COIN_RECORDS, CF_STATE_SNAPSHOTS, CF_METADATA]"

definition STO002_ROCKS_WRITE_BUFFER_BYTES :: "nat list" where
  "STO002_ROCKS_WRITE_BUFFER_BYTES =
     [64 * 1024 * 1024, 32 * 1024 * 1024, 32 * 1024 * 1024, 16 * 1024 * 1024, 16 * 1024 * 1024,
      16 * 1024 * 1024, 16 * 1024 * 1024, 16 * 1024 * 1024, 64 * 1024 * 1024, 16 * 1024 * 1024,
      8 * 1024 * 1024, 4 * 1024 * 1024]"

definition STO006_ROCKS_MAX_WRITE_BUFFER_NUMBER :: "32 word list" where
  "STO006_ROCKS_MAX_WRITE_BUFFER_NUMBER = [3, 2, 2, 2, 2, 2, 2, 2, 3, 2, 2, 2]"

lemma distinct_column_families: "distinct ALL_COLUMN_FAMILIES"
  by (simp add: ALL_COLUMN_FAMILIES_def cf_defs)

lemma distinct_column_families_rev: "distinct (rev ALL_COLUMN_FAMILIES)"
  by (simp add: distinct_column_families)

text \<open>The twelve names are pairwise different, in both directions for the simplifier.\<close>

lemmas cf_neq [simp] =
  distinct_column_families [unfolded ALL_COLUMN_FAMILIES_def, simplified]
  distinct_column_families_rev [unfolded ALL_COLUMN_FAMILIES_def, simplified]

lemma column_family_mem [simp]:
  "CF_COIN_RECORDS \<in> set ALL_COLUMN_FAMILIES" "CF_COIN_BY_PUZZLE_HASH \<in> set ALL_COLUMN_FAMILIES"
  "CF_UNSPENT_BY_PUZZLE_HASH \<in> set ALL_COLUMN_FAMILIES" "CF_COIN_BY_PARENT \<in> set ALL_COLUMN_FAMILIES"
  "CF_COIN_BY_CONFIRMED_HEIGHT \<in> set ALL_COLUMN_FAMILIES"
  "CF_COIN_BY_SPENT_HEIGHT \<in> set ALL_COLUMN_FAMILIES" "CF_HINTS \<in> set ALL_COLUMN_FAMILIES"
  "CF_HINTS_BY_VALUE \<in> set ALL_COLUMN_FAMILIES" "CF_MERKLE_NODES \<in> set ALL_COLUMN_FAMILIES"
  "CF_ARCHIVE_COIN_RECORDS \<in> set ALL_COLUMN_FAMILIES" "CF_STATE_SNAPSHOTS \<in> set ALL_COLUMN_FAMILIES"
  "CF_METADATA \<in> set ALL_COLUMN_FAMILIES"
  by (simp_all add: ALL_COLUMN_FAMILIES_def)

section \<open>Keys\<close>

text \<open>\<open>&xs[a..b]\<close> for indices in range.\<close>

definition slice :: "nat \<Rightarrow> nat \<Rightarrow> 'a list \<Rightarrow> 'a list" where
  "slice a b xs = take (b - a) (drop a xs)"

definition coin_key :: "bytes32 \<Rightarrow> bytes" where
  "coin_key coin_id = as_ref coin_id"

definition coin_id_from_key :: "bytes \<Rightarrow> bytes32 option" where
  "coin_id_from_key key = (if length key < 32 then None else Some (bytes32_from (slice 0 32 key)))"

definition puzzle_hash_coin_key :: "bytes32 \<Rightarrow> bytes32 \<Rightarrow> bytes" where
  "puzzle_hash_coin_key puzzle_hash coin_id = as_ref puzzle_hash @ as_ref coin_id"

definition puzzle_hash_from_key :: "bytes \<Rightarrow> bytes32 option" where
  "puzzle_hash_from_key key =
     (if length key < 32 then None else Some (bytes32_from (slice 0 32 key)))"

definition parent_coin_key :: "bytes32 \<Rightarrow> bytes32 \<Rightarrow> bytes" where
  "parent_coin_key parent_id coin_id = as_ref parent_id @ as_ref coin_id"

definition height_coin_key :: "u64 \<Rightarrow> bytes32 \<Rightarrow> bytes" where
  "height_coin_key height coin_id = u64_to_be_bytes height @ as_ref coin_id"

definition height_coin_from_key :: "bytes \<Rightarrow> (u64 \<times> bytes32) option" where
  "height_coin_from_key key =
     (if length key < 40 then None
      else Some (u64_from_be_bytes (slice 0 8 key), bytes32_from (slice 8 40 key)))"

definition snapshot_key :: "u64 \<Rightarrow> bytes" where
  "snapshot_key height = u64_to_be_bytes height"

definition height_from_snapshot_key :: "bytes \<Rightarrow> u64 option" where
  "height_from_snapshot_key key =
     (if length key < 8 then None else Some (u64_from_be_bytes (slice 0 8 key)))"

definition height_from_key :: "bytes \<Rightarrow> u64 option" where
  "height_from_key key =
     (if length key \<ge> 8 then Some (u64_from_be_bytes (slice 0 8 key)) else None)"

definition coin_hint_key :: "bytes32 \<Rightarrow> bytes32 \<Rightarrow> bytes" where
  "coin_hint_key coin_id hint = as_ref coin_id @ as_ref hint"

definition hint_coin_key :: "bytes32 \<Rightarrow> bytes32 \<Rightarrow> bytes" where
  "hint_coin_key hint coin_id = as_ref hint @ as_ref coin_id"

definition metadata_key :: "string \<Rightarrow> bytes" where
  "metadata_key name = map of_char name"

definition merkle_node_key :: "byte \<Rightarrow> bytes32 \<Rightarrow> bytes" where
  "merkle_node_key level path = level # as_ref path"

definition merkle_node_from_key :: "bytes \<Rightarrow> (byte \<times> bytes32) option" where
  "merkle_node_from_key key =
     (if length key \<noteq> 33 then None else Some (key ! 0, bytes32_from (slice 1 33 key)))"

lemmas key_defs = coin_key_def puzzle_hash_coin_key_def parent_coin_key_def height_coin_key_def
  coin_hint_key_def hint_coin_key_def snapshot_key_def

section \<open>Facts about keys\<close>

lemma length_keys [simp]:
  "length (coin_key i) = 32"
  "length (puzzle_hash_coin_key p i) = 64"
  "length (parent_coin_key p i) = 64"
  "length (height_coin_key h i) = 40"
  "length (snapshot_key h) = 8"
  "length (coin_hint_key i t) = 64"
  "length (hint_coin_key t i) = 64"
  "length (merkle_node_key l p) = 33"
  by (simp_all add: key_defs merkle_node_key_def)

lemma keys_inject [simp]:
  "coin_key i = coin_key i' \<longleftrightarrow> i = i'"
  "puzzle_hash_coin_key p i = puzzle_hash_coin_key p' i' \<longleftrightarrow> p = p' \<and> i = i'"
  "parent_coin_key p i = parent_coin_key p' i' \<longleftrightarrow> p = p' \<and> i = i'"
  "height_coin_key h i = height_coin_key h' i' \<longleftrightarrow> h = h' \<and> i = i'"
  "snapshot_key h = snapshot_key h' \<longleftrightarrow> h = h'"
  "coin_hint_key i t = coin_hint_key i' t' \<longleftrightarrow> i = i' \<and> t = t'"
  "hint_coin_key t i = hint_coin_key t' i' \<longleftrightarrow> t = t' \<and> i = i'"
  "merkle_node_key l q = merkle_node_key l' q' \<longleftrightarrow> l = l' \<and> q = q'"
  by (auto simp: key_defs merkle_node_key_def append_eq_append_conv)

lemma keys_prefix [simp]:
  "prefix (as_ref p) (puzzle_hash_coin_key p' i) \<longleftrightarrow> p = p'"
  "prefix (as_ref p) (parent_coin_key p' i) \<longleftrightarrow> p = p'"
  "prefix (u64_to_be_bytes h) (height_coin_key h' i) \<longleftrightarrow> h = h'"
  "prefix (as_ref i) (coin_hint_key i' t) \<longleftrightarrow> i = i'"
  "prefix (as_ref t) (hint_coin_key t' i) \<longleftrightarrow> t = t'"
  by (simp_all add: key_defs)

lemma slice_append [simp]:
  "length xs = a \<Longrightarrow> length ys = b - a \<Longrightarrow> slice a b (xs @ ys) = ys"
  "length xs = b \<Longrightarrow> slice 0 b (xs @ ys) = xs"
  "length xs = b \<Longrightarrow> slice 0 b xs = xs"
  by (simp_all add: slice_def)

lemma key_decoders [simp]:
  "coin_id_from_key (coin_key i) = Some i"
  "coin_id_from_key (as_ref i) = Some i"
  "coin_id_from_key (slice 32 64 (puzzle_hash_coin_key p i)) = Some i"
  "coin_id_from_key (slice 32 64 (parent_coin_key p i)) = Some i"
  "coin_id_from_key (slice 8 40 (height_coin_key h i)) = Some i"
  "coin_id_from_key (slice 32 64 (hint_coin_key t i)) = Some i"
  "puzzle_hash_from_key (puzzle_hash_coin_key p i) = Some p"
  "height_from_snapshot_key (snapshot_key h) = Some h"
  "height_from_key (height_coin_key h i) = Some h"
  "height_coin_from_key (height_coin_key h i) = Some (h, i)"
  "merkle_node_from_key (merkle_node_key l q) = Some (l, q)"
  by (simp_all add: key_defs coin_id_from_key_def puzzle_hash_from_key_def
      height_from_snapshot_key_def height_from_key_def height_coin_from_key_def
      merkle_node_from_key_def merkle_node_key_def slice_def)

lemma height_coin_key_less: "height_coin_key h i < height_coin_key h' i' \<longleftrightarrow> h < h' \<or> h = h' \<and> i < i'"
  by (simp add: key_defs append_less_iff u64_to_be_bytes_less as_ref_less)

text \<open>
  Height-prefixed keys sort in byte order exactly as the pairs of height and coin id sort
  numerically, decode to the pair they encode, and lie under a height's 8-byte prefix exactly
  when they carry that height, which is what the height scans and range order rely on.
\<close>

theorem height_coin_key_ordered:
  "(height_coin_key h i < height_coin_key h' i' \<longleftrightarrow> h < h' \<or> h = h' \<and> i < i')
   \<and> height_coin_from_key (height_coin_key h i) = Some (h, i)
   \<and> (prefix (u64_to_be_bytes g) (height_coin_key h i) \<longleftrightarrow> g = h)"
  by (simp add: height_coin_key_less)

end
