(* ===== verification/Storage.thy ===== *)
theory Storage
  imports Errors Schema
begin

text \<open>
  \<open>src/src/storage/mod.rs\<close>: write batches and the trait \<open>StorageBackend\<close>. A trait object is a
  record of its methods over a state type; a method that takes \<open>&self\<close> and writes through
  interior mutability returns the new state, and an error returns none, so the state before
  the call is the state after it. The locale \<open>storage_backend\<close> is the contract table in the
  trait's documentation, stated over the logical contents of the store (a map per column
  family); \<open>reliable_backend\<close> adds that known column families never fail. The backends of
  \<open>Rocksdb\<close> and \<open>Lmdb\<close> interpret them; the store is verified against them only.
\<close>

section \<open>Write batches\<close>

datatype write_op = Put string bytes bytes | Delete string bytes

type_synonym write_batch = "write_op list"
type_synonym kv_pair = "bytes \<times> bytes"

definition batch_new :: write_batch where
  "batch_new = []"

text \<open>The capacity only reserves memory.\<close>

definition batch_with_capacity :: "nat \<Rightarrow> write_batch" where
  "batch_with_capacity capacity = []"

definition batch_put :: "string \<Rightarrow> bytes \<Rightarrow> bytes \<Rightarrow> write_batch \<Rightarrow> write_batch" where
  "batch_put cf key val b = b @ [Put cf key val]"

definition batch_delete :: "string \<Rightarrow> bytes \<Rightarrow> write_batch \<Rightarrow> write_batch" where
  "batch_delete cf key b = b @ [Delete cf key]"

definition batch_len :: "write_batch \<Rightarrow> nat" where
  "batch_len b = length b"

definition batch_is_empty :: "write_batch \<Rightarrow> bool" where
  "batch_is_empty b \<longleftrightarrow> b = []"

section \<open>The trait\<close>

record 's storage_ops =
  kv_get :: "'s \<Rightarrow> string \<Rightarrow> bytes \<Rightarrow> storage_error + bytes option"
  kv_put :: "'s \<Rightarrow> string \<Rightarrow> bytes \<Rightarrow> bytes \<Rightarrow> storage_error + 's"
  kv_delete :: "'s \<Rightarrow> string \<Rightarrow> bytes \<Rightarrow> storage_error + 's"
  kv_batch_write :: "'s \<Rightarrow> write_batch \<Rightarrow> storage_error + 's"
  kv_prefix_scan :: "'s \<Rightarrow> string \<Rightarrow> bytes \<Rightarrow> storage_error + kv_pair list"
  kv_flush :: "'s \<Rightarrow> storage_error + 's"
  kv_compact :: "'s \<Rightarrow> string \<Rightarrow> storage_error + 's"

section \<open>Logical contents\<close>

type_synonym table = "bytes \<Rightarrow> bytes option"
type_synonym disk = "string \<Rightarrow> table"

fun apply_op :: "write_op \<Rightarrow> disk \<Rightarrow> disk" where
  "apply_op (Put cf key val) D = D(cf := (D cf)(key \<mapsto> val))"
| "apply_op (Delete cf key) D = D(cf := (D cf)(key := None))"

definition apply_ops :: "write_batch \<Rightarrow> disk \<Rightarrow> disk" where
  "apply_ops b D = fold apply_op b D"

fun op_cf :: "write_op \<Rightarrow> string" where
  "op_cf (Put cf key val) = cf"
| "op_cf (Delete cf key) = cf"

fun op_key :: "write_op \<Rightarrow> bytes" where
  "op_key (Put cf key val) = key"
| "op_key (Delete cf key) = key"

text \<open>
  Keys that every engine accepts: LMDB refuses the empty key and keys longer than 511 bytes,
  and its backend may prepend a tag byte. Prefixes may be empty.
\<close>

definition key_ok :: "bytes \<Rightarrow> bool" where
  "key_ok k \<longleftrightarrow> 0 < length k \<and> length k \<le> 510"

definition prefix_ok :: "bytes \<Rightarrow> bool" where
  "prefix_ok p \<longleftrightarrow> length p \<le> 510"

definition op_ok :: "write_op \<Rightarrow> bool" where
  "op_ok x \<longleftrightarrow> op_cf x \<in> set ALL_COLUMN_FAMILIES \<and> key_ok (op_key x)"

text \<open>Every stored key is within the limits.\<close>

definition keys_ok :: "disk \<Rightarrow> bool" where
  "keys_ok D \<longleftrightarrow> (\<forall>cf \<in> set ALL_COLUMN_FAMILIES. \<forall>k \<in> dom (D cf). key_ok k)"

lemma key_ok_keys [simp]:
  "key_ok (as_ref i)" "key_ok (coin_key i)" "key_ok (puzzle_hash_coin_key p i)"
  "key_ok (parent_coin_key p i)" "key_ok (height_coin_key h i)" "key_ok (snapshot_key h)"
  "key_ok (coin_hint_key i t)" "key_ok (hint_coin_key t i)" "key_ok (merkle_node_key l q)"
  by (simp_all add: key_ok_def)

lemma prefix_ok_keys [simp]:
  "prefix_ok []" "prefix_ok (as_ref i)" "prefix_ok (u64_to_be_bytes h)"
  by (simp_all add: prefix_ok_def)

text \<open>The entries of a table under a prefix, in ascending key order.\<close>

definition scan_entries :: "table \<Rightarrow> bytes \<Rightarrow> kv_pair list" where
  "scan_entries m p = map (\<lambda>k. (k, the (m k))) (sorted_list_of_set {k \<in> dom m. prefix p k})"

lemma apply_ops_Nil [simp]: "apply_ops [] D = D"
  by (simp add: apply_ops_def)

lemma apply_ops_Cons [simp]: "apply_ops (x # b) D = apply_ops b (apply_op x D)"
  by (simp add: apply_ops_def)

lemma apply_ops_append [simp]: "apply_ops (b @ c) D = apply_ops c (apply_ops b D)"
  by (simp add: apply_ops_def)

lemma apply_op_other: "op_cf x \<noteq> cf \<Longrightarrow> apply_op x D cf = D cf"
  by (cases x) auto

lemma apply_ops_other: "cf \<notin> op_cf ` set b \<Longrightarrow> apply_ops b D cf = D cf"
  by (induction b arbitrary: D) (auto simp: apply_op_other)

lemma keys_ok_apply_op: "op_ok x \<Longrightarrow> keys_ok D \<Longrightarrow> keys_ok (apply_op x D)"
  by (cases x) (auto simp: keys_ok_def op_ok_def)

lemma keys_ok_apply_ops: "list_all op_ok b \<Longrightarrow> keys_ok D \<Longrightarrow> keys_ok (apply_ops b D)"
  by (induction b arbitrary: D) (auto simp: keys_ok_apply_op)

lemma finite_apply_op: "finite (dom (D cf)) \<Longrightarrow> finite (dom (apply_op x D cf))"
  by (cases x) (auto simp: dom_fun_upd)

lemma finite_apply_ops: "finite (dom (D cf)) \<Longrightarrow> finite (dom (apply_ops b D cf))"
  by (induction b arbitrary: D) (auto simp: finite_apply_op)

lemma set_scan_entries:
  "finite (dom m) \<Longrightarrow> set (scan_entries m p) = {(k, v). m k = Some v \<and> prefix p k}"
  by (auto simp: scan_entries_def image_iff intro!: bexI)

lemma keys_scan_entries:
  "finite (dom m) \<Longrightarrow> map fst (scan_entries m p) = sorted_list_of_set {k \<in> dom m. prefix p k}"
  by (simp add: scan_entries_def comp_def)

lemma distinct_scan_entries: "distinct (map fst (scan_entries m p))"
  by (simp add: scan_entries_def comp_def)

lemma sorted_scan_entries: "sorted (map fst (scan_entries m p))"
  by (simp add: scan_entries_def comp_def)

lemma length_scan_entries:
  "finite (dom m) \<Longrightarrow> length (scan_entries m []) = card (dom m)"
  by (simp add: scan_entries_def)

text \<open>A sorted list of the right entries is the scan.\<close>

lemma scan_entries_eqI:
  assumes "sorted (map fst es)" "distinct (map fst es)"
    and "set es = {(k, v). m k = Some v \<and> prefix p k}"
  shows "es = scan_entries m p"
proof -
  have keys: "set (map fst es) = {k \<in> dom m. prefix p k}"
    using assms(3) by (force simp: image_iff)
  then have "finite {k \<in> dom m. prefix p k}" by (metis finite_set)
  then have "map fst es = sorted_list_of_set {k \<in> dom m. prefix p k}"
    using assms(1,2) keys by (metis sorted_list_of_set.idem_if_sorted_distinct)
  moreover have "es = map (\<lambda>k. (k, the (m k))) (map fst es)"
  proof -
    have "(fst e, the (m (fst e))) = e" if "e \<in> set es" for e
      using that unfolding assms(3) by auto
    then show ?thesis by (simp add: map_idI)
  qed
  ultimately show ?thesis by (simp add: scan_entries_def)
qed

section \<open>The contract\<close>

locale storage_backend =
  fixes B :: "'s storage_ops"
    and view :: "'s \<Rightarrow> disk"
    and ok :: "'s \<Rightarrow> bool"
  assumes get_view: "ok s \<Longrightarrow> kv_get B s cf k = Inr r \<Longrightarrow> r = view s cf k"
    and put_view: "ok s \<Longrightarrow> kv_put B s cf k v = Inr s' \<Longrightarrow>
      ok s' \<and> view s' = apply_op (Put cf k v) (view s)"
    and delete_view: "ok s \<Longrightarrow> kv_delete B s cf k = Inr s' \<Longrightarrow>
      ok s' \<and> view s' = apply_op (Delete cf k) (view s)"
    and batch_view: "ok s \<Longrightarrow> kv_batch_write B s b = Inr s' \<Longrightarrow>
      ok s' \<and> view s' = apply_ops b (view s)"
    and scan_view: "ok s \<Longrightarrow> kv_prefix_scan B s cf p = Inr es \<Longrightarrow>
      es = scan_entries (view s cf) p"
    and flush_view: "ok s \<Longrightarrow> kv_flush B s = Inr s' \<Longrightarrow> ok s' \<and> view s' = view s"
    and compact_view: "ok s \<Longrightarrow> kv_compact B s cf = Inr s' \<Longrightarrow> ok s' \<and> view s' = view s"
    and view_finite: "ok s \<Longrightarrow> finite (dom (view s cf))"
begin

lemma get_after_put:
  assumes "ok s" "kv_put B s cf k v = Inr s'" "kv_get B s' cf' k' = Inr r"
  shows "r = (if cf' = cf \<and> k' = k then Some v else view s cf' k')"
  using put_view [OF assms(1,2)] get_view [OF _ assms(3)] by auto

lemma scan_set:
  assumes "ok s" "kv_prefix_scan B s cf p = Inr es"
  shows "set es = {(k, v). view s cf k = Some v \<and> prefix p k}"
  using scan_view [OF assms] set_scan_entries [OF view_finite [OF assms(1)]] by simp

end

locale reliable_backend = storage_backend +
  assumes get_total: "ok s \<Longrightarrow> cf \<in> set ALL_COLUMN_FAMILIES \<Longrightarrow> key_ok k \<Longrightarrow>
      \<exists>r. kv_get B s cf k = Inr r"
    and put_total: "ok s \<Longrightarrow> cf \<in> set ALL_COLUMN_FAMILIES \<Longrightarrow> key_ok k \<Longrightarrow>
      \<exists>s'. kv_put B s cf k v = Inr s'"
    and delete_total: "ok s \<Longrightarrow> cf \<in> set ALL_COLUMN_FAMILIES \<Longrightarrow> key_ok k \<Longrightarrow>
      \<exists>s'. kv_delete B s cf k = Inr s'"
    and batch_total: "ok s \<Longrightarrow> list_all op_ok b \<Longrightarrow> \<exists>s'. kv_batch_write B s b = Inr s'"
    and scan_total: "ok s \<Longrightarrow> cf \<in> set ALL_COLUMN_FAMILIES \<Longrightarrow> prefix_ok p \<Longrightarrow>
      \<exists>es. kv_prefix_scan B s cf p = Inr es"
begin

lemma get_eq:
  "ok s \<Longrightarrow> cf \<in> set ALL_COLUMN_FAMILIES \<Longrightarrow> key_ok k \<Longrightarrow> kv_get B s cf k = Inr (view s cf k)"
  using get_total get_view by blast

lemma scan_eq:
  "ok s \<Longrightarrow> cf \<in> set ALL_COLUMN_FAMILIES \<Longrightarrow> prefix_ok p \<Longrightarrow>
   kv_prefix_scan B s cf p = Inr (scan_entries (view s cf) p)"
  using scan_total scan_view by blast

lemma batch_ok:
  assumes "ok s" "list_all op_ok b"
  obtains s' where "kv_batch_write B s b = Inr s'" "ok s'" "view s' = apply_ops b (view s)"
  using batch_total [OF assms] batch_view [OF assms(1)] by blast

end

end
