(* ===== verification/Merkle.thy ===== *)
theory Merkle
  imports Storage
begin

text \<open>
  \<open>src/src/merkle/mod.rs\<close>, \<open>persistent.rs\<close> and \<open>leaf_hash.rs\<close>: the sparse Merkle tree over
  256-bit keys with its cached root and its pending node rows. The specification \<open>smt_digest\<close>
  hashes the complete binary tree of a leaf function; \<open>tree_ok\<close> is the representation
  invariant (distinct keys, a cached root is the digest of the leaves).
\<close>

section \<open>Hashing\<close>

definition SMT_HEIGHT :: nat where "SMT_HEIGHT = 256"

definition merkle_leaf_hash :: "externals \<Rightarrow> bytes \<Rightarrow> bytes32" where
  "merkle_leaf_hash X data = sha256 X (0x00 # data)"

definition merkle_node_hash :: "externals \<Rightarrow> bytes32 \<Rightarrow> bytes32 \<Rightarrow> bytes32" where
  "merkle_node_hash X left right = sha256 X (0x01 # as_ref left @ as_ref right)"

definition EMPTY_LEAF_SENTINEL :: bytes where
  "EMPTY_LEAF_SENTINEL = replicate 32 0"

definition get_empty_hashes :: "externals \<Rightarrow> bytes32 list" where
  "get_empty_hashes X =
     fold (\<lambda>i hashes. hashes[i := merkle_node_hash X (hashes ! (i - 1)) (hashes ! (i - 1))])
       [1..<Suc SMT_HEIGHT]
       ((replicate (SMT_HEIGHT + 1) 0)[0 := merkle_leaf_hash X EMPTY_LEAF_SENTINEL])"

text \<open>
  The public function asserts \<open>level \<le> SMT_HEIGHT\<close> and panics otherwise (\<open>None\<close>). Every call of the
  crate meets the assertion; those calls are modelled by the lookup after it.
\<close>

definition empty_hash :: "externals \<Rightarrow> nat \<Rightarrow> bytes32" where
  "empty_hash X level = get_empty_hashes X ! level"

definition empty_hash_asserted :: "externals \<Rightarrow> nat \<Rightarrow> bytes32 option" where
  "empty_hash_asserted X level = (if level \<le> SMT_HEIGHT then Some (empty_hash X level) else None)"

section \<open>The tree\<close>

datatype merkle_node_persist_op = PersistPut bytes32 | PersistDelete

definition MERKLE_STATE_ROOT_META_KEY :: string where
  "MERKLE_STATE_ROOT_META_KEY = ''merkle_state_root''"

record sparse_merkle_tree =
  leaves :: "(bytes32, bytes32) hash_map"
  root_hash :: "bytes32 option"
  dirty_merkle_nodes :: "(bytes, merkle_node_persist_op) hash_map"

definition smt_new :: "externals \<Rightarrow> sparse_merkle_tree" where
  "smt_new X = \<lparr>leaves = [], root_hash = Some (empty_hash X SMT_HEIGHT), dirty_merkle_nodes = []\<rparr>"

definition smt_default :: "externals \<Rightarrow> sparse_merkle_tree" where
  "smt_default X = smt_new X"

definition dirty_nodes :: "sparse_merkle_tree \<Rightarrow> (bytes, merkle_node_persist_op) hash_map" where
  "dirty_nodes t = dirty_merkle_nodes t"

definition smt_insert_all ::
  "(bytes32 \<times> bytes32) list \<Rightarrow> (bytes32, bytes32) hash_map \<Rightarrow> (bytes32, bytes32) hash_map" where
  "smt_insert_all entries m = fold (\<lambda>(key, val). hm_insert key val) entries m"

definition batch_insert ::
  "(bytes32 \<times> bytes32) list \<Rightarrow> sparse_merkle_tree \<Rightarrow> merkle_error + sparse_merkle_tree" where
  "batch_insert entries t =
     (case find (\<lambda>(key, _). hm_contains_key (leaves t) key) entries of
        Some (key, _) \<Rightarrow> Inl (KeyAlreadyExists key)
      | None \<Rightarrow>
          let t' = t\<lparr>leaves := smt_insert_all entries (leaves t)\<rparr>
          in Inr (if entries \<noteq> [] then t'\<lparr>root_hash := None\<rparr> else t'))"

definition batch_update ::
  "(bytes32 \<times> bytes32) list \<Rightarrow> sparse_merkle_tree \<Rightarrow> merkle_error + sparse_merkle_tree" where
  "batch_update entries t =
     (case find (\<lambda>(key, _). \<not> hm_contains_key (leaves t) key) entries of
        Some (key, _) \<Rightarrow> Inl (KeyNotFound key)
      | None \<Rightarrow>
          let t' = t\<lparr>leaves := smt_insert_all entries (leaves t)\<rparr>
          in Inr (if entries \<noteq> [] then t'\<lparr>root_hash := None\<rparr> else t'))"

definition batch_remove ::
  "bytes32 list \<Rightarrow> sparse_merkle_tree \<Rightarrow> merkle_error + sparse_merkle_tree" where
  "batch_remove keys t =
     (case find (\<lambda>key. \<not> hm_contains_key (leaves t) key) keys of
        Some key \<Rightarrow> Inl (KeyNotFound key)
      | None \<Rightarrow>
          let t' = t\<lparr>leaves := fold hm_remove keys (leaves t)\<rparr>
          in Inr (if keys \<noteq> [] then t'\<lparr>root_hash := None\<rparr> else t'))"

definition get_bit :: "bytes32 \<Rightarrow> nat \<Rightarrow> bool" where
  "get_bit key n \<longleftrightarrow> drop_bit (7 - n mod 8) (as_ref key ! (n div 8)) AND 1 = 1"

definition child_path :: "bytes32 \<Rightarrow> nat \<Rightarrow> bool \<Rightarrow> bytes32" where
  "child_path base depth go_right =
     (let arr = as_ref base;
          arr = fold (\<lambda>b arr. let bi = b div 8; bj = 7 - b mod 8
                              in arr[bi := (arr ! bi) AND NOT (push_bit bj 1)]) [depth..<256] arr;
          bi = depth div 8;
          bj = 7 - depth mod 8
      in bytes32_from (if go_right then arr[bi := (arr ! bi) OR push_bit bj 1] else arr))"

definition record_merkle_persist_op ::
  "externals \<Rightarrow> (bytes, merkle_node_persist_op) hash_map \<Rightarrow> nat \<Rightarrow> bytes32 \<Rightarrow> bytes32
    \<Rightarrow> (bytes, merkle_node_persist_op) hash_map" where
  "record_merkle_persist_op X dirty depth path hash =
     (if depth \<ge> SMT_HEIGHT then dirty
      else
        let key = merkle_node_key (of_nat depth) path;
            empty = empty_hash X (SMT_HEIGHT - depth)
        in if hash = empty then hm_insert key PersistDelete dirty
           else hm_insert key (PersistPut hash) dirty)"

text \<open>
  The recursion starts at depth 0 and stops at depth \<open>SMT_HEIGHT\<close>; a depth beyond it does not
  occur, and the model treats it like \<open>SMT_HEIGHT\<close>.
\<close>

function compute_subtree_hash_core ::
  "externals \<Rightarrow> (bytes32 \<times> bytes32) list \<Rightarrow> nat \<Rightarrow> bytes32
    \<Rightarrow> (bytes, merkle_node_persist_op) hash_map \<Rightarrow> bool
    \<Rightarrow> bytes32 \<times> (bytes, merkle_node_persist_op) hash_map" where
  "compute_subtree_hash_core X lvs depth path dirty_out record_dirty =
     (if lvs = [] then
        let h = empty_hash X (SMT_HEIGHT - depth)
        in (h, if record_dirty then record_merkle_persist_op X dirty_out depth path h else dirty_out)
      else if depth \<ge> SMT_HEIGHT then (snd (lvs ! 0), dirty_out)
      else
        let left = filter (\<lambda>(key, _). \<not> get_bit key depth) lvs;
            right = filter (\<lambda>(key, _). get_bit key depth) lvs;
            path_left = child_path path depth False;
            path_right = child_path path depth True;
            (left_hash, dirty_left) =
              compute_subtree_hash_core X left (depth + 1) path_left dirty_out record_dirty;
            (right_hash, dirty_right) =
              compute_subtree_hash_core X right (depth + 1) path_right dirty_left record_dirty;
            node_hash = merkle_node_hash X left_hash right_hash
        in (node_hash,
            if record_dirty then record_merkle_persist_op X dirty_right depth path node_hash
            else dirty_right))"
  by pat_completeness auto
termination
  by (relation "measure (\<lambda>(X, lvs, depth, path, dirty_out, record_dirty). SMT_HEIGHT - depth)") auto

declare compute_subtree_hash_core.simps [simp del]

definition smt_root :: "externals \<Rightarrow> sparse_merkle_tree \<Rightarrow> bytes32 \<times> sparse_merkle_tree" where
  "smt_root X t =
     (case root_hash t of
        Some cached \<Rightarrow> (cached, t)
      | None \<Rightarrow>
          let (root, dirty) = compute_subtree_hash_core X (leaves t) 0 0 [] True
          in (root, t\<lparr>dirty_merkle_nodes := dirty, root_hash := Some root\<rparr>))"

definition root_observed :: "externals \<Rightarrow> sparse_merkle_tree \<Rightarrow> bytes32" where
  "root_observed X t =
     (if leaves t = [] then empty_hash X SMT_HEIGHT
      else case root_hash t of
        Some cached \<Rightarrow> cached
      | None \<Rightarrow> fst (compute_subtree_hash_core X (leaves t) 0 0 [] False))"

definition is_dirty :: "sparse_merkle_tree \<Rightarrow> bool" where
  "is_dirty t \<longleftrightarrow> root_hash t = None \<and> leaves t \<noteq> []"

definition smt_len :: "sparse_merkle_tree \<Rightarrow> nat" where
  "smt_len t = length (leaves t)"

definition smt_is_empty :: "sparse_merkle_tree \<Rightarrow> bool" where
  "smt_is_empty t \<longleftrightarrow> leaves t = []"

definition smt_contains_key :: "sparse_merkle_tree \<Rightarrow> bytes32 \<Rightarrow> bool" where
  "smt_contains_key t key = hm_contains_key (leaves t) key"

definition smt_get :: "sparse_merkle_tree \<Rightarrow> bytes32 \<Rightarrow> bytes32 option" where
  "smt_get t key = map_of (leaves t) key"

definition clear_dirty :: "sparse_merkle_tree \<Rightarrow> sparse_merkle_tree" where
  "clear_dirty t = t\<lparr>dirty_merkle_nodes := []\<rparr>"

fun persist_op_to_write :: "bytes \<times> merkle_node_persist_op \<Rightarrow> write_batch \<Rightarrow> write_batch" where
  "persist_op_to_write (key, PersistPut h) batch = batch_put CF_MERKLE_NODES key (as_ref h) batch"
| "persist_op_to_write (key, PersistDelete) batch = batch_delete CF_MERKLE_NODES key batch"

definition flush_to_batch ::
  "externals \<Rightarrow> sparse_merkle_tree \<Rightarrow> write_batch \<Rightarrow> sparse_merkle_tree \<times> write_batch" where
  "flush_to_batch X t batch =
     (let (root, t1) = smt_root X t;
          batch1 = fold persist_op_to_write (dirty_merkle_nodes t1) batch;
          meta_key = metadata_key MERKLE_STATE_ROOT_META_KEY
      in (t1\<lparr>dirty_merkle_nodes := []\<rparr>, batch_put CF_METADATA meta_key (as_ref root) batch1))"

definition load_from_store ::
  "externals \<Rightarrow> 's storage_ops \<Rightarrow> 's \<Rightarrow> (bytes32, bytes32) hash_map
    \<Rightarrow> merkle_error + sparse_merkle_tree" where
  "load_from_store X B s lvs =
     (let meta_key = metadata_key MERKLE_STATE_ROOT_META_KEY
      in case kv_get B s CF_METADATA meta_key of
           Inl e \<Rightarrow> Inl (MerkleStorage (storage_error_to_string e))
         | Inr None \<Rightarrow> Inl PersistedRootMissing
         | Inr (Some disk_bytes) \<Rightarrow>
             if length disk_bytes \<noteq> 32 then Inl (InvalidPersistedRootLength (length disk_bytes))
             else
               let disk_root = bytes32_from disk_bytes;
                   tree = \<lparr>leaves = lvs, root_hash = None, dirty_merkle_nodes = []\<rparr>;
                   recomputed = root_observed X tree
               in if recomputed \<noteq> disk_root then Inl (PersistedRootMismatch disk_root recomputed)
                  else Inr (tree\<lparr>root_hash := Some disk_root\<rparr>))"

section \<open>Leaf values\<close>

text \<open>\<open>None\<close>: \<open>encode_coin_record\<close> failed and \<open>expect\<close> panics.\<close>

definition coin_record_hash :: "externals \<Rightarrow> coin_record \<Rightarrow> bytes32 option" where
  "coin_record_hash X r =
     (case kv_serialize_record X r of Inl e \<Rightarrow> None | Inr serialized \<Rightarrow> Some (sha256 X serialized))"

section \<open>Specification: the digest of a complete binary tree\<close>

text \<open>\<open>smt_digest X n f\<close> is the root of the tree of height \<open>n\<close> whose leaf at a bit path is \<open>f\<close>.\<close>

primrec smt_digest :: "externals \<Rightarrow> nat \<Rightarrow> (bool list \<Rightarrow> bytes32 option) \<Rightarrow> bytes32" where
  "smt_digest X 0 f =
     (case f [] of None \<Rightarrow> merkle_leaf_hash X EMPTY_LEAF_SENTINEL | Some v \<Rightarrow> v)"
| "smt_digest X (Suc n) f =
     merkle_node_hash X (smt_digest X n (\<lambda>bs. f (False # bs))) (smt_digest X n (\<lambda>bs. f (True # bs)))"

text \<open>The key at the end of a path of 256 bits, most significant bit first.\<close>

definition key_of_bits :: "bool list \<Rightarrow> bytes32" where
  "key_of_bits bs = horner_sum of_bool 2 (rev bs)"

definition merkle_root :: "externals \<Rightarrow> (bytes32 \<Rightarrow> bytes32 option) \<Rightarrow> bytes32" where
  "merkle_root X m = smt_digest X SMT_HEIGHT (\<lambda>bs. m (key_of_bits bs))"

section \<open>Bits and paths\<close>

lemma nth_as_ref: "j < 32 \<Longrightarrow> as_ref w ! j = ucast (drop_bit (8 * (31 - j)) w)"
  by (simp add: as_ref_def be_bytes_def rev_nth nth_le_bytes)

lemma bit_and_one_iff: "(w AND 1 = 1) \<longleftrightarrow> bit w 0" for w :: "'a::len word"
  by (simp add: and_one_eq bit_0 odd_iff_mod_2_eq_one)

lemma get_bit_iff: "n < 256 \<Longrightarrow> get_bit k n \<longleftrightarrow> bit k (255 - n)"
proof -
  assume n: "n < 256"
  define q r where "q = n div 8" and "r = n mod 8"
  then have "n = 8 * q + r" "r < 8" by simp_all
  moreover from this n have "q < 32" by linarith
  ultimately have "8 * (31 - q) + (7 - r) = 255 - n" "7 - r < 8" "q < 32" by linarith+
  then show ?thesis
    by (simp add: get_bit_def bit_and_one_iff nth_as_ref bit_drop_bit_eq bit_ucast_iff
        q_def [symmetric] r_def [symmetric])
qed

lemma get_bit_key_of_bits:
  assumes "length bs = 256" "n < 256"
  shows "get_bit (key_of_bits bs) n \<longleftrightarrow> bs ! n"
proof -
  have "255 - n < 256" by arith
  with assms show ?thesis
    by (simp add: get_bit_iff key_of_bits_def bit_horner_sum_bit_word_iff rev_nth)
qed

lemma key_eqI:
  assumes "\<And>n. n < 256 \<Longrightarrow> get_bit k n = get_bit k' n"
  shows "k = k'"
proof (rule bit_word_eqI)
  fix i
  assume "i < LENGTH(256)"
  then show "bit k i = bit k' i" using assms [of "255 - i"] by (simp add: get_bit_iff)
qed

text \<open>The bits of a key, and the keys under a prefix of bits.\<close>

definition key_bits :: "bytes32 \<Rightarrow> bool list" where
  "key_bits k = map (get_bit k) [0..<256]"

definition under :: "bool list \<Rightarrow> bytes32 \<Rightarrow> bool" where
  "under pre k \<longleftrightarrow> (\<forall>i < length pre. get_bit k i = pre ! i)"

lemma length_key_bits [simp]: "length (key_bits k) = 256"
  by (simp add: key_bits_def)

lemma key_of_key_bits [simp]: "key_of_bits (key_bits k) = k"
  by (rule key_eqI) (simp add: get_bit_key_of_bits, simp add: key_bits_def)

lemma key_bits_key_of_bits: "length bs = 256 \<Longrightarrow> key_bits (key_of_bits bs) = bs"
  by (rule nth_equalityI) (simp_all add: key_bits_def get_bit_key_of_bits)

lemma under_Nil [simp]: "under [] k"
  by (simp add: under_def)

lemma under_snoc: "under (pre @ [b]) k \<longleftrightarrow> under pre k \<and> get_bit k (length pre) = b"
  by (auto simp: under_def nth_append less_Suc_eq)

lemma under_full: "length pre = 256 \<Longrightarrow> under pre k \<longleftrightarrow> k = key_of_bits pre"
  by (auto simp: under_def get_bit_key_of_bits intro: key_eqI)

lemma under_key_of_bits: "length (pre @ bs) = 256 \<Longrightarrow> under pre (key_of_bits (pre @ bs))"
  by (auto simp: under_def get_bit_key_of_bits nth_append)

section \<open>Empty subtrees\<close>

lemma empty_hash_eq: "n \<le> SMT_HEIGHT \<Longrightarrow> empty_hash X n = smt_digest X n (\<lambda>_. None)"
proof -
  define step where "step = (\<lambda>i hashes. hashes[i := merkle_node_hash X (hashes ! (i - 1)) (hashes ! (i - 1))])"
  define hs where "hs = (\<lambda>k. fold step [1..<Suc k]
    ((replicate (SMT_HEIGHT + 1) 0)[0 := merkle_leaf_hash X EMPTY_LEAF_SENTINEL]))"
  have "length (hs k) = SMT_HEIGHT + 1 \<and> (\<forall>n \<le> k. hs k ! n = smt_digest X n (\<lambda>_. None))"
    if "k \<le> SMT_HEIGHT" for k
    using that
  proof (induction k)
    case 0
    then show ?case by (simp add: hs_def)
  next
    case (Suc k)
    have "hs (Suc k) = step (Suc k) (hs k)" by (simp add: hs_def)
    with Suc show ?case by (auto simp: step_def nth_list_update le_Suc_eq)
  qed
  moreover assume "n \<le> SMT_HEIGHT"
  ultimately show ?thesis by (simp add: empty_hash_def get_empty_hashes_def hs_def step_def)
qed

lemma empty_hash_asserted_eq:
  "empty_hash_asserted X n = (if n \<le> SMT_HEIGHT then Some (smt_digest X n (\<lambda>_. None)) else None)"
  by (simp add: empty_hash_asserted_def empty_hash_eq)

lemma smt_digest_cong:
  "(\<And>bs. length bs = n \<Longrightarrow> f bs = g bs) \<Longrightarrow> smt_digest X n f = smt_digest X n g"
proof (induction n arbitrary: f g)
  case 0
  then show ?case by simp
next
  case (Suc n)
  have "smt_digest X n (\<lambda>bs. f (b # bs)) = smt_digest X n (\<lambda>bs. g (b # bs))" for b
    by (rule Suc.IH) (simp add: Suc.prems)
  then show ?case by simp
qed

section \<open>The recursion computes the digest\<close>

lemma map_of_filter_key: "map_of (filter (\<lambda>(k, _). P k) xs) k = (if P k then map_of xs k else None)"
  by (induction xs) auto

text \<open>The digest of the subtree at the end of the path \<open>pre\<close>.\<close>

definition subtree_digest :: "externals \<Rightarrow> (bytes32 \<Rightarrow> bytes32 option) \<Rightarrow> bool list \<Rightarrow> bytes32" where
  "subtree_digest X m pre = smt_digest X (SMT_HEIGHT - length pre) (\<lambda>bs. m (key_of_bits (pre @ bs)))"

lemma subtree_digest_Nil: "subtree_digest X m [] = merkle_root X m"
  by (simp add: subtree_digest_def merkle_root_def)

lemma subtree_digest_snoc:
  "length pre < SMT_HEIGHT \<Longrightarrow> subtree_digest X m pre =
     merkle_node_hash X (subtree_digest X m (pre @ [False])) (subtree_digest X m (pre @ [True]))"
  by (simp add: subtree_digest_def Suc_diff_Suc [symmetric])

lemma subtree_digest_cong:
  assumes "length pre \<le> SMT_HEIGHT" "\<And>k. under pre k \<Longrightarrow> m k = m' k"
  shows "subtree_digest X m pre = subtree_digest X m' pre"
  unfolding subtree_digest_def
  by (rule smt_digest_cong) (use assms in \<open>simp add: under_key_of_bits SMT_HEIGHT_def\<close>)

lemma subtree_digest_empty:
  assumes "length pre \<le> SMT_HEIGHT" "\<And>k. under pre k \<Longrightarrow> m k = None"
  shows "subtree_digest X m pre = empty_hash X (SMT_HEIGHT - length pre)"
  using subtree_digest_cong [OF assms(1), of m "\<lambda>_. None"] assms(2)
  by (simp add: empty_hash_eq subtree_digest_def)

lemma compute_empty:
  "compute_subtree_hash_core X [] depth path dirty rec =
     (empty_hash X (SMT_HEIGHT - depth),
      if rec then record_merkle_persist_op X dirty depth path (empty_hash X (SMT_HEIGHT - depth)) else dirty)"
  by (simp add: compute_subtree_hash_core.simps Let_def)

lemma compute_leaf:
  "lvs \<noteq> [] \<Longrightarrow> compute_subtree_hash_core X lvs SMT_HEIGHT path dirty rec = (snd (hd lvs), dirty)"
  by (simp add: compute_subtree_hash_core.simps hd_conv_nth)

lemma compute_node:
  assumes "lvs \<noteq> []" "depth < SMT_HEIGHT"
    and "compute_subtree_hash_core X (filter (\<lambda>(key, _). get_bit key depth = False) lvs) (Suc depth)
           (child_path path depth False) dirty rec = (lh, dl)"
    and "compute_subtree_hash_core X (filter (\<lambda>(key, _). get_bit key depth = True) lvs) (Suc depth)
           (child_path path depth True) dl rec = (rh, dr)"
  shows "compute_subtree_hash_core X lvs depth path dirty rec =
     (merkle_node_hash X lh rh,
      if rec then record_merkle_persist_op X dr depth path (merkle_node_hash X lh rh) else dr)"
  using assms by (simp add: compute_subtree_hash_core.simps [of X lvs] Let_def)

text \<open>The three cases of the recursion, with the leaves on either side of a node.\<close>

lemma compute_cases [consumes 2, case_names empty leaf node]:
  assumes "length pre \<le> SMT_HEIGHT" "\<forall>(k, v) \<in> set lvs. under pre k"
  obtains
    "lvs = []"
  | v lvs' where "length pre = SMT_HEIGHT" "lvs = (key_of_bits pre, v) # lvs'"
  | "lvs \<noteq> []" "length pre < SMT_HEIGHT"
      "\<And>b. \<forall>(k, v) \<in> set (filter (\<lambda>(k, _). get_bit k (length pre) = b) lvs). under (pre @ [b]) k"
      "\<And>b X. subtree_digest X (map_of (filter (\<lambda>(k, _). get_bit k (length pre) = b) lvs)) (pre @ [b])
        = subtree_digest X (map_of lvs) (pre @ [b])"
proof -
  have side: "subtree_digest X (map_of (filter (\<lambda>(k, _). get_bit k (length pre) = b) lvs)) (pre @ [b])
      = subtree_digest X (map_of lvs) (pre @ [b])" if "length pre < SMT_HEIGHT" for b X
    using that by (intro subtree_digest_cong) (auto simp: map_of_filter_key under_snoc)
  have prefix: "\<forall>(k, v) \<in> set (filter (\<lambda>(k, _). get_bit k (length pre) = b) lvs). under (pre @ [b]) k" for b
    using assms(2) by (auto simp: under_snoc)
  consider "lvs = []" | "lvs \<noteq> []" "length pre = SMT_HEIGHT" | "lvs \<noteq> []" "length pre < SMT_HEIGHT"
    using assms(1) by linarith
  then show thesis
  proof cases
    case 2
    then obtain k v lvs' where "lvs = (k, v) # lvs'" by (cases lvs) auto
    with 2 that(2) assms(2) under_full [of pre k] show ?thesis by (auto simp: SMT_HEIGHT_def)
  next
    case 1
    then show ?thesis by (rule that(1))
  next
    case 3
    show ?thesis by (rule that(3) [OF 3 prefix side [OF 3(2)]])
  qed
qed

lemma compute_subtree_hash_digest:
  assumes "length pre \<le> SMT_HEIGHT" "\<forall>(k, v) \<in> set lvs. under pre k"
  shows "fst (compute_subtree_hash_core X lvs (length pre) path dirty rec) = subtree_digest X (map_of lvs) pre"
  using assms
proof (induction "SMT_HEIGHT - length pre" arbitrary: lvs path dirty pre rule: less_induct)
  case less
  from less.prems show ?case
  proof (cases rule: compute_cases)
    case empty
    with less.prems show ?thesis by (simp add: compute_empty subtree_digest_empty)
  next
    case (leaf v lvs')
    then show ?thesis by (simp add: compute_leaf subtree_digest_def)
  next
    case node
    let ?side = "\<lambda>b. filter (\<lambda>(k, _). get_bit k (length pre) = b) lvs"
    have IH: "fst (compute_subtree_hash_core X (?side b) (Suc (length pre)) path' dirty' rec)
        = subtree_digest X (map_of lvs) (pre @ [b])" for b path' dirty'
      using less.hyps [of "pre @ [b]" "?side b" path' dirty'] node(2-4) by simp
    obtain lh dl where l: "compute_subtree_hash_core X (?side False)
        (Suc (length pre)) (child_path path (length pre) False) dirty rec = (lh, dl)" by fastforce
    obtain rh dr where r: "compute_subtree_hash_core X (?side True)
        (Suc (length pre)) (child_path path (length pre) True) dl rec = (rh, dr)" by fastforce
    have "lh = subtree_digest X (map_of lvs) (pre @ [False])"
      using IH [of False] l by (metis fst_conv)
    moreover have "rh = subtree_digest X (map_of lvs) (pre @ [True])"
      using IH [of True] r by (metis fst_conv)
    ultimately show ?thesis
      using compute_node [OF node(1,2) l r] node(2) by (simp add: subtree_digest_snoc)
  qed
qed

section \<open>Node paths\<close>

text \<open>Bit \<open>n\<close> of a byte array, most significant bit first.\<close>

definition arr_bit :: "bytes \<Rightarrow> nat \<Rightarrow> bool" where
  "arr_bit arr n \<longleftrightarrow> bit (arr ! (n div 8)) (7 - n mod 8)"

lemma get_bit_arr: "get_bit k n = arr_bit (as_ref k) n"
  by (simp add: get_bit_def arr_bit_def bit_and_one_iff bit_drop_bit_eq)

lemma bit_position_eq: "n div 8 = b div 8 \<Longrightarrow> 7 - n mod 8 = 7 - b mod 8 \<longleftrightarrow> n = (b :: nat)"
proof -
  assume "n div 8 = b div 8"
  moreover have "n = 8 * (n div 8) + n mod 8" "b = 8 * (b div 8) + b mod 8" "n mod 8 < 8" "b mod 8 < 8"
    by simp_all
  ultimately show ?thesis by linarith
qed

lemma arr_bit_clear:
  assumes "length arr = 32" "n < 256" "b < 256"
  shows "arr_bit (arr[b div 8 := (arr ! (b div 8)) AND NOT (push_bit (7 - b mod 8) 1)]) n
    \<longleftrightarrow> n \<noteq> b \<and> arr_bit arr n"
proof -
  have "b div 8 < 32" "7 - n mod 8 < 8" using assms(3) by simp_all
  with assms bit_position_eq [of n b] show ?thesis
    by (cases "n div 8 = b div 8")
      (auto simp: arr_bit_def bit_and_iff bit_not_iff bit_exp_iff)
qed

lemma arr_bit_set:
  assumes "length arr = 32" "n < 256" "b < 256"
  shows "arr_bit (arr[b div 8 := (arr ! (b div 8)) OR push_bit (7 - b mod 8) 1]) n
    \<longleftrightarrow> n = b \<or> arr_bit arr n"
proof -
  have "b div 8 < 32" "7 - n mod 8 < 8" using assms(3) by simp_all
  with assms bit_position_eq [of n b] show ?thesis
    by (cases "n div 8 = b div 8")
      (auto simp: arr_bit_def bit_or_iff bit_exp_iff)
qed

definition clear_bits :: "nat list \<Rightarrow> bytes \<Rightarrow> bytes" where
  "clear_bits ns arr = fold (\<lambda>b arr. let bi = b div 8; bj = 7 - b mod 8
     in arr[bi := (arr ! bi) AND NOT (push_bit bj 1)]) ns arr"

lemma clear_bits:
  assumes "length arr = 32" "n < 256" "\<forall>b \<in> set ns. b < 256"
  shows "length (clear_bits ns arr) = 32 \<and> (arr_bit (clear_bits ns arr) n \<longleftrightarrow> n \<notin> set ns \<and> arr_bit arr n)"
  using assms
  by (induction ns arbitrary: arr) (auto simp: clear_bits_def Let_def arr_bit_clear [unfolded push_bit_of_1])

lemma get_bit_child_path:
  assumes "d < 256" "n < 256"
  shows "get_bit (child_path base d r) n = (if n < d then get_bit base n else n = d \<and> r)"
proof -
  let ?arr = "clear_bits [d..<256] (as_ref base)"
  have arr: "length ?arr = 32" "arr_bit ?arr m \<longleftrightarrow> m < d \<and> get_bit base m" if "m < 256" for m
    using clear_bits [of "as_ref base" m "[d..<256]"] that by (auto simp: get_bit_arr)
  let ?res = "if r then ?arr[d div 8 := (?arr ! (d div 8)) OR push_bit (7 - d mod 8) 1] else ?arr"
  have "child_path base d r = bytes32_from ?res"
    by (simp add: child_path_def clear_bits_def Let_def)
  then have "get_bit (child_path base d r) n = arr_bit ?res n"
    using arr(1) [OF assms(2)] by (simp add: get_bit_arr as_ref_bytes32_from)
  also have "\<dots> \<longleftrightarrow> (if n < d then get_bit base n else n = d \<and> r)"
    using arr [OF assms(2)] assms arr_bit_set [of ?arr n d] by auto
  finally show ?thesis .
qed

definition path_of :: "bool list \<Rightarrow> bytes32" where
  "path_of pre = key_of_bits (pre @ replicate (256 - length pre) False)"

lemma path_of_Nil: "path_of [] = 0"
proof (rule key_eqI)
  fix n :: nat
  assume n: "n < 256"
  then have "\<not> get_bit 0 n" by (simp add: get_bit_iff)
  with n show "get_bit (path_of []) n = get_bit 0 n" by (simp add: path_of_def get_bit_key_of_bits)
qed

lemma child_path_of: "length pre < 256 \<Longrightarrow> child_path (path_of pre) (length pre) b = path_of (pre @ [b])"
  by (rule key_eqI)
    (auto simp: get_bit_child_path path_of_def get_bit_key_of_bits nth_append nth_Cons')

section \<open>Node rows\<close>

definition node_key :: "bool list \<Rightarrow> bytes" where
  "node_key pre = merkle_node_key (of_nat (length pre)) (path_of pre)"

text \<open>The row that belongs to a node: none on disk when the subtree is empty.\<close>

definition node_row :: "externals \<Rightarrow> (bytes32 \<Rightarrow> bytes32 option) \<Rightarrow> bool list \<Rightarrow> merkle_node_persist_op" where
  "node_row X m pre =
     (if subtree_digest X m pre = empty_hash X (SMT_HEIGHT - length pre) then PersistDelete
      else PersistPut (subtree_digest X m pre))"

definition rows_ok ::
  "externals \<Rightarrow> (bytes32 \<Rightarrow> bytes32 option) \<Rightarrow> (bytes, merkle_node_persist_op) hash_map \<Rightarrow> bool" where
  "rows_ok X m dirty \<longleftrightarrow>
     (\<forall>key \<in> dom (map_of dirty). \<exists>pre. length pre < SMT_HEIGHT \<and> key = node_key pre)
     \<and> (\<forall>pre. length pre < SMT_HEIGHT \<longrightarrow> node_key pre \<in> dom (map_of dirty) \<longrightarrow>
          map_of dirty (node_key pre) = Some (node_row X m pre))"

lemma node_key_inject:
  assumes "length p < SMT_HEIGHT" "length q < SMT_HEIGHT" "node_key p = node_key q"
  shows "p = q"
proof -
  have "(of_nat (length p) :: byte) = of_nat (length q)" and path: "path_of p = path_of q"
    using assms(3) by (simp_all add: node_key_def)
  then have len: "length p = length q"
    using assms(1,2) by (simp add: SMT_HEIGHT_def word_of_nat_eq_iff take_bit_nat_eq_self)
  have "key_bits (path_of p) = key_bits (path_of q)" by (simp add: path)
  with assms len show ?thesis by (simp add: path_of_def key_bits_key_of_bits SMT_HEIGHT_def)
qed

lemma rows_ok_record:
  assumes "rows_ok X m dirty" "length pre \<le> SMT_HEIGHT"
  defines "dirty' \<equiv> record_merkle_persist_op X dirty (length pre) (path_of pre) (subtree_digest X m pre)"
  shows "rows_ok X m dirty'" "dom (map_of dirty) \<subseteq> dom (map_of dirty')"
    "length pre < SMT_HEIGHT \<Longrightarrow> node_key pre \<in> dom (map_of dirty')"
proof -
  have eq: "map_of dirty' = (if length pre < SMT_HEIGHT then (map_of dirty)(node_key pre \<mapsto> node_row X m pre)
      else map_of dirty)"
    by (simp add: dirty'_def record_merkle_persist_op_def node_key_def node_row_def Let_def)
  show "rows_ok X m dirty'" using assms(1) node_key_inject by (auto simp: rows_ok_def eq)
  show "dom (map_of dirty) \<subseteq> dom (map_of dirty')" by (auto simp: eq)
  show "node_key pre \<in> dom (map_of dirty')" if "length pre < SMT_HEIGHT" using that by (simp add: eq)
qed

lemma under_prefix: "prefix pre q \<Longrightarrow> under q k \<Longrightarrow> under pre k"
  by (auto simp: under_def prefix_def nth_append)

lemma compute_rows:
  assumes "length pre \<le> SMT_HEIGHT" "\<forall>(k, v) \<in> set lvs. under pre k"
    and "\<And>k. under pre k \<Longrightarrow> map_of lvs k = m k" "rows_ok X m dirty"
  defines "dirty' \<equiv> snd (compute_subtree_hash_core X lvs (length pre) (path_of pre) dirty True)"
  shows "rows_ok X m dirty' \<and> dom (map_of dirty) \<subseteq> dom (map_of dirty')
    \<and> (\<forall>q k. prefix pre q \<longrightarrow> length q < SMT_HEIGHT \<longrightarrow> under q k \<longrightarrow> k \<in> dom m \<longrightarrow>
         node_key q \<in> dom (map_of dirty'))"
  using assms(1-4) unfolding dirty'_def
proof (induction "SMT_HEIGHT - length pre" arbitrary: lvs dirty pre rule: less_induct)
  case less
  have digest: "subtree_digest X (map_of lvs) pre = subtree_digest X m pre"
    using less.prems(1,3) by (rule subtree_digest_cong)
  from less.prems(1,2) show ?case
  proof (cases rule: compute_cases)
    case empty
    have "subtree_digest X m pre = empty_hash X (SMT_HEIGHT - length pre)"
      using less.prems(1,3) empty by (intro subtree_digest_empty) auto
    with rows_ok_record [OF less.prems(4,1)] empty less.prems(3) under_prefix show ?thesis
      by (fastforce simp: compute_empty)
  next
    case (leaf v lvs')
    with less.prems(4) show ?thesis by (auto simp: compute_leaf dest: prefix_length_le)
  next
    case node
    let ?side = "\<lambda>b. filter (\<lambda>(k, _). get_bit k (length pre) = b) lvs"
    let ?rec = "\<lambda>b dirty. compute_subtree_hash_core X (?side b) (Suc (length pre)) (path_of (pre @ [b])) dirty True"
    have child: "child_path (path_of pre) (length pre) b = path_of (pre @ [b])" for b
      using node(2) by (intro child_path_of) (simp add: SMT_HEIGHT_def)
    have IH: "rows_ok X m (snd (?rec b d)) \<and> dom (map_of d) \<subseteq> dom (map_of (snd (?rec b d)))
        \<and> (\<forall>q k. prefix (pre @ [b]) q \<longrightarrow> length q < SMT_HEIGHT \<longrightarrow> under q k \<longrightarrow> k \<in> dom m \<longrightarrow>
             node_key q \<in> dom (map_of (snd (?rec b d))))" if "rows_ok X m d" for b d
      using less.hyps [of "pre @ [b]" "?side b" d] node(2,3) that less.prems(3)
      by (simp add: map_of_filter_key under_snoc)
    obtain lh dl where l: "?rec False dirty = (lh, dl)" by fastforce
    obtain rh dr where r: "?rec True dl = (rh, dr)" by fastforce
    have "fst (compute_subtree_hash_core X lvs (length pre) (path_of pre) dirty True) = subtree_digest X m pre"
      using compute_subtree_hash_digest [OF less.prems(1,2)] digest by simp
    then have dirty': "snd (compute_subtree_hash_core X lvs (length pre) (path_of pre) dirty True)
        = record_merkle_persist_op X dr (length pre) (path_of pre) (subtree_digest X m pre)"
      using compute_node [OF node(1,2) l [folded child] r [folded child]] by simp
    have L: "rows_ok X m dl" "dom (map_of dirty) \<subseteq> dom (map_of dl)"
      and R: "rows_ok X m dr" "dom (map_of dl) \<subseteq> dom (map_of dr)"
      using IH [OF less.prems(4), of False] l IH [of dl True] r by auto
    have sub: "node_key q \<in> dom (map_of dr)"
      if "prefix (pre @ [b]) q" "length q < SMT_HEIGHT" "under q k" "k \<in> dom m" for q k b
      using IH [OF less.prems(4), of False] IH [OF L(1), of True] l r R(2) that by (cases b) fastforce+
    have step: "q = pre \<or> (\<exists>b. prefix (pre @ [b]) q)" if "prefix pre q" for q
      using that by (auto simp: prefix_def) (metis append_Cons append_Nil neq_Nil_conv)
    show ?thesis
      unfolding dirty' using rows_ok_record [OF R(1) less.prems(1)] L R node(2) step sub by blast
  qed
qed

end
