(* ===== verification/Codec.thy ===== *)
theory Codec
  imports Errors Schema
begin

text \<open>
  The encodings of coin rows and snapshots: \<open>src/src/storage/kv_bincode.rs\<close> and the row codecs
  of \<open>src/src/coin_store.rs\<close>. Bincode is a third-party crate; what the store relies on is the
  predicate \<open>bincode_ok\<close> (the options of \<open>kv_bincode_options\<close> round-trip, and neither
  decoder accepts an input of the 97 bytes of a legacy row) and \<open>snapshot_codec_ok\<close>.
\<close>

section \<open>Bincode\<close>

definition encode_coin_record :: "externals \<Rightarrow> coin_record \<Rightarrow> string + bytes" where
  "encode_coin_record X rec = kv_serialize_record X rec"

definition decode_coin_record :: "externals \<Rightarrow> bytes \<Rightarrow> string + coin_record" where
  "decode_coin_record X bytes = kv_deserialize_record X bytes"

definition decode_coin_record_storage :: "externals \<Rightarrow> bytes \<Rightarrow> string + coin_record" where
  "decode_coin_record_storage X bytes =
     (case decode_coin_record X bytes of
        Inr rec \<Rightarrow> Inr rec | Inl _ \<Rightarrow> default_deserialize_record X bytes)"

definition encode_coin_store_snapshot :: "externals \<Rightarrow> coin_store_snapshot \<Rightarrow> string + bytes" where
  "encode_coin_store_snapshot X snap = kv_serialize_snapshot X snap"

definition decode_coin_store_snapshot :: "externals \<Rightarrow> bytes \<Rightarrow> string + coin_store_snapshot" where
  "decode_coin_store_snapshot X bytes = kv_deserialize_snapshot X bytes"

definition decode_coin_store_snapshot_storage :: "externals \<Rightarrow> bytes \<Rightarrow> string + coin_store_snapshot" where
  "decode_coin_store_snapshot_storage X bytes =
     (case decode_coin_store_snapshot X bytes of
        Inr snap \<Rightarrow> Inr snap | Inl _ \<Rightarrow> default_deserialize_snapshot X bytes)"

section \<open>Legacy rows\<close>

definition LEGACY_LEN :: nat where
  "LEGACY_LEN = 32 + 32 + 8 + 8 + 8 + 1 + 8"

definition serialize_legacy_coin_record :: "coin_record \<Rightarrow> bytes" where
  "serialize_legacy_coin_record rec =
     (let spent_raw = (case spent_height rec of None \<Rightarrow> 0 | Some h \<Rightarrow> h)
      in as_ref (parent_coin_info (cr_coin rec)) @ as_ref (coin_puzzle_hash (cr_coin rec))
         @ u64_to_le_bytes (amount (cr_coin rec)) @ u64_to_le_bytes (confirmed_height rec)
         @ u64_to_le_bytes spent_raw @ [if coinbase rec then 1 else 0]
         @ u64_to_le_bytes (cr_timestamp rec))"

definition decode_legacy_genesis_coin_record :: "bytes \<Rightarrow> coin_record option" where
  "decode_legacy_genesis_coin_record bytes =
     (if length bytes \<noteq> LEGACY_LEN then None
      else
        let parent = bytes32_from (slice 0 32 bytes);
            puzzle = bytes32_from (slice 32 64 bytes);
            amt = u64_from_le_bytes (slice 64 72 bytes);
            confirmed = u64_from_le_bytes (slice 72 80 bytes);
            spent_raw = u64_from_le_bytes (slice 80 88 bytes);
            cb = (bytes ! 88 \<noteq> 0);
            ts = u64_from_le_bytes (slice 89 97 bytes);
            c = \<lparr>parent_coin_info = parent, coin_puzzle_hash = puzzle, amount = amt\<rparr>;
            rec = coin_record_new c confirmed ts cb
        in Some (if spent_raw \<noteq> 0 then spend spent_raw rec else rec))"

section \<open>Rows of the store\<close>

definition serialize_coin_record_storage_bytes ::
  "externals \<Rightarrow> coin_record \<Rightarrow> coin_store_error + bytes" where
  "serialize_coin_record_storage_bytes X rec =
     (if ff_eligible rec then
        (case encode_coin_record X rec of Inl e \<Rightarrow> Inl (from_bincode_error e) | Inr b \<Rightarrow> Inr b)
      else Inr (serialize_legacy_coin_record rec))"

definition decode_coin_record_bytes :: "externals \<Rightarrow> bytes \<Rightarrow> coin_record option" where
  "decode_coin_record_bytes X bytes =
     (case decode_coin_record_storage X bytes of
        Inr rec \<Rightarrow> Some rec | Inl _ \<Rightarrow> decode_legacy_genesis_coin_record bytes)"

section \<open>Hypotheses on bincode\<close>

definition bincode_ok :: "externals \<Rightarrow> bool" where
  "bincode_ok X \<longleftrightarrow>
     (\<forall>rec. \<exists>b. kv_serialize_record X rec = Inr b \<and> kv_deserialize_record X b = Inr rec)
     \<and> (\<forall>b. length b = 97 \<longrightarrow> isl (kv_deserialize_record X b) \<and> isl (default_deserialize_record X b))"

text \<open>Snapshots that agree up to the iteration order of the hash map, which decoding may change.\<close>

definition same_snapshot :: "coin_store_snapshot \<Rightarrow> coin_store_snapshot \<Rightarrow> bool" where
  "same_snapshot snap snap' \<longleftrightarrow>
     hm_ok (sn_coins snap') \<and> map_of (sn_coins snap') = map_of (sn_coins snap)
     \<and> snap'\<lparr>sn_coins := sn_coins snap\<rparr> = snap"

definition snapshot_codec_ok :: "externals \<Rightarrow> bool" where
  "snapshot_codec_ok X \<longleftrightarrow>
     (\<forall>snap. hm_ok (sn_coins snap) \<longrightarrow> (\<exists>b snap'. kv_serialize_snapshot X snap = Inr b
        \<and> kv_deserialize_snapshot X b = Inr snap' \<and> same_snapshot snap snap'))"

section \<open>Round trips\<close>

lemma length_legacy [simp]: "length (serialize_legacy_coin_record rec) = 97"
  by (simp add: serialize_legacy_coin_record_def Let_def)

lemma slice_skip:
  "n = length xs \<Longrightarrow> n \<le> a \<Longrightarrow> slice a b (xs @ ys) = slice (a - n) (b - n) ys"
  by (simp add: slice_def)

lemma slice_Suc_Cons: "slice (Suc a) b (x # ys) = slice a (b - 1) ys"
  by (simp add: slice_def)

lemma coin_eta: "\<lparr>parent_coin_info = parent_coin_info c, coin_puzzle_hash = coin_puzzle_hash c, amount = amount c\<rparr> = c"
  by simp

lemma legacy_roundtrip:
  "decode_legacy_genesis_coin_record (serialize_legacy_coin_record rec) =
     Some (rec\<lparr>ff_eligible := False,
               spent_height := (if spent_height rec = Some 0 then None else spent_height rec)\<rparr>)"
proof -
  obtain c h sp cb ts ff where rec: "rec = \<lparr>cr_coin = c, confirmed_height = h, spent_height = sp,
      coinbase = cb, cr_timestamp = ts, ff_eligible = ff\<rparr>" by (cases rec) auto
  have "decode_legacy_genesis_coin_record (serialize_legacy_coin_record rec) =
      Some (if (case sp of None \<Rightarrow> 0 | Some h \<Rightarrow> h) \<noteq> 0
        then spend (case sp of None \<Rightarrow> 0 | Some h \<Rightarrow> h) (coin_record_new c h ts cb)
        else coin_record_new c h ts cb)"
    unfolding decode_legacy_genesis_coin_record_def length_legacy LEGACY_LEN_def
    by (simp add: rec serialize_legacy_coin_record_def Let_def slice_skip slice_Suc_Cons nth_append coin_eta)
  then show ?thesis by (cases sp) (auto simp: rec coin_record_new_def spend_def)
qed

text \<open>Rows that the legacy layout can represent, or that are written with bincode.\<close>

definition row_ok :: "coin_record \<Rightarrow> bool" where
  "row_ok rec \<longleftrightarrow> ff_eligible rec \<or> spent_height rec \<noteq> Some 0"

lemma row_roundtrip:
  assumes "bincode_ok X" "row_ok rec"
  obtains b where "serialize_coin_record_storage_bytes X rec = Inr b"
    "decode_coin_record_bytes X b = Some rec"
proof (cases "ff_eligible rec")
  case True
  obtain b where "kv_serialize_record X rec = Inr b" "kv_deserialize_record X b = Inr rec"
    using assms(1) unfolding bincode_ok_def by blast
  with True that show thesis
    by (simp add: serialize_coin_record_storage_bytes_def decode_coin_record_bytes_def
        decode_coin_record_storage_def decode_coin_record_def encode_coin_record_def)
next
  case False
  let ?b = "serialize_legacy_coin_record rec"
  obtain e e' where "kv_deserialize_record X ?b = Inl e" "default_deserialize_record X ?b = Inl e'"
    using assms(1) unfolding bincode_ok_def by (meson isl_def length_legacy)
  with False assms(2) that legacy_roundtrip [of rec] show thesis
    by (simp add: serialize_coin_record_storage_bytes_def decode_coin_record_bytes_def
        decode_coin_record_storage_def decode_coin_record_def row_ok_def)
qed

section \<open>A concrete codec\<close>

text \<open>Third-party functions that satisfy the hypotheses, for witnesses.\<close>

definition sample_enc_record :: "coin_record \<Rightarrow> bytes" where
  "sample_enc_record rec = serialize_legacy_coin_record rec
     @ [if spent_height rec = None then 0 else 1, if ff_eligible rec then 1 else 0]"

definition sample_dec_record :: "bytes \<Rightarrow> string + coin_record" where
  "sample_dec_record b =
     (if length b \<noteq> 99 then Inl ''unexpected length''
      else case decode_legacy_genesis_coin_record (take 97 b) of
          None \<Rightarrow> Inl ''bad row''
        | Some rec \<Rightarrow> Inr (rec\<lparr>ff_eligible := (b ! 98 \<noteq> 0),
            spent_height := (if b ! 97 = 0 then None
                             else Some (case spent_height rec of None \<Rightarrow> 0 | Some h \<Rightarrow> h))\<rparr>))"

fun enc_list :: "('a \<Rightarrow> bytes) \<Rightarrow> 'a list \<Rightarrow> bytes" where
  "enc_list e [] = [0]"
| "enc_list e (x # xs) = 1 # e x @ enc_list e xs"

fun dec_list :: "nat \<Rightarrow> (bytes \<Rightarrow> 'a) \<Rightarrow> bytes \<Rightarrow> 'a list \<times> bytes" where
  "dec_list sz d [] = ([], [])"
| "dec_list sz d (b # bs) =
     (if b = 0 then ([], bs)
      else let (xs, rest) = dec_list sz d (drop sz bs) in (d (take sz bs) # xs, rest))"

definition sample_enc_snapshot :: "coin_store_snapshot \<Rightarrow> bytes" where
  "sample_enc_snapshot s =
     u64_to_be_bytes (sn_height s) @ as_ref (sn_block_hash s) @ as_ref (sn_state_root s)
     @ u64_to_be_bytes (sn_timestamp s) @ u64_to_be_bytes (total_coins s)
     @ u64_to_be_bytes (total_value s)
     @ enc_list (\<lambda>(i, rec). as_ref i @ sample_enc_record rec) (sn_coins s)
     @ enc_list (\<lambda>(i, h). as_ref i @ as_ref h) (sn_hints s)"

definition sample_dec_snapshot :: "bytes \<Rightarrow> string + coin_store_snapshot" where
  "sample_dec_snapshot b =
     (let (coins, rest) = dec_list 131
            (\<lambda>e. (bytes32_from (take 32 e), projr (sample_dec_record (drop 32 e)))) (drop 96 b);
          (hints, _) = dec_list 64 (\<lambda>e. (bytes32_from (take 32 e), bytes32_from (drop 32 e))) rest
      in Inr \<lparr>sn_height = u64_from_be_bytes (slice 0 8 b), sn_block_hash = bytes32_from (slice 8 40 b),
           sn_state_root = bytes32_from (slice 40 72 b), sn_timestamp = u64_from_be_bytes (slice 72 80 b),
           sn_coins = coins, sn_hints = hints, total_coins = u64_from_be_bytes (slice 80 88 b),
           total_value = u64_from_be_bytes (slice 88 96 b)\<rparr>)"

definition sample_externals :: externals where
  "sample_externals =
     \<lparr>sha256 = bytes32_from,
      coin_id_of = (\<lambda>c. parent_coin_info c + coin_puzzle_hash c + ucast (amount c)),
      kv_serialize_record = (\<lambda>rec. Inr (sample_enc_record rec)),
      kv_deserialize_record = sample_dec_record,
      default_deserialize_record = (\<lambda>_. Inl ''unsupported''),
      kv_serialize_snapshot = (\<lambda>s. Inr (sample_enc_snapshot s)),
      kv_deserialize_snapshot = sample_dec_snapshot,
      default_deserialize_snapshot = (\<lambda>_. Inl ''unsupported''),
      display_bytes32 = (\<lambda>_. []), debug_bytes32 = (\<lambda>_. [])\<rparr>"

lemma sample_record_roundtrip: "sample_dec_record (sample_enc_record rec) = Inr rec"
proof -
  have "take 97 (sample_enc_record rec) = serialize_legacy_coin_record rec"
    by (simp add: sample_enc_record_def)
  moreover have "length (sample_enc_record rec) = 99" by (simp add: sample_enc_record_def)
  moreover have "sample_enc_record rec ! 97 = (if spent_height rec = None then 0 else 1)"
    "sample_enc_record rec ! 98 = (if ff_eligible rec then 1 else 0)"
    by (simp_all add: sample_enc_record_def nth_append)
  ultimately show ?thesis
    by (cases rec, cases "spent_height rec") (auto simp: sample_dec_record_def legacy_roundtrip)
qed

lemma dec_list_enc_list:
  assumes "\<And>x. length (e x) = sz \<and> d (e x) = x"
  shows "dec_list sz d (enc_list e xs @ rest) = (xs, rest)"
  using assms by (induction xs) auto

lemma bincode_ok_sample [simp]: "bincode_ok sample_externals"
proof -
  have "isl (sample_dec_record b)" if "length b = 97" for b
    using that by (simp add: sample_dec_record_def)
  then show ?thesis by (simp add: bincode_ok_def sample_externals_def sample_record_roundtrip)
qed

lemma snapshot_codec_ok_sample [simp]: "snapshot_codec_ok sample_externals"
proof -
  have "sample_dec_snapshot (sample_enc_snapshot s) = Inr s" for s
  proof -
    have "drop 96 (sample_enc_snapshot s) = enc_list (\<lambda>(i, rec). as_ref i @ sample_enc_record rec) (sn_coins s)
        @ enc_list (\<lambda>(i, h). as_ref i @ as_ref h) (sn_hints s)"
      by (simp add: sample_enc_snapshot_def)
    moreover have "length (sample_enc_record rec) = 99" for rec by (simp add: sample_enc_record_def)
    ultimately have "dec_list 131 (\<lambda>e. (bytes32_from (take 32 e), projr (sample_dec_record (drop 32 e))))
          (drop 96 (sample_enc_snapshot s)) =
        (sn_coins s, enc_list (\<lambda>(i, h). as_ref i @ as_ref h) (sn_hints s) @ [])"
      by (simp only: append_Nil2)
        (intro dec_list_enc_list, auto simp: sample_record_roundtrip split: prod.splits)
    moreover have "dec_list 64 (\<lambda>e. (bytes32_from (take 32 e), bytes32_from (drop 32 e)))
        (enc_list (\<lambda>(i, h). as_ref i @ as_ref h) (sn_hints s) @ []) = (sn_hints s, [])"
      by (intro dec_list_enc_list) (auto split: prod.splits)
    ultimately show ?thesis
      by (simp add: sample_dec_snapshot_def) (simp add: sample_enc_snapshot_def slice_skip)
  qed
  then show ?thesis by (simp add: snapshot_codec_ok_def sample_externals_def same_snapshot_def)
qed

section \<open>Property\<close>

text \<open>
  Every coin record the store writes reads back: a fast-forward row through bincode exactly,
  a plain row through the 97-byte layout with all its fields, except that a spend at height 0,
  which the layout cannot express, reads back as unspent.
\<close>

theorem coin_row_roundtrip:
  assumes "bincode_ok X"
  shows "\<exists>b. serialize_coin_record_storage_bytes X rec = Inr b
    \<and> decode_coin_record_bytes X b =
        Some (if \<not> ff_eligible rec \<and> spent_height rec = Some 0 then rec\<lparr>spent_height := None\<rparr> else rec)
    \<and> (ff_eligible rec \<or> length b = 97)"
proof (cases "row_ok rec")
  case True
  then obtain b where "serialize_coin_record_storage_bytes X rec = Inr b"
      "decode_coin_record_bytes X b = Some rec" using row_roundtrip [OF assms] by blast
  moreover from this have "ff_eligible rec \<or> length b = 97"
    by (cases "ff_eligible rec") (auto simp: serialize_coin_record_storage_bytes_def)
  ultimately show ?thesis using True by (auto simp: row_ok_def)
next
  case False
  let ?rec = "rec\<lparr>spent_height := None\<rparr>"
  have "serialize_legacy_coin_record ?rec = serialize_legacy_coin_record rec"
    using False by (simp add: serialize_legacy_coin_record_def row_ok_def Let_def)
  with False row_roundtrip [OF assms, of ?rec] show ?thesis
    by (auto simp: row_ok_def serialize_coin_record_storage_bytes_def)
qed

theorem coin_row_roundtrip_witness:
  "\<exists>b. serialize_coin_record_storage_bytes sample_externals
        (coin_record_new \<lparr>parent_coin_info = 1, coin_puzzle_hash = 2, amount = 3\<rparr> 4 5 True) = Inr b
    \<and> decode_coin_record_bytes sample_externals b
        = Some (coin_record_new \<lparr>parent_coin_info = 1, coin_puzzle_hash = 2, amount = 3\<rparr> 4 5 True)"
  using coin_row_roundtrip [OF bincode_ok_sample,
      of "coin_record_new \<lparr>parent_coin_info = 1, coin_puzzle_hash = 2, amount = 3\<rparr> 4 5 True"]
  by auto

end
