(* ===== verification/Ordered_Table.thy ===== *)
theory Ordered_Table
  imports Storage
begin

text \<open>
  Ordered tables, the reference model of what an embedded engine keeps per named database: an
  association list sorted by key. It supplies the concrete engines on which the interfaces of
  \<open>Rocksdb\<close> and \<open>Lmdb\<close> are interpreted.
\<close>

type_synonym ordered_table = "kv_pair list"

fun ot_put :: "bytes \<Rightarrow> bytes \<Rightarrow> ordered_table \<Rightarrow> ordered_table" where
  "ot_put k v [] = [(k, v)]"
| "ot_put k v ((k', v') # t) =
     (if k < k' then (k, v) # (k', v') # t
      else if k = k' then (k, v) # t
      else (k', v') # ot_put k v t)"

definition ot_delete :: "bytes \<Rightarrow> ordered_table \<Rightarrow> ordered_table" where
  "ot_delete k t = filter (\<lambda>e. fst e \<noteq> k) t"

definition ot_seek :: "bytes \<Rightarrow> ordered_table \<Rightarrow> ordered_table" where
  "ot_seek p t = filter (\<lambda>e. p \<le> fst e) t"

definition ot_prefix :: "bytes \<Rightarrow> ordered_table \<Rightarrow> ordered_table" where
  "ot_prefix p t = filter (\<lambda>e. prefix p (fst e)) t"

definition ot_ok :: "ordered_table \<Rightarrow> bool" where
  "ot_ok t \<longleftrightarrow> sorted_wrt (<) (map fst t)"

lemma ot_ok_Nil [simp]: "ot_ok []"
  by (simp add: ot_ok_def)

lemma ot_ok_strict: "ot_ok t \<Longrightarrow> sorted (map fst t) \<and> distinct (map fst t)"
  by (simp add: ot_ok_def strict_sorted_iff)

lemma ot_put_keys: "fst ` set (ot_put k v t) = insert k (fst ` set t)"
  by (induction k v t rule: ot_put.induct) auto

lemma ot_ok_put: "ot_ok t \<Longrightarrow> ot_ok (ot_put k v t)"
proof (induction k v t rule: ot_put.induct)
  case (1 k v)
  then show ?case by (simp add: ot_ok_def)
next
  case (2 k v k' v' t)
  then have "ot_ok t" "\<forall>x \<in> fst ` set t. k' < x" by (auto simp: ot_ok_def)
  with 2 show ?case by (auto simp: ot_ok_def ot_put_keys dest: less_trans)
qed

lemma map_of_ot_put: "ot_ok t \<Longrightarrow> map_of (ot_put k v t) = (map_of t)(k \<mapsto> v)"
  by (induction k v t rule: ot_put.induct) (auto simp: ot_ok_def fun_eq_iff)

lemma ot_ok_filter: "ot_ok t \<Longrightarrow> ot_ok (filter P t)"
  unfolding ot_ok_def sorted_wrt_map by (rule sorted_wrt_filter)

lemma map_of_ot_delete: "map_of (ot_delete k t) = (map_of t)(k := None)"
  unfolding ot_delete_def by (induction t) auto

lemma set_ordered_table: "ot_ok t \<Longrightarrow> (k, v) \<in> set t \<longleftrightarrow> map_of t k = Some v"
  by (simp add: ot_ok_strict)

lemma ot_prefix_scan: "ot_ok t \<Longrightarrow> ot_prefix p t = scan_entries (map_of t) p"
  by (intro scan_entries_eqI)
    (auto simp: ot_prefix_def set_ordered_table ot_ok_strict [OF ot_ok_filter])

lemma ot_all_scan: "ot_ok t \<Longrightarrow> t = scan_entries (map_of t) []"
  using ot_prefix_scan [of t "[]"] by (simp add: ot_prefix_def)

end
