(* ===== verification/Config.thy ===== *)
theory Config
  imports Prelude
begin

text \<open>
  \<open>src/src/config.rs\<close>: the tunables of a store, their defaults and the builder methods. The
  Cargo features are arguments of the definitions that the source compiles conditionally.
\<close>

definition DEFAULT_MAX_SNAPSHOTS :: nat where "DEFAULT_MAX_SNAPSHOTS = 10"
definition DEFAULT_MAX_QUERY_RESULTS :: nat where "DEFAULT_MAX_QUERY_RESULTS = 50000"
definition DEFAULT_LMDB_MAP_SIZE :: nat where "DEFAULT_LMDB_MAP_SIZE = 10 * 1024 * 1024 * 1024"
definition DEFAULT_ROCKSDB_WRITE_BUFFER_SIZE :: nat where
  "DEFAULT_ROCKSDB_WRITE_BUFFER_SIZE = 64 * 1024 * 1024"
definition DEFAULT_ROCKSDB_MAX_OPEN_FILES :: "32 word" where "DEFAULT_ROCKSDB_MAX_OPEN_FILES = 1000"
definition BLOOM_FILTER_BITS_PER_KEY :: "32 word" where "BLOOM_FILTER_BITS_PER_KEY = 10"
definition DEFAULT_BLOOM_FILTER_ENABLED :: bool where "DEFAULT_BLOOM_FILTER_ENABLED = True"

datatype storage_engine = Lmdb | RocksDb

text \<open>The first argument is the feature \<open>lmdb-storage\<close>, the second \<open>rocksdb-storage\<close>.\<close>

definition default_storage_backend_for_features :: "bool \<Rightarrow> bool \<Rightarrow> storage_engine" where
  "default_storage_backend_for_features lmdb rocks =
     (if lmdb then (if rocks then Lmdb else Lmdb) else RocksDb)"

record coin_store_config =
  cfg_backend :: storage_engine
  storage_path :: string
  max_snapshots :: nat
  max_query_results :: nat
  lmdb_map_size :: nat
  rocksdb_write_buffer_size :: nat
  rocksdb_max_open_files :: "32 word"
  bloom_filter :: bool

definition config_default :: "bool \<Rightarrow> bool \<Rightarrow> coin_store_config" where
  "config_default lmdb rocks =
     \<lparr>cfg_backend = default_storage_backend_for_features lmdb rocks,
      storage_path = ''./coinstate'',
      max_snapshots = DEFAULT_MAX_SNAPSHOTS,
      max_query_results = DEFAULT_MAX_QUERY_RESULTS,
      lmdb_map_size = DEFAULT_LMDB_MAP_SIZE,
      rocksdb_write_buffer_size = DEFAULT_ROCKSDB_WRITE_BUFFER_SIZE,
      rocksdb_max_open_files = DEFAULT_ROCKSDB_MAX_OPEN_FILES,
      bloom_filter = DEFAULT_BLOOM_FILTER_ENABLED\<rparr>"

definition default_with_path :: "bool \<Rightarrow> bool \<Rightarrow> string \<Rightarrow> coin_store_config" where
  "default_with_path lmdb rocks path = (config_default lmdb rocks)\<lparr>storage_path := path\<rparr>"

definition with_backend :: "coin_store_config \<Rightarrow> storage_engine \<Rightarrow> coin_store_config" where
  "with_backend c b = c\<lparr>cfg_backend := b\<rparr>"

definition with_storage_path :: "coin_store_config \<Rightarrow> string \<Rightarrow> coin_store_config" where
  "with_storage_path c p = c\<lparr>storage_path := p\<rparr>"

definition with_max_snapshots :: "coin_store_config \<Rightarrow> nat \<Rightarrow> coin_store_config" where
  "with_max_snapshots c n = c\<lparr>max_snapshots := n\<rparr>"

definition with_max_query_results :: "coin_store_config \<Rightarrow> nat \<Rightarrow> coin_store_config" where
  "with_max_query_results c n = c\<lparr>max_query_results := n\<rparr>"

definition with_lmdb_map_size :: "coin_store_config \<Rightarrow> nat \<Rightarrow> coin_store_config" where
  "with_lmdb_map_size c n = c\<lparr>lmdb_map_size := n\<rparr>"

definition with_rocksdb_write_buffer_size :: "coin_store_config \<Rightarrow> nat \<Rightarrow> coin_store_config" where
  "with_rocksdb_write_buffer_size c n = c\<lparr>rocksdb_write_buffer_size := n\<rparr>"

definition with_rocksdb_max_open_files :: "coin_store_config \<Rightarrow> 32 word \<Rightarrow> coin_store_config" where
  "with_rocksdb_max_open_files c n = c\<lparr>rocksdb_max_open_files := n\<rparr>"

definition with_bloom_filter :: "coin_store_config \<Rightarrow> bool \<Rightarrow> coin_store_config" where
  "with_bloom_filter c b = c\<lparr>bloom_filter := b\<rparr>"

lemma default_with_path_eq_builder:
  "default_with_path lmdb rocks p = with_storage_path (config_default lmdb rocks) p"
  by (simp add: default_with_path_def with_storage_path_def)

end
