(* ===== verification/Rocksdb.thy ===== *)
theory Rocksdb
  imports Complex_Main Ordered_Table Config
begin

text \<open>
  \<open>src/src/storage/rocksdb.rs\<close>: the RocksDB backend. The engine is not part of the repository:
  it is the record \<open>rocks_db\<close> of the calls the backend makes, and the locale \<open>rocks_engine\<close>
  states the documented behaviour the backend relies on. Inside it the backend is shown to
  satisfy \<^const>\<open>storage_backend\<close>; an in-memory engine of ordered tables interprets it. The
  option tables that the backend passes to \<open>open\<close> are modelled as data.
  The option tables put \<open>state_snapshots\<close> and the archive under FIFO compaction with a cap of 1 GiB, beyond
  which RocksDB deletes the oldest files. The contract has no such eviction: it is that of an engine whose
  FIFO families stay below the cap.
\<close>

section \<open>Options\<close>

datatype bloom_profile = Full | Prefix32 | NoBloom

record sto004_bloom_plan =
  sst_bloom_bits_per_key :: "32 word option"
  sst_bloom_uses_block_based_builder :: bool
  pin_l0_filter_and_index_in_cache :: bool
  memtable_prefix_bloom_ratio :: "rat option"

text \<open>A floating point literal of the source is kept as its decimal value.\<close>

definition STO004_MEMTABLE_PREFIX_BLOOM_RATIO :: rat where
  "STO004_MEMTABLE_PREFIX_BLOOM_RATIO = 1 / 10"

definition cf_bloom_profile :: "string \<Rightarrow> bloom_profile" where
  "cf_bloom_profile cf =
     (if cf \<in> {CF_COIN_BY_PUZZLE_HASH, CF_UNSPENT_BY_PUZZLE_HASH, CF_HINTS_BY_VALUE} then Prefix32
      else if cf \<in> {CF_COIN_BY_CONFIRMED_HEIGHT, CF_COIN_BY_SPENT_HEIGHT, CF_STATE_SNAPSHOTS}
      then NoBloom
      else Full)"

definition sto004_bloom_plan_for_column_family ::
  "string \<Rightarrow> coin_store_config \<Rightarrow> sto004_bloom_plan" where
  "sto004_bloom_plan_for_column_family cf config =
     (let none = \<lparr>sst_bloom_bits_per_key = None, sst_bloom_uses_block_based_builder = False,
                  pin_l0_filter_and_index_in_cache = False, memtable_prefix_bloom_ratio = None\<rparr>
      in if \<not> bloom_filter config then none
         else (case cf_bloom_profile cf of
             NoBloom \<Rightarrow> none
           | Full \<Rightarrow>
               \<lparr>sst_bloom_bits_per_key = Some BLOOM_FILTER_BITS_PER_KEY,
                sst_bloom_uses_block_based_builder = False,
                pin_l0_filter_and_index_in_cache = True, memtable_prefix_bloom_ratio = None\<rparr>
           | Prefix32 \<Rightarrow>
               \<lparr>sst_bloom_bits_per_key = Some BLOOM_FILTER_BITS_PER_KEY,
                sst_bloom_uses_block_based_builder = False,
                pin_l0_filter_and_index_in_cache = True,
                memtable_prefix_bloom_ratio = Some STO004_MEMTABLE_PREFIX_BLOOM_RATIO\<rparr>))"

definition cf_uses_fixed_prefix_32 :: "string \<Rightarrow> bool" where
  "cf_uses_fixed_prefix_32 cf \<longleftrightarrow>
     cf \<in> {CF_COIN_BY_PUZZLE_HASH, CF_UNSPENT_BY_PUZZLE_HASH, CF_HINTS_BY_VALUE}"

definition STO006_FIFO_MAX_TABLE_FILES_SIZE :: u64 where
  "STO006_FIFO_MAX_TABLE_FILES_SIZE = 1024 * 1024 * 1024"

datatype sto006_compaction_style = Level | Fifo

record sto006_level_compaction_params =
  max_bytes_for_level_base :: u64
  max_bytes_for_level_multiplier :: rat
  level0_file_num_compaction_trigger :: "32 word"
  level0_slowdown_writes_trigger :: "32 word"
  level0_stop_writes_trigger :: "32 word"
  target_file_size_base :: u64
  num_levels :: "32 word"

definition NORMATIVE :: sto006_level_compaction_params where
  "NORMATIVE =
     \<lparr>max_bytes_for_level_base = 256 * 1024 * 1024, max_bytes_for_level_multiplier = 10,
      level0_file_num_compaction_trigger = 4, level0_slowdown_writes_trigger = 20,
      level0_stop_writes_trigger = 36, target_file_size_base = 64 * 1024 * 1024,
      num_levels = 7\<rparr>"

definition sto006_compaction_style_for_cf :: "string \<Rightarrow> sto006_compaction_style" where
  "sto006_compaction_style_for_cf cf =
     (if cf \<in> {CF_ARCHIVE_COIN_RECORDS, CF_STATE_SNAPSHOTS} then Fifo else Level)"

text \<open>\<open>None\<close>: the name is not a column family and the source panics.\<close>

fun position :: "'a \<Rightarrow> 'a list \<Rightarrow> nat option" where
  "position x [] = None"
| "position x (y # ys) = (if y = x then Some 0 else map_option Suc (position x ys))"

definition sto006_max_write_buffer_number_for_cf :: "string \<Rightarrow> 32 word option" where
  "sto006_max_write_buffer_number_for_cf cf =
     map_option (\<lambda>idx. STO006_ROCKS_MAX_WRITE_BUFFER_NUMBER ! idx) (position cf ALL_COLUMN_FAMILIES)"

text \<open>The settings of an \<open>Options\<close> object for one column family; \<open>None\<close> keeps a default.\<close>

record cf_options =
  o_write_buffer_size :: "nat option"
  o_max_write_buffer_number :: "32 word option"
  o_fixed_prefix :: "nat option"
  o_memtable_prefix_bloom_ratio :: "rat option"
  o_bloom_filter :: "(32 word \<times> bool) option"
  o_pin_l0 :: bool
  o_compaction_style :: "sto006_compaction_style option"
  o_level_params :: "sto006_level_compaction_params option"
  o_fifo_max_table_files_size :: "u64 option"

definition cf_options_default :: cf_options where
  "cf_options_default =
     \<lparr>o_write_buffer_size = None, o_max_write_buffer_number = None, o_fixed_prefix = None,
      o_memtable_prefix_bloom_ratio = None, o_bloom_filter = None, o_pin_l0 = False,
      o_compaction_style = None, o_level_params = None, o_fifo_max_table_files_size = None\<rparr>"

definition sto006_apply_level_compaction_options :: "cf_options \<Rightarrow> cf_options" where
  "sto006_apply_level_compaction_options o' =
     o'\<lparr>o_compaction_style := Some Level, o_level_params := Some NORMATIVE\<rparr>"

definition sto006_apply_fifo_compaction_options :: "cf_options \<Rightarrow> cf_options" where
  "sto006_apply_fifo_compaction_options o' =
     o'\<lparr>o_fifo_max_table_files_size := Some STO006_FIFO_MAX_TABLE_FILES_SIZE,
        o_compaction_style := Some Fifo\<rparr>"

type_synonym cf_descriptor = "string \<times> cf_options"

definition column_family_descriptor :: "string \<Rightarrow> coin_store_config \<Rightarrow> cf_descriptor option" where
  "column_family_descriptor cf config =
     (case position cf ALL_COLUMN_FAMILIES of
        None \<Rightarrow> None
      | Some idx \<Rightarrow>
          let o1 = cf_options_default
                \<lparr>o_write_buffer_size := Some (STO002_ROCKS_WRITE_BUFFER_BYTES ! idx),
                 o_max_write_buffer_number := Some (STO006_ROCKS_MAX_WRITE_BUFFER_NUMBER ! idx)\<rparr>;
              o2 = (if cf_uses_fixed_prefix_32 cf then o1\<lparr>o_fixed_prefix := Some 32\<rparr> else o1);
              plan = sto004_bloom_plan_for_column_family cf config;
              o3 = (case memtable_prefix_bloom_ratio plan of
                      Some ratio \<Rightarrow> o2\<lparr>o_memtable_prefix_bloom_ratio := Some ratio\<rparr>
                    | None \<Rightarrow> o2);
              o4 = (case sst_bloom_bits_per_key plan of
                      Some bits \<Rightarrow>
                        o3\<lparr>o_bloom_filter := Some (bits, sst_bloom_uses_block_based_builder plan)\<rparr>
                    | None \<Rightarrow> o3);
              o5 = (if pin_l0_filter_and_index_in_cache plan then o4\<lparr>o_pin_l0 := True\<rparr> else o4)
          in Some (cf, case sto006_compaction_style_for_cf cf of
                         Fifo \<Rightarrow> sto006_apply_fifo_compaction_options o5
                       | Level \<Rightarrow> sto006_apply_level_compaction_options o5))"

record db_options =
  create_if_missing :: bool
  create_missing_column_families :: bool
  db_write_buffer_size :: nat
  max_open_files :: int
  keep_log_file_num :: nat
  parallelism :: nat
  bytes_per_sync :: nat
  wal_bytes_per_sync :: nat
  max_total_wal_size :: nat
  statistics_enabled :: bool

definition db_options_for_open :: "coin_store_config \<Rightarrow> db_options" where
  "db_options_for_open config =
     \<lparr>create_if_missing = True, create_missing_column_families = True,
      db_write_buffer_size = rocksdb_write_buffer_size config, max_open_files = -1,
      keep_log_file_num = 10, parallelism = 4, bytes_per_sync = 2 ^ 20,
      wal_bytes_per_sync = 2 ^ 20, max_total_wal_size = 256 * 1024 * 1024,
      statistics_enabled = True\<rparr>"

section \<open>The engine\<close>

datatype rocks_op = RPut nat bytes bytes | RDelete nat bytes

record 'd rocks_db =
  rdb_open_cf_descriptors :: "db_options \<Rightarrow> string \<Rightarrow> cf_descriptor list \<Rightarrow> string + 'd"
  rdb_list_cf :: "db_options \<Rightarrow> string \<Rightarrow> string + string list"
  rdb_cf_handle :: "'d \<Rightarrow> string \<Rightarrow> nat option"
  rdb_get_cf :: "'d \<Rightarrow> nat \<Rightarrow> bytes \<Rightarrow> string + bytes option"
  rdb_put_cf :: "'d \<Rightarrow> nat \<Rightarrow> bytes \<Rightarrow> bytes \<Rightarrow> string + 'd"
  rdb_delete_cf :: "'d \<Rightarrow> nat \<Rightarrow> bytes \<Rightarrow> string + 'd"
  rdb_write_opt :: "'d \<Rightarrow> rocks_op list \<Rightarrow> bool \<Rightarrow> string + 'd"
  rdb_iterator_from :: "'d \<Rightarrow> nat \<Rightarrow> bytes \<Rightarrow> (string + kv_pair) list"
  rdb_flush :: "'d \<Rightarrow> string + 'd"
  rdb_compact_range_cf :: "'d \<Rightarrow> nat \<Rightarrow> 'd"

section \<open>The backend\<close>

text \<open>\<open>map_err\<close> with a formatted message.\<close>

definition map_backend_err :: "string \<Rightarrow> string + 'a \<Rightarrow> storage_error + 'a" where
  "map_backend_err ctx r = (case r of Inl e \<Rightarrow> Inl (BackendError (ctx @ e)) | Inr x \<Rightarrow> Inr x)"

text \<open>The flag of \<open>WriteOptions::set_sync\<close>.\<close>

definition sto005_batch_write_options :: bool where
  "sto005_batch_write_options = True"

definition rocks_open :: "'d rocks_db \<Rightarrow> coin_store_config \<Rightarrow> (storage_error + 'd) option" where
  "rocks_open G config =
     (case those (map (\<lambda>name. column_family_descriptor name config) ALL_COLUMN_FAMILIES) of
        None \<Rightarrow> None
      | Some ds \<Rightarrow>
          Some (map_backend_err ''Failed to open RocksDB: ''
            (rdb_open_cf_descriptors G (db_options_for_open config) (storage_path config) ds)))"

definition list_column_families :: "'d rocks_db \<Rightarrow> coin_store_config \<Rightarrow> storage_error + string list" where
  "list_column_families G config =
     map_backend_err ''Failed to list RocksDB column families: ''
       (rdb_list_cf G (db_options_for_open config) (storage_path config))"

definition rocks_cf_handle :: "'d rocks_db \<Rightarrow> 'd \<Rightarrow> string \<Rightarrow> storage_error + nat" where
  "rocks_cf_handle G d cf =
     (case rdb_cf_handle G d cf of None \<Rightarrow> Inl (UnknownColumnFamily cf) | Some h \<Rightarrow> Inr h)"

definition rocks_get :: "'d rocks_db \<Rightarrow> 'd \<Rightarrow> string \<Rightarrow> bytes \<Rightarrow> storage_error + bytes option" where
  "rocks_get G d cf key =
     (case rocks_cf_handle G d cf of
        Inl e \<Rightarrow> Inl e
      | Inr h \<Rightarrow> map_backend_err ''RocksDB get error: '' (rdb_get_cf G d h key))"

definition rocks_put :: "'d rocks_db \<Rightarrow> 'd \<Rightarrow> string \<Rightarrow> bytes \<Rightarrow> bytes \<Rightarrow> storage_error + 'd" where
  "rocks_put G d cf key val =
     (case rocks_cf_handle G d cf of
        Inl e \<Rightarrow> Inl e
      | Inr h \<Rightarrow> map_backend_err ''RocksDB put error: '' (rdb_put_cf G d h key val))"

definition rocks_delete :: "'d rocks_db \<Rightarrow> 'd \<Rightarrow> string \<Rightarrow> bytes \<Rightarrow> storage_error + 'd" where
  "rocks_delete G d cf key =
     (case rocks_cf_handle G d cf of
        Inl e \<Rightarrow> Inl e
      | Inr h \<Rightarrow> map_backend_err ''RocksDB delete error: '' (rdb_delete_cf G d h key))"

fun rocks_native_batch ::
  "'d rocks_db \<Rightarrow> 'd \<Rightarrow> write_op list \<Rightarrow> rocks_op list \<Rightarrow> storage_error + rocks_op list" where
  "rocks_native_batch G d [] rb = Inr rb"
| "rocks_native_batch G d (Put cf key val # ops) rb =
     (case rocks_cf_handle G d cf of
        Inl e \<Rightarrow> Inl e
      | Inr h \<Rightarrow> rocks_native_batch G d ops (rb @ [RPut h key val]))"
| "rocks_native_batch G d (Delete cf key # ops) rb =
     (case rocks_cf_handle G d cf of
        Inl e \<Rightarrow> Inl e
      | Inr h \<Rightarrow> rocks_native_batch G d ops (rb @ [RDelete h key]))"

definition rocks_batch_write :: "'d rocks_db \<Rightarrow> 'd \<Rightarrow> write_batch \<Rightarrow> storage_error + 'd" where
  "rocks_batch_write G d batch =
     (if batch_is_empty batch then Inr d
      else (case rocks_native_batch G d batch [] of
          Inl e \<Rightarrow> Inl e
        | Inr rb \<Rightarrow>
            map_backend_err ''RocksDB batch write error: ''
              (rdb_write_opt G d rb sto005_batch_write_options)))"

fun rocks_collect ::
  "bytes \<Rightarrow> (string + kv_pair) list \<Rightarrow> kv_pair list \<Rightarrow> storage_error + kv_pair list" where
  "rocks_collect p [] results = Inr results"
| "rocks_collect p (Inl e # items) results = Inl (BackendError (''Iterator error: '' @ e))"
| "rocks_collect p (Inr (key, val) # items) results =
     (if \<not> prefix p key then Inr results
      else rocks_collect p items (results @ [(key, val)]))"

definition rocks_prefix_scan ::
  "'d rocks_db \<Rightarrow> 'd \<Rightarrow> string \<Rightarrow> bytes \<Rightarrow> storage_error + kv_pair list" where
  "rocks_prefix_scan G d cf p =
     (case rocks_cf_handle G d cf of
        Inl e \<Rightarrow> Inl e
      | Inr h \<Rightarrow> rocks_collect p (rdb_iterator_from G d h p) [])"

definition rocks_flush :: "'d rocks_db \<Rightarrow> 'd \<Rightarrow> storage_error + 'd" where
  "rocks_flush G d = map_backend_err ''RocksDB flush error: '' (rdb_flush G d)"

definition rocks_compact :: "'d rocks_db \<Rightarrow> 'd \<Rightarrow> string \<Rightarrow> storage_error + 'd" where
  "rocks_compact G d cf =
     (case rocks_cf_handle G d cf of
        Inl e \<Rightarrow> Inl e
      | Inr h \<Rightarrow> Inr (rdb_compact_range_cf G d h))"

definition rocks_backend :: "'d rocks_db \<Rightarrow> 'd storage_ops" where
  "rocks_backend G =
     \<lparr>kv_get = rocks_get G, kv_put = rocks_put G, kv_delete = rocks_delete G,
      kv_batch_write = rocks_batch_write G, kv_prefix_scan = rocks_prefix_scan G,
      kv_flush = rocks_flush G, kv_compact = rocks_compact G\<rparr>"

section \<open>What the backend relies on\<close>

fun rocks_apply :: "rocks_op \<Rightarrow> (nat \<Rightarrow> table) \<Rightarrow> nat \<Rightarrow> table" where
  "rocks_apply (RPut h k v) T = T(h := (T h)(k \<mapsto> v))"
| "rocks_apply (RDelete h k) T = T(h := (T h)(k := None))"

text \<open>The logical contents: the table behind the handle of a column family.\<close>

definition cf_view :: "(string \<Rightarrow> nat option) \<Rightarrow> (nat \<Rightarrow> table) \<Rightarrow> disk" where
  "cf_view H T cf = (case H cf of None \<Rightarrow> Map.empty | Some h \<Rightarrow> T h)"

text \<open>
  \<open>tab d h\<close> is the table behind handle \<open>h\<close>, \<open>opened d\<close> says that \<open>d\<close> is an open database.
  An iterator yields entries of the table in key order from the seek key on, without gaps among
  the keys that extend the seek key, up to its end or to an error. Beyond those keys nothing is
  assumed, since a prefix extractor may end the iteration there.
\<close>

definition iterates :: "table \<Rightarrow> bytes \<Rightarrow> (string + kv_pair) list \<Rightarrow> bool" where
  "iterates m p items \<longleftrightarrow>
     (\<exists>es errs. items = map Inr es @ map Inl errs \<and> sorted (map fst es) \<and> distinct (map fst es)
        \<and> (\<forall>(k, v) \<in> set es. m k = Some v \<and> p \<le> k)
        \<and> (\<forall>k \<in> dom m. prefix p k \<longrightarrow>
             k \<in> fst ` set es \<or> errs \<noteq> [] \<and> (\<forall>k' \<in> fst ` set es. k' < k)))"

locale rocks_engine =
  fixes G :: "'d rocks_db"
    and tab :: "'d \<Rightarrow> nat \<Rightarrow> table"
    and opened :: "'d \<Rightarrow> bool"
  assumes handle_known: "opened d \<Longrightarrow> cf \<in> set ALL_COLUMN_FAMILIES \<Longrightarrow> rdb_cf_handle G d cf \<noteq> None"
    and handle_inj: "opened d \<Longrightarrow> rdb_cf_handle G d cf = Some h \<Longrightarrow> rdb_cf_handle G d cf' = Some h \<Longrightarrow>
      cf = cf'"
    and engine_get: "opened d \<Longrightarrow> rdb_get_cf G d h k = Inr r \<Longrightarrow> r = tab d h k"
    and engine_put: "opened d \<Longrightarrow> rdb_put_cf G d h k v = Inr d' \<Longrightarrow>
      opened d' \<and> rdb_cf_handle G d' = rdb_cf_handle G d \<and> tab d' = rocks_apply (RPut h k v) (tab d)"
    and engine_delete: "opened d \<Longrightarrow> rdb_delete_cf G d h k = Inr d' \<Longrightarrow>
      opened d' \<and> rdb_cf_handle G d' = rdb_cf_handle G d \<and> tab d' = rocks_apply (RDelete h k) (tab d)"
    and engine_write: "opened d \<Longrightarrow> rdb_write_opt G d rb True = Inr d' \<Longrightarrow>
      opened d' \<and> rdb_cf_handle G d' = rdb_cf_handle G d \<and> tab d' = fold rocks_apply rb (tab d)"
    and engine_iterator: "opened d \<Longrightarrow> iterates (tab d h) p (rdb_iterator_from G d h p)"
    and engine_flush: "opened d \<Longrightarrow> rdb_flush G d = Inr d' \<Longrightarrow>
      opened d' \<and> rdb_cf_handle G d' = rdb_cf_handle G d \<and> tab d' = tab d"
    and engine_compact: "opened d \<Longrightarrow> opened (rdb_compact_range_cf G d h) \<and>
      rdb_cf_handle G (rdb_compact_range_cf G d h) = rdb_cf_handle G d \<and>
      tab (rdb_compact_range_cf G d h) = tab d"
    and engine_finite: "opened d \<Longrightarrow> finite (dom (tab d h))"

section \<open>Prefix scans\<close>

lemma prefix_between: "p \<le> k \<Longrightarrow> k \<le> k' \<Longrightarrow> prefix p k' \<Longrightarrow> prefix p (k :: byte list)"
proof (induction p arbitrary: k k')
  case Nil
  then show ?case by simp
next
  case (Cons a p)
  then obtain r where k': "k' = a # r" "prefix p r" by (cases k') auto
  with Cons.prems obtain b q where k: "k = b # q" by (cases k) auto
  with Cons.prems k' have "b = a" "p \<le> q" "q \<le> r"
    by (auto simp: Cons_le_Cons split: if_splits)
  with Cons.IH k k' show ?case by auto
qed

lemma le_if_prefix: "prefix p k \<Longrightarrow> p \<le> (k :: byte list)"
  by (induction p arbitrary: k) (auto simp: prefix_def)

lemma rocks_collect_entries:
  "rocks_collect p (map Inr es @ map Inl errs) results =
     (if list_all (\<lambda>e. prefix p (fst e)) es
      then (case errs of
              [] \<Rightarrow> Inr (results @ es)
            | e # _ \<Rightarrow> Inl (BackendError (''Iterator error: '' @ e)))
      else Inr (results @ takeWhile (\<lambda>e. prefix p (fst e)) es))"
  by (induction es arbitrary: results) (auto split: list.splits)

text \<open>In a sorted list of keys from \<open>p\<close> on, those that extend \<open>p\<close> come first.\<close>

lemma takeWhile_prefix:
  assumes "sorted (map fst es)" "\<forall>e \<in> set es. p \<le> (fst e :: bytes)"
  shows "takeWhile (\<lambda>e. prefix p (fst e)) es = filter (\<lambda>e. prefix p (fst e)) es"
  using assms
proof (induction es)
  case Nil
  then show ?case by simp
next
  case (Cons e es)
  have "\<not> prefix p (fst e')" if "e' \<in> set es" "\<not> prefix p (fst e)" for e'
    using Cons.prems that prefix_between [of p "fst e" "fst e'"] by auto
  with Cons show ?case by (auto simp: filter_empty_conv)
qed

lemma rocks_collect_scan:
  assumes it: "iterates m p items" and ok: "rocks_collect p items [] = Inr es'"
  shows "es' = scan_entries m p"
proof -
  let ?P = "\<lambda>e :: kv_pair. prefix p (fst e)"
  obtain es errs where items: "items = map Inr es @ map Inl errs"
    and sorted: "sorted (map fst es)" "distinct (map fst es)"
    and sound: "\<forall>(k, v) \<in> set es. m k = Some v \<and> p \<le> k"
    and complete: "\<forall>k \<in> dom m. prefix p k \<longrightarrow>
          k \<in> fst ` set es \<or> errs \<noteq> [] \<and> (\<forall>k' \<in> fst ` set es. k' < k)"
    using it unfolding iterates_def by blast
  have from_p: "\<forall>e \<in> set es. p \<le> fst e" using sound by auto
  have es': "es' = filter ?P es"
  proof (cases "list_all ?P es")
    case True
    with ok items show ?thesis
      by (auto simp: rocks_collect_entries list_all_iff split: list.splits)
  next
    case False
    with ok items show ?thesis
      using takeWhile_prefix [OF sorted(1) from_p] by (auto simp: rocks_collect_entries)
  qed
  have all: "k \<in> fst ` set es" if "k \<in> dom m" "prefix p k" for k
  proof (cases "list_all ?P es")
    case True
    with ok items have "errs = []" by (auto simp: rocks_collect_entries split: list.splits)
    with complete that show ?thesis by blast
  next
    case False
    then obtain e where e: "e \<in> set es" "\<not> ?P e" by (auto simp: list_all_iff)
    with prefix_between [of p "fst e" k] from_p that have "\<not> fst e < k" by (metis less_imp_le)
    with complete that e show ?thesis by blast
  qed
  show ?thesis
  proof (rule scan_entries_eqI)
    show "sorted (map fst es')" using sorted(1) by (simp add: es' sorted_filter)
    show "distinct (map fst es')" using sorted(2) by (simp add: es' distinct_map_filter)
    show "set es' = {(k, v). m k = Some v \<and> prefix p k}"
    proof (intro set_eqI iffI)
      fix e assume "e \<in> set es'"
      with sound show "e \<in> {(k, v). m k = Some v \<and> prefix p k}" by (auto simp: es')
    next
      fix e assume "e \<in> {(k, v). m k = Some v \<and> prefix p k}"
      then obtain k v where e: "e = (k, v)" "m k = Some v" "prefix p k" by auto
      with all [of k] obtain w where "(k, w) \<in> set es" by (force simp: dom_def)
      with sound e show "e \<in> set es'" by (auto simp: es')
    qed
  qed
qed

section \<open>The backend satisfies the contract\<close>

lemma map_backend_err_Inr [simp]: "map_backend_err ctx r = Inr x \<longleftrightarrow> r = Inr x"
  by (cases r) (auto simp: map_backend_err_def)

lemma rocks_cf_handle_Inr [simp]: "rocks_cf_handle G d cf = Inr h \<longleftrightarrow> rdb_cf_handle G d cf = Some h"
  by (auto simp: rocks_cf_handle_def split: option.splits)

lemma cf_view_update:
  assumes "H cf = Some h" "\<And>cf'. H cf' = Some h \<Longrightarrow> cf' = cf"
  shows "cf_view H (T(h := m)) = (cf_view H T)(cf := m)"
proof
  fix cf'
  show "cf_view H (T(h := m)) cf' = ((cf_view H T)(cf := m)) cf'"
    using assms(1) assms(2) [of cf'] by (cases "H cf'") (auto simp: cf_view_def)
qed

lemma cf_view_apply:
  assumes "H cf = Some h" "\<And>cf'. H cf' = Some h \<Longrightarrow> cf' = cf"
  shows "cf_view H (rocks_apply (RPut h k v) T) = apply_op (Put cf k v) (cf_view H T)"
    and "cf_view H (rocks_apply (RDelete h k) T) = apply_op (Delete cf k) (cf_view H T)"
proof -
  have "cf_view H T cf = T h" using assms(1) by (simp add: cf_view_def)
  then show "cf_view H (rocks_apply (RPut h k v) T) = apply_op (Put cf k v) (cf_view H T)"
    and "cf_view H (rocks_apply (RDelete h k) T) = apply_op (Delete cf k) (cf_view H T)"
    by (simp_all add: cf_view_update [of H cf h] assms)
qed

lemma rocks_native_batch_view:
  assumes inj: "\<And>cf cf' h. rdb_cf_handle G d cf = Some h \<Longrightarrow> rdb_cf_handle G d cf' = Some h \<Longrightarrow> cf = cf'"
    and "rocks_native_batch G d ops rb = Inr rb'"
  shows "cf_view (rdb_cf_handle G d) (fold rocks_apply rb' T)
       = apply_ops ops (cf_view (rdb_cf_handle G d) (fold rocks_apply rb T))"
  using assms(2)
proof (induction ops arbitrary: rb)
  case Nil
  then show ?case by simp
next
  case (Cons x ops)
  obtain h where h: "rdb_cf_handle G d (op_cf x) = Some h"
    using Cons.prems by (cases x) (auto split: sum.splits)
  let ?y = "case x of Put cf k v \<Rightarrow> RPut h k v | Delete cf k \<Rightarrow> RDelete h k"
  have "rocks_native_batch G d ops (rb @ [?y]) = Inr rb'"
    using Cons.prems h by (cases x) (auto simp: rocks_cf_handle_def)
  from Cons.IH [OF this] have "cf_view (rdb_cf_handle G d) (fold rocks_apply rb' T)
      = apply_ops ops (cf_view (rdb_cf_handle G d) (rocks_apply ?y (fold rocks_apply rb T)))" by simp
  also have "cf_view (rdb_cf_handle G d) (rocks_apply ?y (fold rocks_apply rb T))
      = apply_op x (cf_view (rdb_cf_handle G d) (fold rocks_apply rb T))"
    using cf_view_apply [of "rdb_cf_handle G d" "op_cf x" h, OF h inj [OF _ h]] by (cases x) simp_all
  finally show ?case by simp
qed

lemma rocks_native_batch_total:
  "list_all (\<lambda>x. rdb_cf_handle G d (op_cf x) \<noteq> None) ops \<Longrightarrow> \<exists>rb'. rocks_native_batch G d ops rb = Inr rb'"
proof (induction ops arbitrary: rb)
  case Nil
  then show ?case by simp
next
  case (Cons x ops)
  then show ?case by (cases x) (auto simp: rocks_cf_handle_def)
qed

definition rocks_view :: "'d rocks_db \<Rightarrow> ('d \<Rightarrow> nat \<Rightarrow> table) \<Rightarrow> 'd \<Rightarrow> disk" where
  "rocks_view G tab d = cf_view (rdb_cf_handle G d) (tab d)"

lemmas rocks_ops = rocks_backend_def rocks_get_def rocks_put_def rocks_delete_def
  rocks_batch_write_def rocks_prefix_scan_def rocks_flush_def rocks_compact_def

sublocale rocks_engine \<subseteq> rocks: storage_backend "rocks_backend G" "rocks_view G tab" opened
proof (unfold_locales, goal_cases)
  case (1 s cf k r)
  then show ?case
    by (auto simp: rocks_ops rocks_view_def cf_view_def engine_get split: sum.splits)
next
  case (2 s cf k v s')
  then obtain h where h: "rdb_cf_handle G s cf = Some h" "rdb_put_cf G s h k v = Inr s'"
    by (auto simp: rocks_ops split: sum.splits)
  with 2 engine_put [OF _ h(2)] show ?case
    using cf_view_apply(1) [of "rdb_cf_handle G s" cf h, OF h(1) handle_inj [OF 2(1) _ h(1)]]
    by (simp add: rocks_view_def)
next
  case (3 s cf k s')
  then obtain h where h: "rdb_cf_handle G s cf = Some h" "rdb_delete_cf G s h k = Inr s'"
    by (auto simp: rocks_ops split: sum.splits)
  with 3 engine_delete [OF _ h(2)] show ?case
    using cf_view_apply(2) [of "rdb_cf_handle G s" cf h, OF h(1) handle_inj [OF 3(1) _ h(1)]]
    by (simp add: rocks_view_def)
next
  case (4 s b s')
  show ?case
  proof (cases "b = []")
    case True
    with 4 show ?thesis by (simp add: rocks_ops batch_is_empty_def)
  next
    case False
    with 4 obtain rb where rb: "rocks_native_batch G s b [] = Inr rb" "rdb_write_opt G s rb True = Inr s'"
      by (auto simp: rocks_ops batch_is_empty_def sto005_batch_write_options_def split: sum.splits)
    with 4 engine_write [OF 4(1) rb(2)] show ?thesis
      using rocks_native_batch_view [OF handle_inj [OF 4(1)] rb(1), where T = "tab s"]
      by (simp add: rocks_view_def)
  qed
next
  case (5 s cf p es)
  then obtain h where h: "rdb_cf_handle G s cf = Some h"
    and es: "rocks_collect p (rdb_iterator_from G s h p) [] = Inr es"
    by (auto simp: rocks_ops split: sum.splits)
  with rocks_collect_scan [OF engine_iterator [OF 5(1)] es] show ?case
    by (simp add: rocks_view_def cf_view_def)
next
  case (6 s s')
  then show ?case using engine_flush by (simp add: rocks_ops rocks_view_def)
next
  case (7 s cf s')
  then show ?case using engine_compact by (auto simp: rocks_ops rocks_view_def split: sum.splits)
next
  case (8 s cf)
  then show ?case using engine_finite by (auto simp: rocks_view_def cf_view_def split: option.splits)
qed

text \<open>Where the engine's calls succeed on known column families, so do the backend's.\<close>

locale reliable_rocks_engine = rocks_engine +
  assumes engine_get_total: "opened d \<Longrightarrow> key_ok k \<Longrightarrow> \<exists>r. rdb_get_cf G d h k = Inr r"
    and engine_put_total: "opened d \<Longrightarrow> key_ok k \<Longrightarrow> \<exists>d'. rdb_put_cf G d h k v = Inr d'"
    and engine_delete_total: "opened d \<Longrightarrow> key_ok k \<Longrightarrow> \<exists>d'. rdb_delete_cf G d h k = Inr d'"
    and engine_write_total: "opened d \<Longrightarrow> \<exists>d'. rdb_write_opt G d rb True = Inr d'"
    and engine_iterator_total: "opened d \<Longrightarrow> list_all (Not \<circ> isl) (rdb_iterator_from G d h p)"

lemma rocks_collect_total: "list_all (Not \<circ> isl) items \<Longrightarrow> \<exists>es. rocks_collect p items results = Inr es"
  by (induction p items results rule: rocks_collect.induct) auto

lemma map_backend_err_Inr_simp [simp]: "map_backend_err ctx (Inr x) = Inr x"
  by (simp add: map_backend_err_def)

sublocale reliable_rocks_engine \<subseteq> rocks: reliable_backend "rocks_backend G" "rocks_view G tab" opened
proof (unfold_locales, goal_cases)
  case (1 s cf k)
  with handle_known [OF 1(1,2)] engine_get_total show ?case
    by (auto simp: rocks_ops rocks_cf_handle_def)
next
  case (2 s cf k v)
  with handle_known [OF 2(1,2)] engine_put_total show ?case
    by (auto simp: rocks_ops rocks_cf_handle_def)
next
  case (3 s cf k)
  with handle_known [OF 3(1,2)] engine_delete_total show ?case
    by (auto simp: rocks_ops rocks_cf_handle_def)
next
  case (4 s b)
  then have "list_all (\<lambda>x. rdb_cf_handle G s (op_cf x) \<noteq> None) b"
    using handle_known by (auto simp: list_all_iff op_ok_def)
  from rocks_native_batch_total [OF this, of "[]"]
  obtain rb where "rocks_native_batch G s b [] = Inr rb" by blast
  with engine_write_total [OF 4(1), of rb] show ?case
    by (auto simp: rocks_ops sto005_batch_write_options_def)
next
  case (5 s cf p)
  with handle_known [OF 5(1,2)] rocks_collect_total [OF engine_iterator_total] show ?case
    by (auto simp: rocks_ops rocks_cf_handle_def)
qed

section \<open>An engine of ordered tables\<close>

type_synonym tables = "nat \<Rightarrow> ordered_table"

fun mem_apply :: "rocks_op \<Rightarrow> tables \<Rightarrow> tables" where
  "mem_apply (RPut h k v) d = d(h := ot_put k v (d h))"
| "mem_apply (RDelete h k) d = d(h := ot_delete k (d h))"

definition mem_rocks :: "tables rocks_db" where
  "mem_rocks =
     \<lparr>rdb_open_cf_descriptors = (\<lambda>_ _ _. Inr (\<lambda>_. [])),
      rdb_list_cf = (\<lambda>_ _. Inr ALL_COLUMN_FAMILIES),
      rdb_cf_handle = (\<lambda>_ cf. position cf ALL_COLUMN_FAMILIES),
      rdb_get_cf = (\<lambda>d h k. Inr (map_of (d h) k)),
      rdb_put_cf = (\<lambda>d h k v. Inr (mem_apply (RPut h k v) d)),
      rdb_delete_cf = (\<lambda>d h k. Inr (mem_apply (RDelete h k) d)),
      rdb_write_opt = (\<lambda>d rb _. Inr (fold mem_apply rb d)),
      rdb_iterator_from = (\<lambda>d h p. map Inr (ot_seek p (d h))),
      rdb_flush = (\<lambda>d. Inr d),
      rdb_compact_range_cf = (\<lambda>d _. d)\<rparr>"

definition mem_tab :: "tables \<Rightarrow> nat \<Rightarrow> table" where
  "mem_tab d h = map_of (d h)"

definition mem_ok :: "tables \<Rightarrow> bool" where
  "mem_ok d \<longleftrightarrow> (\<forall>h. ot_ok (d h))"

lemma position_Some: "position x ys = Some i \<Longrightarrow> i < length ys \<and> ys ! i = x"
  by (induction x ys arbitrary: i rule: position.induct) (auto split: if_splits)

lemma position_mem: "x \<in> set ys \<Longrightarrow> position x ys \<noteq> None"
  by (induction x ys rule: position.induct) auto

lemma mem_apply_ok:
  "mem_ok d \<Longrightarrow> mem_ok (mem_apply x d) \<and> mem_tab (mem_apply x d) = rocks_apply x (mem_tab d)"
  by (cases x)
    (auto simp: mem_ok_def mem_tab_def fun_eq_iff ot_ok_put map_of_ot_put map_of_ot_delete
      ot_delete_def [symmetric] intro: ot_ok_filter [of _ "\<lambda>e. fst e \<noteq> _", folded ot_delete_def])

lemma mem_fold_ok:
  "mem_ok d \<Longrightarrow> mem_ok (fold mem_apply rb d) \<and> mem_tab (fold mem_apply rb d) = fold rocks_apply rb (mem_tab d)"
  by (induction rb arbitrary: d) (auto simp: mem_apply_ok)

lemma iterates_ot_seek: "ot_ok t \<Longrightarrow> iterates (map_of t) p (map Inr (ot_seek p t))"
  unfolding iterates_def
proof (intro exI conjI)
  assume t: "ot_ok t"
  show "map Inr (ot_seek p t) = map Inr (ot_seek p t) @ map Inl []" by simp
  show "sorted (map fst (ot_seek p t))" "distinct (map fst (ot_seek p t))"
    using t by (simp_all add: ot_seek_def ot_ok_strict [OF ot_ok_filter])
  show "\<forall>(k, v) \<in> set (ot_seek p t). map_of t k = Some v \<and> p \<le> k"
    using t by (auto simp: ot_seek_def set_ordered_table)
  show "\<forall>k \<in> dom (map_of t). prefix p k \<longrightarrow> k \<in> fst ` set (ot_seek p t) \<or>
      [] \<noteq> [] \<and> (\<forall>k' \<in> fst ` set (ot_seek p t). k' < k)"
    by (auto simp: ot_seek_def le_if_prefix dest!: map_of_SomeD intro!: rev_image_eqI)
qed

interpretation mem_rocks: reliable_rocks_engine mem_rocks mem_tab mem_ok
proof (unfold_locales, goal_cases)
  case 1
  then show ?case by (simp add: mem_rocks_def position_mem)
next
  case 2
  then show ?case by (auto simp: mem_rocks_def dest!: position_Some)
next
  case (4 d h k v)
  then show ?case using mem_apply_ok [of d "RPut h k v"] by (auto simp: mem_rocks_def)
next
  case (5 d h k)
  then show ?case using mem_apply_ok [of d "RDelete h k"] by (auto simp: mem_rocks_def)
next
  case 6
  then show ?case using mem_fold_ok by (auto simp: mem_rocks_def)
next
  case 7
  then show ?case by (simp add: mem_rocks_def mem_tab_def mem_ok_def iterates_ot_seek)
qed (auto simp: mem_rocks_def mem_tab_def mem_ok_def list_all_iff finite_dom_map_of)

end
