(* ===== verification/Lmdb.thy ===== *)
theory Lmdb
  imports Ordered_Table Config
begin

text \<open>
  \<open>src/src/storage/lmdb.rs\<close>: the LMDB backend, which multiplexes the twelve column families over
  six named databases with a tag byte. The crate \<open>heed\<close> is not part of the repository: it is
  the record \<open>heed\<close> of the calls the backend makes over environments, read transactions and
  write transactions, and the locale \<open>heed_engine\<close> states what the backend relies on. Dropping
  a write transaction without \<open>commit\<close> leaves the environment as it was.
\<close>

section \<open>Databases, tags and routes\<close>

definition LMDB_NAMED_DATABASES :: "string list" where
  "LMDB_NAMED_DATABASES =
     [''coins'', ''coins_by_ph'', ''hints'', ''hints_by_value'', ''snapshots'', ''metadata'']"

definition LMDB_MAX_DBS :: u32 where "LMDB_MAX_DBS = 8"

definition TAG_COIN_RECORDS :: byte where "TAG_COIN_RECORDS = 0x01"
definition TAG_COIN_BY_PARENT :: byte where "TAG_COIN_BY_PARENT = 0x02"
definition TAG_COIN_BY_CONFIRMED_HEIGHT :: byte where "TAG_COIN_BY_CONFIRMED_HEIGHT = 0x03"
definition TAG_COIN_BY_SPENT_HEIGHT :: byte where "TAG_COIN_BY_SPENT_HEIGHT = 0x04"
definition TAG_ARCHIVE_COIN_RECORDS :: byte where "TAG_ARCHIVE_COIN_RECORDS = 0x05"
definition TAG_MERKLE_NODES :: byte where "TAG_MERKLE_NODES = 0x06"
definition TAG_COIN_BY_PUZZLE_HASH :: byte where "TAG_COIN_BY_PUZZLE_HASH = 0x01"
definition TAG_UNSPENT_BY_PUZZLE_HASH :: byte where "TAG_UNSPENT_BY_PUZZLE_HASH = 0x02"

lemmas tag_defs = TAG_COIN_RECORDS_def TAG_COIN_BY_PARENT_def TAG_COIN_BY_CONFIRMED_HEIGHT_def
  TAG_COIN_BY_SPENT_HEIGHT_def TAG_ARCHIVE_COIN_RECORDS_def TAG_MERKLE_NODES_def
  TAG_COIN_BY_PUZZLE_HASH_def TAG_UNSPENT_BY_PUZZLE_HASH_def

definition logical_cf_route :: "string \<Rightarrow> storage_error + (nat \<times> byte option)" where
  "logical_cf_route cf =
     (if cf = CF_COIN_RECORDS then Inr (0, Some TAG_COIN_RECORDS)
      else if cf = CF_COIN_BY_PARENT then Inr (0, Some TAG_COIN_BY_PARENT)
      else if cf = CF_COIN_BY_CONFIRMED_HEIGHT then Inr (0, Some TAG_COIN_BY_CONFIRMED_HEIGHT)
      else if cf = CF_COIN_BY_SPENT_HEIGHT then Inr (0, Some TAG_COIN_BY_SPENT_HEIGHT)
      else if cf = CF_ARCHIVE_COIN_RECORDS then Inr (0, Some TAG_ARCHIVE_COIN_RECORDS)
      else if cf = CF_MERKLE_NODES then Inr (0, Some TAG_MERKLE_NODES)
      else if cf = CF_COIN_BY_PUZZLE_HASH then Inr (1, Some TAG_COIN_BY_PUZZLE_HASH)
      else if cf = CF_UNSPENT_BY_PUZZLE_HASH then Inr (1, Some TAG_UNSPENT_BY_PUZZLE_HASH)
      else if cf = CF_HINTS then Inr (2, None)
      else if cf = CF_HINTS_BY_VALUE then Inr (3, None)
      else if cf = CF_STATE_SNAPSHOTS then Inr (4, None)
      else if cf = CF_METADATA then Inr (5, None)
      else Inl (UnknownColumnFamily cf))"

definition encode_storage_key :: "byte option \<Rightarrow> bytes \<Rightarrow> bytes" where
  "encode_storage_key tag user_key = (case tag of Some t \<Rightarrow> t # user_key | None \<Rightarrow> user_key)"

text \<open>\<open>stored.get(1..).unwrap_or_default()\<close> is the tail, empty when there is none.\<close>

definition decode_user_key :: "byte option \<Rightarrow> bytes \<Rightarrow> bytes" where
  "decode_user_key tag stored = (case tag of Some _ \<Rightarrow> tl stored | None \<Rightarrow> stored)"

section \<open>The engine\<close>

datatype heed_error = MdbMapFull | HeedOther string

record ('e, 'r, 'w) heed =
  heed_open :: "nat \<Rightarrow> u32 \<Rightarrow> string \<Rightarrow> heed_error + 'e"
  heed_create_database :: "'w \<Rightarrow> string \<Rightarrow> heed_error + (nat \<times> 'w)"
  heed_read_txn :: "'e \<Rightarrow> heed_error + 'r"
  heed_write_txn :: "'e \<Rightarrow> heed_error + 'w"
  heed_get :: "'r \<Rightarrow> nat \<Rightarrow> bytes \<Rightarrow> heed_error + bytes option"
  heed_put :: "'w \<Rightarrow> nat \<Rightarrow> bytes \<Rightarrow> bytes \<Rightarrow> heed_error + 'w"
  heed_delete :: "'w \<Rightarrow> nat \<Rightarrow> bytes \<Rightarrow> heed_error + (bool \<times> 'w)"
  heed_commit :: "'w \<Rightarrow> heed_error + 'e"
  heed_prefix_iter :: "'r \<Rightarrow> nat \<Rightarrow> bytes \<Rightarrow> heed_error + (heed_error + kv_pair) list"
  heed_iter :: "'r \<Rightarrow> nat \<Rightarrow> heed_error + (heed_error + kv_pair) list"
  heed_force_sync :: "'e \<Rightarrow> heed_error + 'e"

section \<open>The backend\<close>

record 'e lmdb_backend =
  lm_env :: 'e
  lm_dbs :: "nat list"

definition environment :: "'e lmdb_backend \<Rightarrow> 'e" where
  "environment l = lm_env l"

definition map_heed :: "string \<Rightarrow> heed_error \<Rightarrow> storage_error" where
  "map_heed ctx err =
     (case err of MdbMapFull \<Rightarrow> MapFull | HeedOther m \<Rightarrow> BackendError (ctx @ '': '' @ m))"

text \<open>\<open>.map_err(|e| map_heed(ctx, e))?\<close> followed by the rest of the function.\<close>

definition try_heed :: "string \<Rightarrow> heed_error + 'a \<Rightarrow> ('a \<Rightarrow> storage_error + 'b) \<Rightarrow> storage_error + 'b" where
  "try_heed ctx r f = (case r of Inl e \<Rightarrow> Inl (map_heed ctx e) | Inr x \<Rightarrow> f x)"

fun lmdb_create_databases ::
  "('e, 'r, 'w) heed \<Rightarrow> string list \<Rightarrow> 'w \<Rightarrow> nat list \<Rightarrow> storage_error + (nat list \<times> 'w)" where
  "lmdb_create_databases H [] wtxn dbs = Inr (dbs, wtxn)"
| "lmdb_create_databases H (name # names) wtxn dbs =
     try_heed (''LMDB create db '' @ name) (heed_create_database H wtxn name)
       (\<lambda>(db, wtxn'). lmdb_create_databases H names wtxn' (dbs @ [db]))"

text \<open>\<open>fs::create_dir_all\<close> is the argument \<open>mkdir\<close>.\<close>

definition lmdb_open ::
  "('e, 'r, 'w) heed \<Rightarrow> (string \<Rightarrow> string + unit) \<Rightarrow> coin_store_config
    \<Rightarrow> storage_error + 'e lmdb_backend" where
  "lmdb_open H mkdir config =
     (case mkdir (storage_path config) of
        Inl e \<Rightarrow> Inl (BackendError (''Failed to create LMDB directory: '' @ e))
      | Inr _ \<Rightarrow>
          try_heed ''Failed to open LMDB env''
            (heed_open H (lmdb_map_size config) LMDB_MAX_DBS (storage_path config)) (\<lambda>env.
          try_heed ''LMDB write_txn (open)'' (heed_write_txn H env) (\<lambda>wtxn.
          case lmdb_create_databases H LMDB_NAMED_DATABASES wtxn [] of
            Inl e \<Rightarrow> Inl e
          | Inr (dbs, wtxn') \<Rightarrow>
              try_heed ''LMDB commit (open)'' (heed_commit H wtxn')
                (\<lambda>env'. Inr \<lparr>lm_env = env', lm_dbs = dbs\<rparr>))))"

definition lmdb_db :: "'e lmdb_backend \<Rightarrow> nat \<Rightarrow> storage_error + nat" where
  "lmdb_db s index =
     (if index < length (lm_dbs s) then Inr (lm_dbs s ! index)
      else Inl (BackendError ''LMDB internal db index''))"

text \<open>The route of a column family to its database handle and tag.\<close>

definition lmdb_route :: "'e lmdb_backend \<Rightarrow> string \<Rightarrow> storage_error + (nat \<times> byte option)" where
  "lmdb_route s cf =
     (case logical_cf_route cf of
        Inl e \<Rightarrow> Inl e
      | Inr (dbi, tag) \<Rightarrow>
          (case lmdb_db s dbi of Inl e \<Rightarrow> Inl e | Inr db \<Rightarrow> Inr (db, tag)))"

definition with_rotxn ::
  "('e, 'r, 'w) heed \<Rightarrow> 'e lmdb_backend \<Rightarrow> ('r \<Rightarrow> storage_error + 'a) \<Rightarrow> storage_error + 'a" where
  "with_rotxn H s f = try_heed ''LMDB read_txn'' (heed_read_txn H (lm_env s)) f"

definition lmdb_get ::
  "('e, 'r, 'w) heed \<Rightarrow> 'e lmdb_backend \<Rightarrow> string \<Rightarrow> bytes \<Rightarrow> storage_error + bytes option" where
  "lmdb_get H s cf key =
     (case lmdb_route s cf of
        Inl e \<Rightarrow> Inl e
      | Inr (db, tag) \<Rightarrow>
          with_rotxn H s (\<lambda>rtxn.
            try_heed ''LMDB get'' (heed_get H rtxn db (encode_storage_key tag key)) Inr))"

definition lmdb_commit ::
  "('e, 'r, 'w) heed \<Rightarrow> 'e lmdb_backend \<Rightarrow> 'w \<Rightarrow> storage_error + 'e lmdb_backend" where
  "lmdb_commit H s wtxn =
     try_heed ''LMDB commit'' (heed_commit H wtxn) (\<lambda>env. Inr (s\<lparr>lm_env := env\<rparr>))"

definition lmdb_put ::
  "('e, 'r, 'w) heed \<Rightarrow> 'e lmdb_backend \<Rightarrow> string \<Rightarrow> bytes \<Rightarrow> bytes
    \<Rightarrow> storage_error + 'e lmdb_backend" where
  "lmdb_put H s cf key val =
     (case lmdb_route s cf of
        Inl e \<Rightarrow> Inl e
      | Inr (db, tag) \<Rightarrow>
          try_heed ''LMDB write_txn'' (heed_write_txn H (lm_env s)) (\<lambda>wtxn.
          try_heed ''LMDB put'' (heed_put H wtxn db (encode_storage_key tag key) val)
            (lmdb_commit H s)))"

definition lmdb_delete ::
  "('e, 'r, 'w) heed \<Rightarrow> 'e lmdb_backend \<Rightarrow> string \<Rightarrow> bytes \<Rightarrow> storage_error + 'e lmdb_backend" where
  "lmdb_delete H s cf key =
     (case lmdb_route s cf of
        Inl e \<Rightarrow> Inl e
      | Inr (db, tag) \<Rightarrow>
          try_heed ''LMDB write_txn'' (heed_write_txn H (lm_env s)) (\<lambda>wtxn.
          try_heed ''LMDB delete'' (heed_delete H wtxn db (encode_storage_key tag key))
            (\<lambda>(existed, wtxn'). lmdb_commit H s wtxn')))"

fun lmdb_batch_ops ::
  "('e, 'r, 'w) heed \<Rightarrow> 'e lmdb_backend \<Rightarrow> write_op list \<Rightarrow> 'w \<Rightarrow> storage_error + 'w" where
  "lmdb_batch_ops H s [] wtxn = Inr wtxn"
| "lmdb_batch_ops H s (Put cf key val # ops) wtxn =
     (case lmdb_route s cf of
        Inl e \<Rightarrow> Inl e
      | Inr (db, tag) \<Rightarrow>
          try_heed ''LMDB batch put'' (heed_put H wtxn db (encode_storage_key tag key) val)
            (lmdb_batch_ops H s ops))"
| "lmdb_batch_ops H s (Delete cf key # ops) wtxn =
     (case lmdb_route s cf of
        Inl e \<Rightarrow> Inl e
      | Inr (db, tag) \<Rightarrow>
          try_heed ''LMDB batch del'' (heed_delete H wtxn db (encode_storage_key tag key))
            (\<lambda>(existed, wtxn'). lmdb_batch_ops H s ops wtxn'))"

definition lmdb_batch_write ::
  "('e, 'r, 'w) heed \<Rightarrow> 'e lmdb_backend \<Rightarrow> write_batch \<Rightarrow> storage_error + 'e lmdb_backend" where
  "lmdb_batch_write H s batch =
     (if batch_is_empty batch then Inr s
      else try_heed ''LMDB write_txn'' (heed_write_txn H (lm_env s)) (\<lambda>wtxn.
        case lmdb_batch_ops H s batch wtxn of
          Inl e \<Rightarrow> Inl e
        | Inr wtxn' \<Rightarrow> lmdb_commit H s wtxn'))"

fun lmdb_collect ::
  "string \<Rightarrow> byte option \<Rightarrow> (heed_error + kv_pair) list \<Rightarrow> kv_pair list
    \<Rightarrow> storage_error + kv_pair list" where
  "lmdb_collect ctx tag [] out = Inr out"
| "lmdb_collect ctx tag (Inl e # items) out = Inl (map_heed ctx e)"
| "lmdb_collect ctx tag (Inr (k, v) # items) out =
     lmdb_collect ctx tag items (out @ [(decode_user_key tag k, v)])"

definition lmdb_prefix_scan ::
  "('e, 'r, 'w) heed \<Rightarrow> 'e lmdb_backend \<Rightarrow> string \<Rightarrow> bytes \<Rightarrow> storage_error + kv_pair list" where
  "lmdb_prefix_scan H s cf p =
     (case lmdb_route s cf of
        Inl e \<Rightarrow> Inl e
      | Inr (db, tag) \<Rightarrow>
          try_heed ''LMDB read_txn'' (heed_read_txn H (lm_env s)) (\<lambda>rtxn.
          case tag of
            Some t \<Rightarrow>
              try_heed ''LMDB prefix_iter'' (heed_prefix_iter H rtxn db (t # p))
                (\<lambda>items. lmdb_collect ''LMDB prefix next'' (Some t) items [])
          | None \<Rightarrow>
              if p = [] then
                try_heed ''LMDB iter'' (heed_iter H rtxn db)
                  (\<lambda>items. lmdb_collect ''LMDB iter next'' None items [])
              else
                try_heed ''LMDB prefix_iter'' (heed_prefix_iter H rtxn db p)
                  (\<lambda>items. lmdb_collect ''LMDB prefix next'' None items [])))"

definition lmdb_flush :: "('e, 'r, 'w) heed \<Rightarrow> 'e lmdb_backend \<Rightarrow> storage_error + 'e lmdb_backend" where
  "lmdb_flush H s =
     try_heed ''LMDB force_sync'' (heed_force_sync H (lm_env s)) (\<lambda>env. Inr (s\<lparr>lm_env := env\<rparr>))"

definition lmdb_compact :: "'e lmdb_backend \<Rightarrow> string \<Rightarrow> storage_error + 'e lmdb_backend" where
  "lmdb_compact s cf = Inr s"

definition lmdb_ops :: "('e, 'r, 'w) heed \<Rightarrow> 'e lmdb_backend storage_ops" where
  "lmdb_ops H =
     \<lparr>kv_get = lmdb_get H, kv_put = lmdb_put H, kv_delete = lmdb_delete H,
      kv_batch_write = lmdb_batch_write H, kv_prefix_scan = lmdb_prefix_scan H,
      kv_flush = lmdb_flush H, kv_compact = lmdb_compact\<rparr>"

section \<open>What the backend relies on\<close>

text \<open>
  \<open>etab\<close>, \<open>rtab\<close> and \<open>wtab\<close> are the tables that an environment, a read transaction and a
  write transaction see; \<open>eok\<close>, \<open>rok\<close> and \<open>wok\<close> say that they are valid.
\<close>

locale heed_engine =
  fixes H :: "('e, 'r, 'w) heed"
    and etab :: "'e \<Rightarrow> nat \<Rightarrow> table"
    and rtab :: "'r \<Rightarrow> nat \<Rightarrow> table"
    and wtab :: "'w \<Rightarrow> nat \<Rightarrow> table"
    and eok :: "'e \<Rightarrow> bool"
    and rok :: "'r \<Rightarrow> bool"
    and wok :: "'w \<Rightarrow> bool"
  assumes engine_read_txn: "eok e \<Longrightarrow> heed_read_txn H e = Inr rt \<Longrightarrow> rok rt \<and> rtab rt = etab e"
    and engine_write_txn: "eok e \<Longrightarrow> heed_write_txn H e = Inr w \<Longrightarrow> wok w \<and> wtab w = etab e"
    and engine_get: "rok rt \<Longrightarrow> heed_get H rt db k = Inr v \<Longrightarrow> v = rtab rt db k"
    and engine_put: "wok w \<Longrightarrow> heed_put H w db k x = Inr w' \<Longrightarrow>
      wok w' \<and> wtab w' = (wtab w)(db := (wtab w db)(k \<mapsto> x))"
    and engine_delete: "wok w \<Longrightarrow> heed_delete H w db k = Inr (b, w') \<Longrightarrow>
      wok w' \<and> wtab w' = (wtab w)(db := (wtab w db)(k := None))"
    and engine_commit: "wok w \<Longrightarrow> heed_commit H w = Inr e' \<Longrightarrow> eok e' \<and> etab e' = wtab w"
    and engine_prefix_iter: "rok rt \<Longrightarrow> heed_prefix_iter H rt db p = Inr items \<Longrightarrow> p \<noteq> [] \<Longrightarrow>
      list_all (Not \<circ> isl) items \<Longrightarrow> items = map Inr (scan_entries (rtab rt db) p)"
    and engine_iter: "rok rt \<Longrightarrow> heed_iter H rt db = Inr items \<Longrightarrow> list_all (Not \<circ> isl) items \<Longrightarrow>
      items = map Inr (scan_entries (rtab rt db) [])"
    and engine_force_sync: "eok e \<Longrightarrow> heed_force_sync H e = Inr e' \<Longrightarrow> eok e' \<and> etab e' = etab e"
    and engine_finite: "eok e \<Longrightarrow> finite (dom (etab e db))"

text \<open>The logical contents of a column family: its keys behind the tag of its route.\<close>

definition route_view :: "nat list \<Rightarrow> (nat \<Rightarrow> table) \<Rightarrow> disk" where
  "route_view dbs T cf =
     (case logical_cf_route cf of
        Inl e \<Rightarrow> Map.empty
      | Inr (dbi, tag) \<Rightarrow> (\<lambda>k. T (dbs ! dbi) (encode_storage_key tag k)))"

definition lmdb_view :: "('e \<Rightarrow> nat \<Rightarrow> table) \<Rightarrow> 'e lmdb_backend \<Rightarrow> disk" where
  "lmdb_view etab s = route_view (lm_dbs s) (etab (lm_env s))"

definition lmdb_ok :: "('e \<Rightarrow> bool) \<Rightarrow> 'e lmdb_backend \<Rightarrow> bool" where
  "lmdb_ok eok s \<longleftrightarrow> eok (lm_env s) \<and> length (lm_dbs s) = 6 \<and> distinct (lm_dbs s)"

section \<open>Routing\<close>

lemma logical_cf_route_bound: "logical_cf_route cf = Inr (dbi, tag) \<Longrightarrow> dbi < 6"
  unfolding logical_cf_route_def by (auto split: if_splits)

text \<open>Two column families share a database only under different tags.\<close>

lemma logical_cf_route_inj:
  assumes "logical_cf_route cf = Inr (dbi, tag)" "logical_cf_route cf' = Inr (dbi, tag')"
    and "encode_storage_key tag k = encode_storage_key tag' k'"
  shows "cf = cf' \<and> k = k'"
  using assms
  by (auto simp: logical_cf_route_def encode_storage_key_def tag_defs split: if_splits)

lemma logical_cf_route_known: "cf \<in> set ALL_COLUMN_FAMILIES \<Longrightarrow> \<exists>r. logical_cf_route cf = Inr r"
  by (auto simp: ALL_COLUMN_FAMILIES_def logical_cf_route_def)

lemma lmdb_route_Inr:
  assumes "length (lm_dbs s) = 6"
  shows "lmdb_route s cf = Inr (db, tag) \<longleftrightarrow>
    (\<exists>dbi. logical_cf_route cf = Inr (dbi, tag) \<and> db = lm_dbs s ! dbi)"
  using assms logical_cf_route_bound [of cf]
  by (auto simp: lmdb_route_def lmdb_db_def split: sum.splits)

lemma route_view_update:
  assumes "length dbs = 6" "distinct dbs" "logical_cf_route cf = Inr (dbi, tag)"
  shows "route_view dbs (T(dbs ! dbi := (T (dbs ! dbi))(encode_storage_key tag k := x)))
       = (route_view dbs T)(cf := (route_view dbs T cf)(k := x))"
proof (intro ext)
  fix cf' k'
  show "route_view dbs (T(dbs ! dbi := (T (dbs ! dbi))(encode_storage_key tag k := x))) cf' k'
      = ((route_view dbs T)(cf := (route_view dbs T cf)(k := x))) cf' k'"
  proof (cases "logical_cf_route cf'")
    case (Inl e)
    with assms show ?thesis by (auto simp: route_view_def)
  next
    case (Inr r)
    then obtain dbi' tag' where r: "logical_cf_route cf' = Inr (dbi', tag')" by (cases r) auto
    have "dbs ! dbi' = dbs ! dbi \<longleftrightarrow> dbi' = dbi"
      using assms r logical_cf_route_bound by (simp add: nth_eq_iff_index_eq)
    with assms r logical_cf_route_inj [OF assms(3), of cf' tag' k k'] show ?thesis
      by (auto simp: route_view_def)
  qed
qed

text \<open>Stripping the tag from the entries under a tagged prefix gives the logical scan.\<close>

lemma scan_tagged:
  assumes "finite (dom m)"
  shows "map (\<lambda>(k, v). (decode_user_key (Some t) k, v)) (scan_entries m (t # p))
       = scan_entries (\<lambda>k. m (t # k)) p" (is "?es = _")
proof (rule scan_entries_eqI)
  let ?ks = "map fst (scan_entries m (t # p))"
  have keys: "map fst ?es = map tl ?ks" by (simp add: decode_user_key_def split_beta comp_def)
  have tagged: "\<exists>q. k = t # q" if "k \<in> set ?ks" for k
    using that assms by (auto simp: keys_scan_entries prefix_def)
  have strict: "sorted_wrt (<) ?ks"
    using sorted_scan_entries distinct_scan_entries by (simp add: strict_sorted_iff)
  have "sorted_wrt (\<lambda>x y. tl x < tl y) ?ks"
  proof (rule sorted_wrt_mono_rel [OF _ strict])
    fix x y
    assume "x \<in> set ?ks" "y \<in> set ?ks" "x < y"
    then show "tl x < tl y" using tagged [of x] tagged [of y] by auto
  qed
  then have "sorted_wrt (<) (map tl ?ks)" by (simp add: sorted_wrt_map)
  then show "sorted (map fst ?es)" "distinct (map fst ?es)"
    by (simp_all only: keys strict_sorted_iff)
  have "set ?es = (\<lambda>(k, v). (tl k, v)) ` {(k, v). m k = Some v \<and> prefix (t # p) k}"
    by (simp add: set_scan_entries [OF assms] decode_user_key_def)
  also have "\<dots> = {(k, v). m (t # k) = Some v \<and> prefix p k}" (is "?f ` ?A = ?B")
  proof (intro set_eqI iffI)
    fix e assume "e \<in> ?f ` ?A"
    then show "e \<in> ?B" by (auto simp: prefix_def)
  next
    fix e assume "e \<in> ?B"
    then show "e \<in> ?f ` ?A" by (intro image_eqI [where x = "(t # fst e, snd e)"]) auto
  qed
  finally show "set ?es = {(k, v). m (t # k) = Some v \<and> prefix p k}" .
qed

lemma lmdb_collect_Inr:
  "lmdb_collect ctx tag items out = Inr es \<longleftrightarrow>
     list_all (Not \<circ> isl) items
     \<and> es = out @ map (\<lambda>(k, v). (decode_user_key tag k, v)) (map projr items)"
  by (induction ctx tag items out rule: lmdb_collect.induct) auto

lemma try_heed_Inr [simp]: "try_heed ctx r f = Inr x \<longleftrightarrow> (\<exists>y. r = Inr y \<and> f y = Inr x)"
  by (cases r) (auto simp: try_heed_def)

section \<open>The backend satisfies the contract\<close>

lemmas lmdb_op_defs = lmdb_ops_def lmdb_get_def lmdb_put_def lmdb_delete_def
  lmdb_batch_write_def lmdb_prefix_scan_def lmdb_flush_def lmdb_compact_def with_rotxn_def
  lmdb_commit_def

context heed_engine
begin

lemma route_put:
  assumes "wok w" "length dbs = 6" "distinct dbs" "logical_cf_route cf = Inr (dbi, tag)"
    and "heed_put H w (dbs ! dbi) (encode_storage_key tag k) x = Inr w'"
  shows "wok w' \<and> route_view dbs (wtab w') = apply_op (Put cf k x) (route_view dbs (wtab w))"
  using engine_put [OF assms(1,5)] route_view_update [OF assms(2-4)] by simp

lemma route_delete:
  assumes "wok w" "length dbs = 6" "distinct dbs" "logical_cf_route cf = Inr (dbi, tag)"
    and "heed_delete H w (dbs ! dbi) (encode_storage_key tag k) = Inr (b, w')"
  shows "wok w' \<and> route_view dbs (wtab w') = apply_op (Delete cf k) (route_view dbs (wtab w))"
  using engine_delete [OF assms(1,5)] route_view_update [OF assms(2-4)] by simp

lemma route_batch:
  assumes "wok w" "length (lm_dbs s) = 6" "distinct (lm_dbs s)" "lmdb_batch_ops H s b w = Inr w'"
  shows "wok w' \<and> route_view (lm_dbs s) (wtab w') = apply_ops b (route_view (lm_dbs s) (wtab w))"
  using assms(1,4)
proof (induction b arbitrary: w)
  case Nil
  then show ?case by simp
next
  case (Cons x b)
  show ?case
  proof (cases x)
    case (Put cf k v)
    with Cons.prems obtain dbi tag w1 where *: "logical_cf_route cf = Inr (dbi, tag)"
      "heed_put H w (lm_dbs s ! dbi) (encode_storage_key tag k) v = Inr w1"
      "lmdb_batch_ops H s b w1 = Inr w'"
      by (auto simp: lmdb_route_Inr [OF assms(2)] split: sum.splits)
    from route_put [OF Cons.prems(1) assms(2,3) *(1,2), folded Put] Cons.IH [OF _ *(3)]
    show ?thesis by simp
  next
    case (Delete cf k)
    with Cons.prems obtain dbi tag e w1 where *: "logical_cf_route cf = Inr (dbi, tag)"
      "heed_delete H w (lm_dbs s ! dbi) (encode_storage_key tag k) = Inr (e, w1)"
      "lmdb_batch_ops H s b w1 = Inr w'"
      by (auto simp: lmdb_route_Inr [OF assms(2)] split: sum.splits)
    from route_delete [OF Cons.prems(1) assms(2,3) *(1,2), folded Delete] Cons.IH [OF _ *(3)]
    show ?thesis by simp
  qed
qed

end

sublocale heed_engine \<subseteq> lmdb: storage_backend "lmdb_ops H" "lmdb_view etab" "lmdb_ok eok"
proof (unfold_locales, goal_cases)
  case (1 s cf k r)
  then have "length (lm_dbs s) = 6" "eok (lm_env s)" by (auto simp: lmdb_ok_def)
  moreover from this 1 obtain dbi tag rt where "logical_cf_route cf = Inr (dbi, tag)"
      "heed_read_txn H (lm_env s) = Inr rt"
      "heed_get H rt (lm_dbs s ! dbi) (encode_storage_key tag k) = Inr r"
    by (auto simp: lmdb_op_defs lmdb_route_Inr split: sum.splits)
  ultimately show ?case
    using engine_read_txn [of "lm_env s" rt] engine_get [of rt]
    by (simp add: lmdb_view_def route_view_def)
next
  case (2 s cf k v s')
  then have ok: "length (lm_dbs s) = 6" "distinct (lm_dbs s)" "eok (lm_env s)"
    by (auto simp: lmdb_ok_def)
  with 2 obtain dbi tag w w' e' where *: "logical_cf_route cf = Inr (dbi, tag)"
      "heed_write_txn H (lm_env s) = Inr w"
      "heed_put H w (lm_dbs s ! dbi) (encode_storage_key tag k) v = Inr w'"
      "heed_commit H w' = Inr e'" "s' = s\<lparr>lm_env := e'\<rparr>"
    by (auto simp: lmdb_op_defs lmdb_route_Inr split: sum.splits)
  with ok engine_write_txn [OF ok(3) *(2)] route_put [OF _ ok(1,2) *(1,3)] engine_commit [OF _ *(4)]
  show ?case by (simp add: lmdb_ok_def lmdb_view_def)
next
  case (3 s cf k s')
  then have ok: "length (lm_dbs s) = 6" "distinct (lm_dbs s)" "eok (lm_env s)"
    by (auto simp: lmdb_ok_def)
  with 3 obtain dbi tag w b w' e' where *: "logical_cf_route cf = Inr (dbi, tag)"
      "heed_write_txn H (lm_env s) = Inr w"
      "heed_delete H w (lm_dbs s ! dbi) (encode_storage_key tag k) = Inr (b, w')"
      "heed_commit H w' = Inr e'" "s' = s\<lparr>lm_env := e'\<rparr>"
    by (auto simp: lmdb_op_defs lmdb_route_Inr split: sum.splits)
  with ok engine_write_txn [OF ok(3) *(2)] route_delete [OF _ ok(1,2) *(1,3)]
    engine_commit [OF _ *(4)]
  show ?case by (simp add: lmdb_ok_def lmdb_view_def)
next
  case (4 s b s')
  then have ok: "length (lm_dbs s) = 6" "distinct (lm_dbs s)" "eok (lm_env s)"
    by (auto simp: lmdb_ok_def)
  show ?case
  proof (cases "b = []")
    case True
    with 4 show ?thesis by (simp add: lmdb_op_defs batch_is_empty_def)
  next
    case False
    with 4 obtain w w' e' where *: "heed_write_txn H (lm_env s) = Inr w"
        "lmdb_batch_ops H s b w = Inr w'" "heed_commit H w' = Inr e'" "s' = s\<lparr>lm_env := e'\<rparr>"
      by (auto simp: lmdb_op_defs batch_is_empty_def try_eq_Inr)
    with ok engine_write_txn [OF ok(3) *(1)] route_batch [OF _ ok(1,2) *(2)]
      engine_commit [OF _ *(3)]
    show ?thesis by (simp add: lmdb_ok_def lmdb_view_def)
  qed
next
  case (5 s cf p es)
  then have ok: "length (lm_dbs s) = 6" "eok (lm_env s)" by (auto simp: lmdb_ok_def)
  with 5 obtain dbi tag rt where r: "logical_cf_route cf = Inr (dbi, tag)"
      "heed_read_txn H (lm_env s) = Inr rt"
    by (auto simp: lmdb_op_defs lmdb_route_Inr split: sum.splits)
  have fin: "finite (dom (rtab rt db))" for db
    using engine_finite [OF ok(2)] engine_read_txn [OF ok(2) r(2)] by simp
  have strip: "map (\<lambda>(k, v). (decode_user_key None k, v)) xs = xs" for xs :: "kv_pair list"
    by (induction xs) (auto simp: decode_user_key_def)
  have rt: "rok rt" "etab (lm_env s) = rtab rt" using engine_read_txn [OF ok(2) r(2)] by auto
  from 5 ok r show ?case
    by (auto simp: lmdb_op_defs lmdb_route_Inr lmdb_collect_Inr lmdb_view_def route_view_def
        encode_storage_key_def rt(2) scan_tagged [OF fin] strip comp_def
        dest!: engine_prefix_iter [OF rt(1)] engine_iter [OF rt(1)]
        split: sum.splits option.splits if_splits)
next
  case (6 s s')
  then show ?case using engine_force_sync by (auto simp: lmdb_op_defs lmdb_ok_def lmdb_view_def)
next
  case (7 s cf s')
  then show ?case by (auto simp: lmdb_op_defs)
next
  case (8 s cf)
  have inj: "inj (encode_storage_key tag)" for tag
    by (auto simp: inj_def encode_storage_key_def split: option.splits)
  have "finite (dom (\<lambda>k. etab (lm_env s) db (encode_storage_key tag k)))" for db tag
    using finite_vimageI [OF engine_finite [of "lm_env s" db] inj [of tag]] 8
    by (simp add: lmdb_ok_def vimage_def dom_def)
  then show ?case by (auto simp: lmdb_view_def route_view_def split: sum.splits)
qed

context heed_engine
begin

lemma lmdb_contract: "storage_backend (lmdb_ops H) (lmdb_view etab) (lmdb_ok eok)"
  by (rule lmdb.storage_backend_axioms)

end

text \<open>Where the engine's calls succeed on keys of legal length, so do the backend's.\<close>

locale reliable_heed_engine = heed_engine +
  assumes read_txn_total: "eok e \<Longrightarrow> \<exists>rt. heed_read_txn H e = Inr rt"
    and write_txn_total: "eok e \<Longrightarrow> \<exists>w. heed_write_txn H e = Inr w"
    and engine_get_total: "k \<noteq> [] \<Longrightarrow> length k \<le> 511 \<Longrightarrow> \<exists>v. heed_get H rt db k = Inr v"
    and engine_put_total: "wok w \<Longrightarrow> k \<noteq> [] \<Longrightarrow> length k \<le> 511 \<Longrightarrow> \<exists>w'. heed_put H w db k x = Inr w'"
    and engine_delete_total: "wok w \<Longrightarrow> k \<noteq> [] \<Longrightarrow> length k \<le> 511 \<Longrightarrow>
      \<exists>b w'. heed_delete H w db k = Inr (b, w')"
    and engine_commit_total: "wok w \<Longrightarrow> \<exists>e'. heed_commit H w = Inr e'"
    and engine_prefix_total: "p \<noteq> [] \<Longrightarrow> length p \<le> 511 \<Longrightarrow>
      \<exists>items. heed_prefix_iter H rt db p = Inr items \<and> list_all (Not \<circ> isl) items"
    and engine_iter_total: "\<exists>items. heed_iter H rt db = Inr items \<and> list_all (Not \<circ> isl) items"
begin

lemma batch_ops_total:
  assumes "wok w" "length (lm_dbs s) = 6" "list_all op_ok b"
  shows "\<exists>w'. lmdb_batch_ops H s b w = Inr w' \<and> wok w'"
  using assms(1,3)
proof (induction b arbitrary: w)
  case Nil
  then show ?case by simp
next
  case (Cons x b)
  then obtain dbi tag where r: "logical_cf_route (op_cf x) = Inr (dbi, tag)"
    using logical_cf_route_known by (fastforce simp: op_ok_def)
  let ?k = "encode_storage_key tag (op_key x)"
  have k: "?k \<noteq> []" "length ?k \<le> 511"
    using Cons.prems(2) by (auto simp: op_ok_def key_ok_def encode_storage_key_def split: option.splits)
  have route: "lmdb_route s (op_cf x) = Inr (lm_dbs s ! dbi, tag)"
    using r lmdb_route_Inr [OF assms(2)] by blast
  show ?case
  proof (cases x)
    case (Put cf key v)
    obtain w1 where "heed_put H w (lm_dbs s ! dbi) ?k v = Inr w1"
      using engine_put_total [OF Cons.prems(1) k] by blast
    with Cons engine_put [OF Cons.prems(1) this] route Put show ?thesis by (auto simp: try_heed_def)
  next
    case (Delete cf key)
    obtain e w1 where "heed_delete H w (lm_dbs s ! dbi) ?k = Inr (e, w1)"
      using engine_delete_total [OF Cons.prems(1) k] by blast
    with Cons engine_delete [OF Cons.prems(1) this] route Delete show ?thesis
      by (auto simp: try_heed_def)
  qed
qed

lemma route_total:
  assumes "lmdb_ok eok s" "cf \<in> set ALL_COLUMN_FAMILIES"
  obtains db tag where "lmdb_route s cf = Inr (db, tag)"
proof -
  obtain dbi tag where "logical_cf_route cf = Inr (dbi, tag)"
    using logical_cf_route_known [OF assms(2)] by auto
  moreover have "length (lm_dbs s) = 6" using assms(1) by (simp add: lmdb_ok_def)
  ultimately show thesis using that lmdb_route_Inr by blast
qed

end

lemma encode_storage_key_ok:
  "key_ok k \<Longrightarrow> encode_storage_key tag k \<noteq> [] \<and> length (encode_storage_key tag k) \<le> 511"
  by (auto simp: key_ok_def encode_storage_key_def split: option.splits)

sublocale reliable_heed_engine \<subseteq> lmdb: reliable_backend "lmdb_ops H" "lmdb_view etab" "lmdb_ok eok"
proof (unfold_locales, goal_cases)
  case (1 s cf k)
  obtain db tag where r: "lmdb_route s cf = Inr (db, tag)" using route_total [OF 1(1,2)] .
  obtain rt where "heed_read_txn H (lm_env s) = Inr rt"
    using 1(1) read_txn_total by (auto simp: lmdb_ok_def)
  moreover obtain v where "heed_get H rt db (encode_storage_key tag k) = Inr v"
    using engine_get_total encode_storage_key_ok [OF 1(3)] by blast
  ultimately show ?case using r by (simp add: lmdb_op_defs try_heed_def)
next
  case (2 s cf k v)
  obtain db tag where r: "lmdb_route s cf = Inr (db, tag)" using route_total [OF 2(1,2)] .
  obtain w where w: "heed_write_txn H (lm_env s) = Inr w" "wok w"
    using 2(1) write_txn_total engine_write_txn by (meson lmdb_ok_def)
  moreover obtain w' where w': "heed_put H w db (encode_storage_key tag k) v = Inr w'" "wok w'"
    using engine_put_total [OF w(2)] engine_put [OF w(2)] encode_storage_key_ok [OF 2(3)] by meson
  moreover obtain e' where "heed_commit H w' = Inr e'" using engine_commit_total [OF w'(2)] by blast
  ultimately show ?case using r by (simp add: lmdb_op_defs try_heed_def)
next
  case (3 s cf k)
  obtain db tag where r: "lmdb_route s cf = Inr (db, tag)" using route_total [OF 3(1,2)] .
  obtain w where w: "heed_write_txn H (lm_env s) = Inr w" "wok w"
    using 3(1) write_txn_total engine_write_txn by (meson lmdb_ok_def)
  moreover obtain b w' where w': "heed_delete H w db (encode_storage_key tag k) = Inr (b, w')" "wok w'"
    using engine_delete_total [OF w(2)] engine_delete [OF w(2)] encode_storage_key_ok [OF 3(3)] by meson
  moreover obtain e' where "heed_commit H w' = Inr e'" using engine_commit_total [OF w'(2)] by blast
  ultimately show ?case using r by (simp add: lmdb_op_defs try_heed_def)
next
  case (4 s b)
  obtain w where w: "heed_write_txn H (lm_env s) = Inr w" "wok w"
    using 4(1) write_txn_total engine_write_txn by (meson lmdb_ok_def)
  obtain w' where w': "lmdb_batch_ops H s b w = Inr w'" "wok w'"
    using batch_ops_total [OF w(2) _ 4(2)] 4(1) by (auto simp: lmdb_ok_def)
  obtain e' where "heed_commit H w' = Inr e'" using engine_commit_total [OF w'(2)] by blast
  with w w' show ?case by (simp add: lmdb_op_defs try_heed_def)
next
  case (5 s cf p)
  obtain db tag where r: "lmdb_route s cf = Inr (db, tag)" using route_total [OF 5(1,2)] .
  obtain rt where rt: "heed_read_txn H (lm_env s) = Inr rt"
    using 5(1) read_txn_total by (auto simp: lmdb_ok_def)
  have collect: "\<exists>es. lmdb_collect ctx t items [] = Inr es" if "list_all (Not \<circ> isl) items" for ctx t items
    using that lmdb_collect_Inr by blast
  have len: "length (encode_storage_key tag p) \<le> 511"
    using 5(3) by (simp add: prefix_ok_def encode_storage_key_def split: option.splits)
  show ?case
  proof (cases "encode_storage_key tag p = []")
    case True
    then have "tag = None" "p = []" by (auto simp: encode_storage_key_def split: option.splits)
    with r rt engine_iter_total [of rt db] collect show ?thesis
      by (fastforce simp: lmdb_op_defs try_heed_def)
  next
    case False
    with engine_prefix_total [OF _ len] obtain items
      where "heed_prefix_iter H rt db (encode_storage_key tag p) = Inr items"
        "list_all (Not \<circ> isl) items" by blast
    with False r rt collect [of items] show ?thesis
      by (cases tag) (auto simp: lmdb_op_defs try_heed_def encode_storage_key_def)
  qed
qed

section \<open>An engine of ordered tables\<close>

text \<open>
  The named databases are numbered; a transaction is a copy of the tables. Keys are checked
  against LMDB's length limits.
\<close>

definition heed_key_ok :: "bytes \<Rightarrow> bool" where
  "heed_key_ok k \<longleftrightarrow> k \<noteq> [] \<and> length k \<le> 511"

type_synonym heed_tables = "nat \<Rightarrow> ordered_table"

definition mem_heed :: "(heed_tables, heed_tables, heed_tables) heed" where
  "mem_heed =
     \<lparr>heed_open = (\<lambda>_ _ _. Inr (\<lambda>_. [])),
      heed_create_database = (\<lambda>w name. Inr (length (takeWhile (\<lambda>n. n \<noteq> name) LMDB_NAMED_DATABASES), w)),
      heed_read_txn = Inr,
      heed_write_txn = Inr,
      heed_get = (\<lambda>d db k. if heed_key_ok k then Inr (map_of (d db) k) else Inl (HeedOther ''MDB_BAD_VALSIZE'')),
      heed_put = (\<lambda>d db k v. if heed_key_ok k then Inr (d(db := ot_put k v (d db)))
                             else Inl (HeedOther ''MDB_BAD_VALSIZE'')),
      heed_delete = (\<lambda>d db k. if heed_key_ok k
                              then Inr (map_of (d db) k \<noteq> None, d(db := ot_delete k (d db)))
                              else Inl (HeedOther ''MDB_BAD_VALSIZE'')),
      heed_commit = Inr,
      heed_prefix_iter = (\<lambda>d db p. Inr (map Inr (ot_prefix p (d db)))),
      heed_iter = (\<lambda>d db. Inr (map Inr (d db))),
      heed_force_sync = Inr\<rparr>"

definition heed_tab :: "heed_tables \<Rightarrow> nat \<Rightarrow> table" where
  "heed_tab d db = map_of (d db)"

definition heed_ok :: "heed_tables \<Rightarrow> bool" where
  "heed_ok d \<longleftrightarrow> (\<forall>db. ot_ok (d db))"

lemma heed_tab_put:
  "heed_ok d \<Longrightarrow> heed_ok (d(db := ot_put k v (d db)))
     \<and> heed_tab (d(db := ot_put k v (d db))) = (heed_tab d)(db := (heed_tab d db)(k \<mapsto> v))"
  by (auto simp: heed_ok_def heed_tab_def fun_eq_iff ot_ok_put map_of_ot_put)

lemma heed_tab_delete:
  "heed_ok d \<Longrightarrow> heed_ok (d(db := ot_delete k (d db)))
     \<and> heed_tab (d(db := ot_delete k (d db))) = (heed_tab d)(db := (heed_tab d db)(k := None))"
  by (auto simp: heed_ok_def heed_tab_def fun_eq_iff map_of_ot_delete ot_delete_def [symmetric]
      intro: ot_ok_filter [of _ "\<lambda>e. fst e \<noteq> _", folded ot_delete_def])

interpretation mem_heed: reliable_heed_engine mem_heed heed_tab heed_tab heed_tab heed_ok heed_ok heed_ok
proof (unfold_locales, goal_cases)
  case 4
  then show ?case using heed_tab_put by (auto simp: mem_heed_def split: if_splits)
next
  case 5
  then show ?case using heed_tab_delete by (auto simp: mem_heed_def split: if_splits)
next
  case (7 rt db p items)
  then show ?case by (auto simp: mem_heed_def heed_tab_def heed_ok_def ot_prefix_scan)
next
  case (8 rt db items)
  then show ?case using ot_all_scan [of "rt db"] by (auto simp: mem_heed_def heed_tab_def heed_ok_def)
qed (auto simp: mem_heed_def heed_tab_def heed_ok_def heed_key_ok_def list_all_iff finite_dom_map_of
    split: if_splits)

end
