(* ===== verification/Backends.thy ===== *)
theory Backends
  imports Rocksdb Lmdb
begin

text \<open>
  \<open>open_storage_backend\<close> of \<open>src/src/storage/mod.rs\<close>, the boxed backend it returns, and the
  properties of the two backends: each keeps the storage contract under the documented behaviour
  of its engine, and a client cannot tell them apart.
\<close>

section \<open>Opening a backend\<close>

text \<open>
  \<open>Box<dyn StorageBackend>\<close>. The first Boolean is the feature \<open>rocksdb-storage\<close>, the second
  \<open>lmdb-storage\<close>; \<open>None\<close> is a panic.
\<close>

datatype ('d, 'e) boxed = RocksBox 'd | LmdbBox "'e lmdb_backend"

definition open_storage_backend ::
  "bool \<Rightarrow> bool \<Rightarrow> 'd rocks_db \<Rightarrow> ('e, 'r, 'w) heed \<Rightarrow> (string \<Rightarrow> string + unit)
    \<Rightarrow> storage_engine \<Rightarrow> coin_store_config \<Rightarrow> (storage_error + ('d, 'e) boxed) option" where
  "open_storage_backend rocks lmdb G H mkdir engine config =
     (case engine of
        RocksDb \<Rightarrow>
          if rocks then map_option (map_sum id RocksBox) (rocks_open G config)
          else Some (Inl (BackendError
            (''dig-coinstore: StorageBackend::RocksDb requested for path '' @ storage_path config
             @ '' but this build does not include `rocksdb-storage` (rebuild with ''
             @ ''`--features rocksdb-storage` or `full-storage`).'')))
      | storage_engine.Lmdb \<Rightarrow>
          if lmdb then Some (map_sum id LmdbBox (lmdb_open H mkdir config))
          else Some (Inl (BackendError
            (''dig-coinstore: StorageBackend::Lmdb requested for path '' @ storage_path config
             @ '' but this build does not include `lmdb-storage` (rebuild with ''
             @ ''`--features lmdb-storage` or `full-storage`).''))))"

text \<open>Dynamic dispatch.\<close>

definition boxed_ops :: "'d rocks_db \<Rightarrow> ('e, 'r, 'w) heed \<Rightarrow> ('d, 'e) boxed storage_ops" where
  "boxed_ops G H =
     \<lparr>kv_get = (\<lambda>s cf k. case s of
          RocksBox d \<Rightarrow> rocks_get G d cf k | LmdbBox l \<Rightarrow> lmdb_get H l cf k),
      kv_put = (\<lambda>s cf k v. case s of
          RocksBox d \<Rightarrow> map_sum id RocksBox (rocks_put G d cf k v)
        | LmdbBox l \<Rightarrow> map_sum id LmdbBox (lmdb_put H l cf k v)),
      kv_delete = (\<lambda>s cf k. case s of
          RocksBox d \<Rightarrow> map_sum id RocksBox (rocks_delete G d cf k)
        | LmdbBox l \<Rightarrow> map_sum id LmdbBox (lmdb_delete H l cf k)),
      kv_batch_write = (\<lambda>s b. case s of
          RocksBox d \<Rightarrow> map_sum id RocksBox (rocks_batch_write G d b)
        | LmdbBox l \<Rightarrow> map_sum id LmdbBox (lmdb_batch_write H l b)),
      kv_prefix_scan = (\<lambda>s cf p. case s of
          RocksBox d \<Rightarrow> rocks_prefix_scan G d cf p | LmdbBox l \<Rightarrow> lmdb_prefix_scan H l cf p),
      kv_flush = (\<lambda>s. case s of
          RocksBox d \<Rightarrow> map_sum id RocksBox (rocks_flush G d)
        | LmdbBox l \<Rightarrow> map_sum id LmdbBox (lmdb_flush H l)),
      kv_compact = (\<lambda>s cf. case s of
          RocksBox d \<Rightarrow> map_sum id RocksBox (rocks_compact G d cf)
        | LmdbBox l \<Rightarrow> map_sum id LmdbBox (lmdb_compact l cf))\<rparr>"

definition boxed_view ::
  "'d rocks_db \<Rightarrow> ('d \<Rightarrow> nat \<Rightarrow> table) \<Rightarrow> ('e \<Rightarrow> nat \<Rightarrow> table) \<Rightarrow> ('d, 'e) boxed \<Rightarrow> disk" where
  "boxed_view G tab etab s =
     (case s of RocksBox d \<Rightarrow> rocks_view G tab d | LmdbBox l \<Rightarrow> lmdb_view etab l)"

definition boxed_ok :: "('d \<Rightarrow> bool) \<Rightarrow> ('e \<Rightarrow> bool) \<Rightarrow> ('d, 'e) boxed \<Rightarrow> bool" where
  "boxed_ok opened eok s \<longleftrightarrow> (case s of RocksBox d \<Rightarrow> opened d | LmdbBox l \<Rightarrow> lmdb_ok eok l)"

locale both_engines = reliable_rocks_engine G tab opened + reliable_heed_engine H etab rtab wtab eok rok wok
  for G :: "'d rocks_db" and tab opened
    and H :: "('e, 'r, 'w) heed" and etab rtab wtab eok rok wok

lemma map_sum_Inr [simp]: "map_sum id f r = Inr y \<longleftrightarrow> (\<exists>x. r = Inr x \<and> y = f x)"
  by (cases r) auto

lemmas boxed_defs = boxed_ops_def boxed_view_def boxed_ok_def

sublocale both_engines \<subseteq> boxed: reliable_backend "boxed_ops G H" "boxed_view G tab etab" "boxed_ok opened eok"
proof (unfold_locales, goal_cases)
  case (1 s) then show ?case
    using rocks.get_view lmdb.get_view by (cases s) (auto simp: boxed_defs rocks_backend_def lmdb_ops_def)
next
  case (2 s) then show ?case
    using rocks.put_view lmdb.put_view by (cases s) (auto simp: boxed_defs rocks_backend_def lmdb_ops_def)
next
  case (3 s) then show ?case
    using rocks.delete_view lmdb.delete_view by (cases s) (auto simp: boxed_defs rocks_backend_def lmdb_ops_def)
next
  case (4 s) then show ?case
    using rocks.batch_view lmdb.batch_view by (cases s) (auto simp: boxed_defs rocks_backend_def lmdb_ops_def)
next
  case (5 s) then show ?case
    using rocks.scan_view lmdb.scan_view by (cases s) (auto simp: boxed_defs rocks_backend_def lmdb_ops_def)
next
  case (6 s) then show ?case
    using rocks.flush_view lmdb.flush_view by (cases s) (auto simp: boxed_defs rocks_backend_def lmdb_ops_def)
next
  case (7 s) then show ?case
    using rocks.compact_view lmdb.compact_view by (cases s) (auto simp: boxed_defs rocks_backend_def lmdb_ops_def)
next
  case (8 s) then show ?case
    using rocks.view_finite lmdb.view_finite by (cases s) (auto simp: boxed_defs)
next
  case (9 s) then show ?case
    using rocks.get_total lmdb.get_total by (cases s) (auto simp: boxed_defs rocks_backend_def lmdb_ops_def)
next
  case (10 s) then show ?case
    using rocks.put_total lmdb.put_total by (cases s) (auto simp: boxed_defs rocks_backend_def lmdb_ops_def)
next
  case (11 s) then show ?case
    using rocks.delete_total lmdb.delete_total by (cases s) (auto simp: boxed_defs rocks_backend_def lmdb_ops_def)
next
  case (12 s) then show ?case
    using rocks.batch_total lmdb.batch_total by (cases s) (auto simp: boxed_defs rocks_backend_def lmdb_ops_def)
next
  case (13 s) then show ?case
    using rocks.scan_total lmdb.scan_total by (cases s) (auto simp: boxed_defs rocks_backend_def lmdb_ops_def)
qed

context both_engines
begin

lemma contracts:
  "reliable_backend (rocks_backend G) (rocks_view G tab) opened
   \<and> reliable_backend (lmdb_ops H) (lmdb_view etab) (lmdb_ok eok)"
  using rocks.reliable_backend_axioms lmdb.reliable_backend_axioms by blast

end

interpretation mem_engines: both_engines mem_rocks mem_tab mem_ok
  mem_heed heed_tab heed_tab heed_tab heed_ok heed_ok heed_ok
  by unfold_locales

section \<open>Properties\<close>

lemma column_family_descriptor_sel:
  fixes config :: coin_store_config
  assumes "position cf ALL_COLUMN_FAMILIES = Some idx"
  defines "d \<equiv> the (column_family_descriptor cf config)"
  shows "column_family_descriptor cf config = Some d" "fst d = cf"
    "o_write_buffer_size (snd d) = Some (STO002_ROCKS_WRITE_BUFFER_BYTES ! idx)"
    "o_max_write_buffer_number (snd d) = Some (STO006_ROCKS_MAX_WRITE_BUFFER_NUMBER ! idx)"
    "o_fixed_prefix (snd d) = (if cf_uses_fixed_prefix_32 cf then Some 32 else None)"
    "\<not> bloom_filter config \<Longrightarrow> o_bloom_filter (snd d) = None"
    "o_compaction_style (snd d) = Some (sto006_compaction_style_for_cf cf)"
  using assms
  by (auto simp: column_family_descriptor_def Let_def sto004_bloom_plan_for_column_family_def
      sto006_apply_fifo_compaction_options_def sto006_apply_level_compaction_options_def
      cf_options_default_def split: option.splits sto006_compaction_style.splits bloom_profile.splits)

lemma position_column_families:
  "position CF_COIN_RECORDS ALL_COLUMN_FAMILIES = Some 0"
  "position CF_COIN_BY_PUZZLE_HASH ALL_COLUMN_FAMILIES = Some 1"
  "position CF_UNSPENT_BY_PUZZLE_HASH ALL_COLUMN_FAMILIES = Some 2"
  "position CF_COIN_BY_PARENT ALL_COLUMN_FAMILIES = Some 3"
  "position CF_COIN_BY_CONFIRMED_HEIGHT ALL_COLUMN_FAMILIES = Some 4"
  "position CF_COIN_BY_SPENT_HEIGHT ALL_COLUMN_FAMILIES = Some 5"
  "position CF_HINTS ALL_COLUMN_FAMILIES = Some 6"
  "position CF_HINTS_BY_VALUE ALL_COLUMN_FAMILIES = Some 7"
  "position CF_MERKLE_NODES ALL_COLUMN_FAMILIES = Some 8"
  "position CF_ARCHIVE_COIN_RECORDS ALL_COLUMN_FAMILIES = Some 9"
  "position CF_STATE_SNAPSHOTS ALL_COLUMN_FAMILIES = Some 10"
  "position CF_METADATA ALL_COLUMN_FAMILIES = Some 11"
  by (simp_all add: ALL_COLUMN_FAMILIES_def)

lemmas descriptor_names = position_column_families [THEN column_family_descriptor_sel(2)]
lemmas descriptor_prefixes = position_column_families [THEN column_family_descriptor_sel(5)]
lemmas descriptor_blooms = position_column_families [THEN column_family_descriptor_sel(6)]
lemmas descriptor_styles = position_column_families [THEN column_family_descriptor_sel(7)]

lemmas descriptor_write_buffers = position_column_families [THEN column_family_descriptor_sel(3),
    unfolded STO002_ROCKS_WRITE_BUFFER_BYTES_def, simplified]

lemmas descriptor_buffer_numbers = position_column_families [THEN column_family_descriptor_sel(4),
    unfolded STO006_ROCKS_MAX_WRITE_BUFFER_NUMBER_def, simplified]

text \<open>
  Opening RocksDB never panics on the option tables: it passes one descriptor per column
  family, in schema order, with the write-buffer size and number of its row; the 32-byte prefix
  extractor is set exactly on the families whose keys start with a puzzle hash or a hint; a
  bloom filter is never set when the configuration disables it; and FIFO compaction, which RocksDB
  accepts only with \<open>max_open_files\<close> at -1, is used with exactly that setting.
\<close>

theorem rocks_open_options:
  "\<exists>ds. rocks_open G config = Some (map_backend_err ''Failed to open RocksDB: ''
           (rdb_open_cf_descriptors G (db_options_for_open config) (storage_path config) ds))
     \<and> map fst ds = ALL_COLUMN_FAMILIES
     \<and> map (o_write_buffer_size \<circ> snd) ds = map Some STO002_ROCKS_WRITE_BUFFER_BYTES
     \<and> map (o_max_write_buffer_number \<circ> snd) ds = map Some STO006_ROCKS_MAX_WRITE_BUFFER_NUMBER
     \<and> map fst (filter (\<lambda>d. o_fixed_prefix (snd d) = Some 32) ds)
         = [CF_COIN_BY_PUZZLE_HASH, CF_UNSPENT_BY_PUZZLE_HASH, CF_HINTS_BY_VALUE]
     \<and> (bloom_filter config \<or> list_all (\<lambda>d. o_bloom_filter (snd d) = None) ds)
     \<and> map fst (filter (\<lambda>d. o_compaction_style (snd d) = Some Fifo) ds)
         = [CF_ARCHIVE_COIN_RECORDS, CF_STATE_SNAPSHOTS]
     \<and> max_open_files (db_options_for_open config) = -1"
proof -
  let ?ds = "map (\<lambda>name. the (column_family_descriptor name config)) ALL_COLUMN_FAMILIES"
  have "those (map (\<lambda>name. column_family_descriptor name config) ns)
      = Some (map (\<lambda>name. the (column_family_descriptor name config)) ns)"
    if "set ns \<subseteq> set ALL_COLUMN_FAMILIES" for ns
    using that
  proof (induction ns)
    case (Cons n ns)
    then obtain idx where "position n ALL_COLUMN_FAMILIES = Some idx" using position_mem by fastforce
    with Cons column_family_descriptor_sel(1) [of n idx config] show ?case
      by (cases "column_family_descriptor n config") auto
  qed simp
  then have "rocks_open G config = Some (map_backend_err ''Failed to open RocksDB: ''
           (rdb_open_cf_descriptors G (db_options_for_open config) (storage_path config) ?ds))"
    by (simp add: rocks_open_def)
  moreover have "map fst ?ds = ALL_COLUMN_FAMILIES"
    unfolding ALL_COLUMN_FAMILIES_def by (simp only: list.map descriptor_names)
  moreover have "map (o_write_buffer_size \<circ> snd) ?ds = map Some STO002_ROCKS_WRITE_BUFFER_BYTES"
    unfolding ALL_COLUMN_FAMILIES_def STO002_ROCKS_WRITE_BUFFER_BYTES_def
    by (simp only: list.map comp_apply descriptor_write_buffers) simp
  moreover have
    "map (o_max_write_buffer_number \<circ> snd) ?ds = map Some STO006_ROCKS_MAX_WRITE_BUFFER_NUMBER"
    unfolding ALL_COLUMN_FAMILIES_def STO006_ROCKS_MAX_WRITE_BUFFER_NUMBER_def
    by (simp only: list.map comp_apply descriptor_buffer_numbers)
  moreover have "map fst (filter (\<lambda>d. o_fixed_prefix (snd d) = Some 32) ?ds)
         = [CF_COIN_BY_PUZZLE_HASH, CF_UNSPENT_BY_PUZZLE_HASH, CF_HINTS_BY_VALUE]"
    unfolding ALL_COLUMN_FAMILIES_def list.map
    by (simp add: descriptor_names descriptor_prefixes cf_uses_fixed_prefix_32_def)
  moreover have "map fst (filter (\<lambda>d. o_compaction_style (snd d) = Some Fifo) ?ds)
         = [CF_ARCHIVE_COIN_RECORDS, CF_STATE_SNAPSHOTS]"
    unfolding ALL_COLUMN_FAMILIES_def list.map
    by (simp add: descriptor_names descriptor_styles sto006_compaction_style_for_cf_def)
  moreover have "bloom_filter config \<or> list_all (\<lambda>d. o_bloom_filter (snd d) = None) ?ds"
    unfolding ALL_COLUMN_FAMILIES_def list.map
    by (cases "bloom_filter config") (simp_all add: descriptor_blooms)
  moreover have "max_open_files (db_options_for_open config) = -1"
    by (simp add: db_options_for_open_def)
  ultimately show ?thesis by (intro exI [of _ ?ds] conjI)
qed

text \<open>The empty engines, for witnesses.\<close>

definition no_tables :: tables where
  "no_tables = (\<lambda>_. [])"

definition no_lmdb :: "heed_tables lmdb_backend" where
  "no_lmdb = \<lparr>lm_env = (\<lambda>_. []), lm_dbs = [0, 1, 2, 3, 4, 5]\<rparr>"

lemma no_tables_view [simp]: "mem_ok no_tables" "rocks_view mem_rocks mem_tab no_tables = (\<lambda>_. Map.empty)"
  by (auto simp: no_tables_def mem_ok_def rocks_view_def cf_view_def mem_tab_def fun_eq_iff
      split: option.splits)

lemma no_lmdb_view [simp]: "lmdb_ok heed_ok no_lmdb" "lmdb_view heed_tab no_lmdb = (\<lambda>_. Map.empty)"
  by (auto simp: no_lmdb_def lmdb_ok_def heed_ok_def lmdb_view_def route_view_def heed_tab_def
      fun_eq_iff split: sum.splits)

text \<open>
  The RocksDB prefix scan returns exactly the entries of the column family whose key extends
  the prefix, in ascending key order, although it reads them through an iterator that may run
  past the prefix or stop behind it; every unknown column family is refused by name.
\<close>

theorem rocks_prefix_scan_exact:
  assumes "reliable_rocks_engine G tab opened" "opened d"
  shows "rocks_prefix_scan G d cf p =
    (if rdb_cf_handle G d cf = None then Inl (UnknownColumnFamily cf)
     else Inr (scan_entries (rocks_view G tab d cf) p))"
proof (cases "rdb_cf_handle G d cf")
  case None
  then show ?thesis by (simp add: rocks_prefix_scan_def rocks_cf_handle_def)
next
  case (Some h)
  from assms(1) have "rocks_engine G tab opened" by (rule reliable_rocks_engine.axioms)
  from rocks_engine.engine_iterator [OF this assms(2)]
  have it: "iterates (tab d h) p (rdb_iterator_from G d h p)" .
  obtain es where "rocks_collect p (rdb_iterator_from G d h p) [] = Inr es"
    using rocks_collect_total [OF reliable_rocks_engine.engine_iterator_total [OF assms]] by blast
  with rocks_collect_scan [OF it this] Some show ?thesis
    by (simp add: rocks_prefix_scan_def rocks_cf_handle_def rocks_view_def cf_view_def)
qed

theorem rocks_prefix_scan_exact_witness:
  "rocks_prefix_scan mem_rocks no_tables CF_HINTS [] = Inr (scan_entries Map.empty [])
   \<and> rocks_prefix_scan mem_rocks no_tables ''other'' [] = Inl (UnknownColumnFamily ''other'')"
proof -
  have "rdb_cf_handle mem_rocks no_tables CF_HINTS \<noteq> None"
    by (simp add: mem_rocks_def position_column_families)
  moreover have "rdb_cf_handle mem_rocks no_tables ''other'' = None"
    by (simp add: mem_rocks_def ALL_COLUMN_FAMILIES_def cf_defs)
  ultimately show ?thesis
    using rocks_prefix_scan_exact [OF mem_rocks.reliable_rocks_engine_axioms, OF no_tables_view(1), of CF_HINTS "[]"]
      rocks_prefix_scan_exact [OF mem_rocks.reliable_rocks_engine_axioms, OF no_tables_view(1), of "''other''" "[]"]
    by simp
qed

text \<open>
  C38. A batch on LMDB is one transaction whose effect on the twelve logical column families is
  exactly the operations in order, although the families share six databases behind tag bytes.
\<close>

theorem lmdb_batch_write_logical:
  assumes "heed_engine H etab rtab wtab eok rok wok" "lmdb_ok eok l" "lmdb_batch_write H l b = Inr l'"
  shows "lmdb_ok eok l' \<and> lmdb_view etab l' = apply_ops b (lmdb_view etab l)"
  using storage_backend.batch_view [OF heed_engine.lmdb_contract [OF assms(1)] assms(2), of b l'] assms(3)
  by (simp add: lmdb_ops_def)

theorem lmdb_batch_write_logical_witness:
  "let b = [Put CF_COIN_RECORDS [7] [1], Put CF_COIN_BY_PARENT [7] [2], Delete CF_COIN_RECORDS [7]]
   in \<exists>l'. lmdb_batch_write mem_heed no_lmdb b = Inr l'
      \<and> lmdb_view heed_tab l' = apply_ops b (\<lambda>_. Map.empty)"
proof -
  let ?b = "[Put CF_COIN_RECORDS [7] [1], Put CF_COIN_BY_PARENT [7] [2], Delete CF_COIN_RECORDS [7]]"
  have "list_all op_ok ?b" by (simp add: op_ok_def key_ok_def)
  then obtain l' where "lmdb_batch_write mem_heed no_lmdb ?b = Inr l'"
    using mem_heed.lmdb.batch_total [OF no_lmdb_view(1)] by (fastforce simp: lmdb_ops_def)
  with lmdb_batch_write_logical [OF mem_heed.heed_engine_axioms, OF no_lmdb_view(1) this]
  show ?thesis by (simp add: Let_def)
qed

text \<open>
  C37. The two backends are interchangeable: from the same logical contents, a batch of legal
  operations succeeds on both, leaves the same logical contents, and afterwards every lookup and
  every prefix scan of a known column family returns the same result on both.
\<close>

theorem backends_agree:
  assumes E: "both_engines G tab opened H etab rtab wtab eok rok wok"
    and ok: "opened d" "lmdb_ok eok l" "rocks_view G tab d = lmdb_view etab l" "list_all op_ok b"
    and q: "cf \<in> set ALL_COLUMN_FAMILIES" "key_ok k" "prefix_ok p"
  shows "\<exists>d' l'. rocks_batch_write G d b = Inr d' \<and> lmdb_batch_write H l b = Inr l'
    \<and> rocks_view G tab d' = apply_ops b (rocks_view G tab d)
    \<and> lmdb_view etab l' = rocks_view G tab d'
    \<and> rocks_get G d' cf k = lmdb_get H l' cf k
    \<and> rocks_prefix_scan G d' cf p = lmdb_prefix_scan H l' cf p"
proof -
  have R: "reliable_backend (rocks_backend G) (rocks_view G tab) opened"
    and L: "reliable_backend (lmdb_ops H) (lmdb_view etab) (lmdb_ok eok)"
    using both_engines.contracts [OF E] by auto
  obtain d' where d: "rocks_batch_write G d b = Inr d'" "opened d'"
      "rocks_view G tab d' = apply_ops b (rocks_view G tab d)"
    using reliable_backend.batch_ok [OF R, OF ok(1) ok(4)] by (auto simp: rocks_backend_def)
  obtain l' where l: "lmdb_batch_write H l b = Inr l'" "lmdb_ok eok l'"
      "lmdb_view etab l' = apply_ops b (lmdb_view etab l)"
    using reliable_backend.batch_ok [OF L, OF ok(2) ok(4)] by (auto simp: lmdb_ops_def)
  have "rocks_get G d' cf k = lmdb_get H l' cf k"
    using reliable_backend.get_eq [OF R, OF d(2) q(1,2)] reliable_backend.get_eq [OF L, OF l(2) q(1,2)]
      d(3) l(3) ok(3) by (simp add: rocks_backend_def lmdb_ops_def)
  moreover have "rocks_prefix_scan G d' cf p = lmdb_prefix_scan H l' cf p"
    using reliable_backend.scan_eq [OF R, OF d(2) q(1,3)] reliable_backend.scan_eq [OF L, OF l(2) q(1,3)]
      d(3) l(3) ok(3) by (simp add: rocks_backend_def lmdb_ops_def)
  ultimately show ?thesis using d l ok(3) by auto
qed

theorem backends_agree_witness:
  "\<exists>d' l'. rocks_batch_write mem_rocks no_tables [Put CF_METADATA [1] [2]] = Inr d'
    \<and> lmdb_batch_write mem_heed no_lmdb [Put CF_METADATA [1] [2]] = Inr l'
    \<and> rocks_get mem_rocks d' CF_METADATA [1] = lmdb_get mem_heed l' CF_METADATA [1]
    \<and> rocks_prefix_scan mem_rocks d' CF_METADATA [] = lmdb_prefix_scan mem_heed l' CF_METADATA []"
  using backends_agree [OF mem_engines.both_engines_axioms, OF no_tables_view(1) no_lmdb_view(1),
      of "[Put CF_METADATA [1] [2]]" CF_METADATA "[1]" "[]"]
  by (simp add: op_ok_def key_ok_def) blast

end
