(* ===== verification/Merkle_Tree.thy ===== *)
theory Merkle_Tree
  imports Merkle Codec Backends
begin

text \<open>
  Correctness of the operations of \<open>SparseMerkleTree\<close>: the cached root, the batch updates, the
  pending node rows, and persistence of the root.
\<close>

section \<open>Invariant\<close>

definition tree_ok :: "externals \<Rightarrow> sparse_merkle_tree \<Rightarrow> bool" where
  "tree_ok X t \<longleftrightarrow> hm_ok (leaves t)
     \<and> pred_option (\<lambda>r. r = merkle_root X (map_of (leaves t))) (root_hash t)"

lemma compute_root: "fst (compute_subtree_hash_core X lvs 0 path dirty rec) = merkle_root X (map_of lvs)"
  using compute_subtree_hash_digest [of "[]" lvs X path dirty rec] by (simp add: subtree_digest_Nil)

lemma merkle_root_empty: "merkle_root X Map.empty = empty_hash X SMT_HEIGHT"
  by (simp add: merkle_root_def empty_hash_eq)

lemma tree_ok_new [simp]: "tree_ok X (smt_new X)"
  by (simp add: tree_ok_def smt_new_def merkle_root_empty)

lemma root_observed_eq: "tree_ok X t \<Longrightarrow> root_observed X t = merkle_root X (map_of (leaves t))"
  by (auto simp: root_observed_def tree_ok_def compute_root merkle_root_empty split: option.splits)

lemma smt_root_eq:
  assumes "tree_ok X t" "smt_root X t = (r, t')"
  shows "r = merkle_root X (map_of (leaves t))" "leaves t' = leaves t" "root_hash t' = Some r"
    "tree_ok X t'"
proof -
  obtain h d where c: "compute_subtree_hash_core X (leaves t) 0 0 [] True = (h, d)" by fastforce
  then have "h = merkle_root X (map_of (leaves t))" using compute_root by (metis fst_conv)
  with assms c show "r = merkle_root X (map_of (leaves t))" "leaves t' = leaves t" "root_hash t' = Some r"
    "tree_ok X t'"
    by (auto simp: smt_root_def tree_ok_def split: option.splits)
qed

lemma map_of_smt_insert_all: "map_of (smt_insert_all es m) = map_of m ++ map_of (rev es)"
  unfolding smt_insert_all_def
  by (induction es arbitrary: m) (auto simp: map_add_def fun_eq_iff split: option.splits)

lemma hm_ok_smt_insert_all: "hm_ok m \<Longrightarrow> hm_ok (smt_insert_all es m)"
  unfolding smt_insert_all_def by (induction es arbitrary: m) auto

lemma map_of_hm_remove_all: "map_of (fold hm_remove ks m) = map_of m |` (- set ks)"
  by (induction ks arbitrary: m) (auto simp: restrict_map_def fun_eq_iff)

lemma hm_ok_hm_remove_all: "hm_ok m \<Longrightarrow> hm_ok (fold hm_remove ks m)"
  by (induction ks arbitrary: m) auto

lemma find_NoneD: "find P xs = None \<longleftrightarrow> (\<forall>x \<in> set xs. \<not> P x)"
  by (induction xs) auto

lemma find_SomeD: "find P xs = Some x \<Longrightarrow> x \<in> set xs \<and> P x"
  by (induction xs) (auto split: if_splits)

lemma batch_insert_Inr:
  "batch_insert es t = Inr t' \<longleftrightarrow> fst ` set es \<inter> dom (map_of (leaves t)) = {}
     \<and> t' = t\<lparr>leaves := smt_insert_all es (leaves t), root_hash := (if es = [] then root_hash t else None)\<rparr>"
proof (cases "find (\<lambda>(key, _). hm_contains_key (leaves t) key) es")
  case None
  show ?thesis using None [unfolded find_NoneD hm_contains_key_iff]
    by (force simp: batch_insert_def None Let_def)
next
  case (Some e)
  with find_SomeD [OF Some] show ?thesis
    by (force simp: batch_insert_def hm_contains_key_iff split: prod.splits)
qed

lemma batch_update_Inr:
  "batch_update es t = Inr t' \<longleftrightarrow> fst ` set es \<subseteq> dom (map_of (leaves t))
     \<and> t' = t\<lparr>leaves := smt_insert_all es (leaves t), root_hash := (if es = [] then root_hash t else None)\<rparr>"
proof (cases "find (\<lambda>(key, _). \<not> hm_contains_key (leaves t) key) es")
  case None
  show ?thesis using None [unfolded find_NoneD hm_contains_key_iff]
    by (force simp: batch_update_def None Let_def)
next
  case (Some e)
  with find_SomeD [OF Some] show ?thesis
    by (force simp: batch_update_def hm_contains_key_iff split: prod.splits)
qed

lemma batch_remove_Inr:
  "batch_remove ks t = Inr t' \<longleftrightarrow> set ks \<subseteq> dom (map_of (leaves t))
     \<and> t' = t\<lparr>leaves := fold hm_remove ks (leaves t), root_hash := (if ks = [] then root_hash t else None)\<rparr>"
proof (cases "find (\<lambda>key. \<not> hm_contains_key (leaves t) key) ks")
  case None
  show ?thesis using None [unfolded find_NoneD hm_contains_key_iff]
    by (force simp: batch_remove_def None Let_def)
next
  case (Some k)
  with find_SomeD [OF Some] show ?thesis by (auto simp: batch_remove_def hm_contains_key_iff)
qed

lemma tree_ok_batch:
  assumes "tree_ok X t"
  shows "batch_insert es t = Inr t' \<Longrightarrow> tree_ok X t'" "batch_update es t = Inr t' \<Longrightarrow> tree_ok X t'"
    "batch_remove ks t = Inr t' \<Longrightarrow> tree_ok X t'"
  using assms
  by (auto simp: batch_insert_Inr batch_update_Inr batch_remove_Inr tree_ok_def hm_ok_smt_insert_all
      hm_ok_hm_remove_all) (simp_all add: smt_insert_all_def)

section \<open>Properties\<close>

text \<open>
  C35. The root a tree reports, from its cache or by the recursive recomputation over its hash map,
  is the digest of the complete binary tree of height 256 over its leaf map: it does not depend on
  the iteration order, on the history of updates or on which of \<open>root\<close> and \<open>root_observed\<close> is
  asked, and asking leaves a clean tree with the same leaves.
\<close>

theorem smt_root_canonical:
  assumes "tree_ok X t"
  shows "case smt_root X t of (r, t') \<Rightarrow>
    r = merkle_root X (map_of (leaves t)) \<and> root_observed X t = r
    \<and> tree_ok X t' \<and> leaves t' = leaves t \<and> \<not> is_dirty t' \<and> smt_root X t' = (r, t')"
proof -
  obtain r t' where "smt_root X t = (r, t')" by fastforce
  with smt_root_eq [OF assms this] root_observed_eq [OF assms] show ?thesis
    by (simp add: is_dirty_def smt_root_def [of X t'])
qed

theorem smt_root_canonical_witness:
  "case smt_root sample_externals (smt_new sample_externals) of (r, t') \<Rightarrow>
     r = merkle_root sample_externals Map.empty \<and> \<not> is_dirty t'"
  using smt_root_canonical [OF tree_ok_new, of sample_externals]
  by (auto simp: smt_new_def split: prod.splits)

text \<open>
  A batch mutation of the tree is all or nothing. An insertion fails exactly when some key is
  present, an update or a removal exactly when some key is absent, and the error names the first
  such key; otherwise the leaf map is overwritten by the entries, the last one winning, or loses
  the keys, and the invariant of the tree is kept.
\<close>

theorem smt_batches:
  assumes "tree_ok X t"
  shows "(case batch_insert es t of
       Inl e \<Rightarrow> \<exists>k. e = KeyAlreadyExists k \<and>
         find (\<lambda>k. k \<in> dom (map_of (leaves t))) (map fst es) = Some k
     | Inr t' \<Rightarrow> fst ` set es \<inter> dom (map_of (leaves t)) = {} \<and> tree_ok X t'
         \<and> map_of (leaves t') = map_of (leaves t) ++ map_of (rev es))
   \<and> (case batch_update es t of
       Inl e \<Rightarrow> \<exists>k. e = KeyNotFound k \<and>
         find (\<lambda>k. k \<notin> dom (map_of (leaves t))) (map fst es) = Some k
     | Inr t' \<Rightarrow> fst ` set es \<subseteq> dom (map_of (leaves t)) \<and> tree_ok X t'
         \<and> map_of (leaves t') = map_of (leaves t) ++ map_of (rev es))
   \<and> (case batch_remove ks t of
       Inl e \<Rightarrow> \<exists>k. e = KeyNotFound k \<and> find (\<lambda>k. k \<notin> dom (map_of (leaves t))) ks = Some k
     | Inr t' \<Rightarrow> set ks \<subseteq> dom (map_of (leaves t)) \<and> tree_ok X t'
         \<and> map_of (leaves t') = map_of (leaves t) |` (- set ks))"
proof (intro conjI, goal_cases)
  have find_fst: "find P (map fst es) = map_option fst (find (\<lambda>(k, _). P k) es)"
    for P :: "bytes32 \<Rightarrow> bool" by (induction es) auto
  case 1
  show ?case
  proof (cases "batch_insert es t")
    case (Inl e)
    then show ?thesis
      by (auto simp: batch_insert_def Let_def find_fst hm_contains_key_iff split: option.splits prod.splits)
  next
    case (Inr t')
    with tree_ok_batch(1) [OF assms Inr] Inr [unfolded batch_insert_Inr] show ?thesis
      by (simp add: map_of_smt_insert_all)
  qed
  case 2
  show ?case
  proof (cases "batch_update es t")
    case (Inl e)
    then show ?thesis
      by (auto simp: batch_update_def Let_def find_fst hm_contains_key_iff split: option.splits prod.splits)
  next
    case (Inr t')
    with tree_ok_batch(2) [OF assms Inr] Inr [unfolded batch_update_Inr] show ?thesis
      by (simp add: map_of_smt_insert_all)
  qed
  case 3
  show ?case
  proof (cases "batch_remove ks t")
    case (Inl e)
    then show ?thesis
      by (auto simp: batch_remove_def Let_def hm_contains_key_iff split: option.splits)
  next
    case (Inr t')
    with tree_ok_batch(3) [OF assms Inr] Inr [unfolded batch_remove_Inr] show ?thesis
      by (simp add: map_of_hm_remove_all)
  qed
qed

theorem smt_batches_witness:
  "case batch_insert [(1, 7), (2, 8)] (smt_new sample_externals) of
     Inl e \<Rightarrow> False
   | Inr t' \<Rightarrow> tree_ok sample_externals t' \<and> map_of (leaves t') = Map.empty ++ map_of [(2, 8), (1, 7)]"
  using smt_batches [OF tree_ok_new, of sample_externals "[(1, 7), (2, 8)]" "[]"]
  by (auto simp: smt_new_def split: sum.splits)

text \<open>
  Recomputing a stale root refreshes the pending node rows: every row belongs to an inner node
  of the tree at its level and zero-padded path and carries that node's digest, or a deletion
  exactly when the digest is the empty one of its level; and every ancestor of every leaf has
  its row.
\<close>

theorem smt_root_rows:
  assumes "root_hash t = None"
  shows "let m = map_of (leaves t); rows = map_of (dirty_merkle_nodes (snd (smt_root X t))) in
    (\<forall>key op. rows key = Some op \<longrightarrow>
            (\<exists>pre. length pre < SMT_HEIGHT \<and> key = node_key pre \<and> op = node_row X m pre))
    \<and> (\<forall>k \<in> dom m. \<forall>d < SMT_HEIGHT.
            rows (node_key (take d (key_bits k))) = Some (node_row X m (take d (key_bits k))))"
proof -
  define m where "m = map_of (leaves t)"
  define rows where "rows = map_of (dirty_merkle_nodes (snd (smt_root X t)))"
  let ?c = "compute_subtree_hash_core X (leaves t) 0 (path_of []) [] True"
  have rows: "rows = map_of (snd ?c)"
    using assms(1) by (simp add: rows_def smt_root_def path_of_Nil split: prod.splits)
  have "rows_ok X m []" by (simp add: rows_ok_def)
  then have "rows_ok X m (snd ?c)"
    and all: "\<And>q k. length q < SMT_HEIGHT \<Longrightarrow> under q k \<Longrightarrow> k \<in> dom m \<Longrightarrow> node_key q \<in> dom rows"
    using compute_rows [of "[]" "leaves t" m X "[]"] by (auto simp: m_def rows)
  then have ok: "key \<in> dom rows \<Longrightarrow> \<exists>pre. length pre < SMT_HEIGHT \<and> key = node_key pre"
    "length pre < SMT_HEIGHT \<Longrightarrow> node_key pre \<in> dom rows \<Longrightarrow> rows (node_key pre) = Some (node_row X m pre)"
    for key pre by (auto simp: rows_ok_def rows)
  have anc: "length (take d (key_bits k)) < SMT_HEIGHT" "under (take d (key_bits k)) k"
    if "d < SMT_HEIGHT" for d k
    using that by (auto simp: under_def key_bits_def SMT_HEIGHT_def)
  show ?thesis
    unfolding Let_def m_def [symmetric] rows_def [symmetric]
  proof (intro conjI allI impI ballI)
    fix key op
    assume row: "rows key = Some op"
    then obtain pre where "length pre < SMT_HEIGHT" "key = node_key pre" using ok(1) by blast
    with row ok(2) show "\<exists>pre. length pre < SMT_HEIGHT \<and> key = node_key pre \<and> op = node_row X m pre"
      by fastforce
  next
    fix k d
    assume "k \<in> dom m" "d < SMT_HEIGHT"
    with anc all ok(2) show "rows (node_key (take d (key_bits k))) = Some (node_row X m (take d (key_bits k)))"
      by blast
  qed
qed

theorem smt_root_rows_witness:
  "map_of (dirty_merkle_nodes (snd (smt_root sample_externals
       \<lparr>leaves = [(5, 7)], root_hash = None, dirty_merkle_nodes = []\<rparr>))) (node_key [])
   = Some (node_row sample_externals [5 \<mapsto> 7] [])"
  using smt_root_rows [of "\<lparr>leaves = [(5, 7)], root_hash = None, dirty_merkle_nodes = []\<rparr>" sample_externals]
  by (auto simp: Let_def SMT_HEIGHT_def dest: spec [of _ 0])

section \<open>Persistence of the root\<close>

lemma fold_persist_ops:
  "\<exists>ops. fold persist_op_to_write rows batch = batch @ ops \<and> op_cf ` set ops \<subseteq> {CF_MERKLE_NODES}"
proof (induction rows arbitrary: batch)
  case Nil
  then show ?case by simp
next
  case (Cons row rows)
  obtain x where "persist_op_to_write row batch = batch @ [x]" "op_cf x = CF_MERKLE_NODES"
    by (cases row, cases "snd row") (auto simp: batch_put_def batch_delete_def)
  with Cons.IH [of "batch @ [x]"] show ?case by auto
qed

lemma key_ok_merkle_root [simp]: "key_ok (metadata_key MERKLE_STATE_ROOT_META_KEY)"
  by (simp add: key_ok_def metadata_key_def MERKLE_STATE_ROOT_META_KEY_def)

lemma flush_disk:
  assumes "tree_ok X t" "flush_to_batch X t batch = (t', b)"
  shows "apply_ops b D CF_METADATA (metadata_key MERKLE_STATE_ROOT_META_KEY)
      = Some (as_ref (merkle_root X (map_of (leaves t))))"
    and "leaves t' = leaves t" "root_hash t' = Some (merkle_root X (map_of (leaves t)))"
      "dirty_merkle_nodes t' = []"
proof -
  obtain r t1 where r: "smt_root X t = (r, t1)" by fastforce
  note root = smt_root_eq [OF assms(1) r]
  obtain ops where "fold persist_op_to_write (dirty_merkle_nodes t1) batch = batch @ ops"
    using fold_persist_ops by blast
  with assms(2) r root show "apply_ops b D CF_METADATA (metadata_key MERKLE_STATE_ROOT_META_KEY)
      = Some (as_ref (merkle_root X (map_of (leaves t))))"
    by (auto simp: flush_to_batch_def Let_def batch_put_def)
  from assms(2) r root show "leaves t' = leaves t"
    "root_hash t' = Some (merkle_root X (map_of (leaves t)))" "dirty_merkle_nodes t' = []"
    by (auto simp: flush_to_batch_def Let_def)
qed

text \<open>
  C36. A committed flush makes the root recoverable: loading a tree from the store after the batch of
  a flush was written accepts a leaf map exactly when its digest is the digest of the flushed
  tree, and then yields a clean tree with that root; any other leaf map is rejected with both
  digests. The flushed tree keeps its leaves, is clean and has no pending rows.
\<close>

theorem flush_load_roundtrip:
  assumes B: "reliable_backend B view ok" and s: "ok s" and t: "tree_ok X t"
    and f: "flush_to_batch X t batch = (t', b)" and w: "kv_batch_write B s b = Inr s'"
  shows "load_from_store X B s' lvs =
      (if merkle_root X (map_of lvs) = merkle_root X (map_of (leaves t))
       then Inr \<lparr>leaves = lvs, root_hash = Some (merkle_root X (map_of (leaves t))), dirty_merkle_nodes = []\<rparr>
       else Inl (PersistedRootMismatch (merkle_root X (map_of (leaves t))) (merkle_root X (map_of lvs))))
    \<and> leaves t' = leaves t \<and> \<not> is_dirty t' \<and> dirty_merkle_nodes t' = []"
proof -
  let ?k = "metadata_key MERKLE_STATE_ROOT_META_KEY"
  from B have S: "storage_backend B view ok" by (rule reliable_backend.axioms)
  have s': "ok s'" "view s' = apply_ops b (view s)"
    using storage_backend.batch_view [OF S, OF s w] by auto
  have "kv_get B s' CF_METADATA ?k = Inr (Some (as_ref (merkle_root X (map_of (leaves t)))))"
    using reliable_backend.get_eq [OF B, OF s'(1), of CF_METADATA ?k] flush_disk(1) [OF t f] s'(2) by simp
  moreover have "root_observed X \<lparr>leaves = lvs, root_hash = None, dirty_merkle_nodes = []\<rparr>
      = merkle_root X (map_of lvs)"
    by (simp add: root_observed_def compute_root merkle_root_empty)
  ultimately show ?thesis using flush_disk(2-4) [OF t f]
    by (simp add: load_from_store_def Let_def is_dirty_def)
qed

theorem flush_load_roundtrip_witness:
  "\<exists>s'. kv_batch_write (rocks_backend mem_rocks) no_tables
          (snd (flush_to_batch sample_externals (smt_new sample_externals) [])) = Inr s'
     \<and> load_from_store sample_externals (rocks_backend mem_rocks) s' [] =
         Inr \<lparr>leaves = [], root_hash = Some (merkle_root sample_externals Map.empty), dirty_merkle_nodes = []\<rparr>"
proof -
  obtain t' b where f: "flush_to_batch sample_externals (smt_new sample_externals) [] = (t', b)" by fastforce
  have "b = [Put CF_METADATA (metadata_key MERKLE_STATE_ROOT_META_KEY) (as_ref (empty_hash sample_externals SMT_HEIGHT))]"
    using f by (simp add: flush_to_batch_def smt_new_def smt_root_def Let_def batch_put_def)
  then obtain s' where w: "kv_batch_write (rocks_backend mem_rocks) no_tables b = Inr s'"
    using mem_rocks.rocks.batch_total [OF no_tables_view(1), of b] by (auto simp: op_ok_def)
  have "leaves (smt_new sample_externals) = []" by (simp add: smt_new_def)
  with flush_load_roundtrip [OF mem_rocks.rocks.reliable_backend_axioms, OF no_tables_view(1) tree_ok_new f w, of "[]"]
  show ?thesis using f w by simp
qed

end
