(* ===== verification/Merkle_Proof.thy ===== *)
theory Merkle_Proof
  imports Merkle_Tree
begin

text \<open>
  \<open>src/src/merkle/proof.rs\<close>: inclusion and exclusion proofs. A proof generated from a clean tree
  verifies against its root, and a proof that verifies with another leaf value exhibits two
  different inputs of one node hash on its path.
\<close>

section \<open>Verification\<close>

record sparse_merkle_proof =
  pf_key :: bytes32
  pf_value :: "bytes32 option"
  siblings :: "bytes32 list"

definition get_bit_public :: "bytes32 \<Rightarrow> nat \<Rightarrow> bool" where
  "get_bit_public key n = get_bit key n"

definition verify_step :: "externals \<Rightarrow> sparse_merkle_proof \<Rightarrow> nat \<Rightarrow> bytes32 \<Rightarrow> bytes32" where
  "verify_step X p depth current =
     (let sibling = siblings p ! depth
      in if get_bit_public (pf_key p) depth then merkle_node_hash X sibling current
         else merkle_node_hash X current sibling)"

definition verify :: "externals \<Rightarrow> sparse_merkle_proof \<Rightarrow> bytes32 \<Rightarrow> bool" where
  "verify X p expected_root \<longleftrightarrow>
     (if length (siblings p) \<noteq> SMT_HEIGHT then False
      else
        let leaf_hash = (case pf_value p of Some v \<Rightarrow> v | None \<Rightarrow> empty_hash X 0)
        in fold (verify_step X p) (rev [0..<SMT_HEIGHT]) leaf_hash = expected_root)"

definition leaf_value :: "externals \<Rightarrow> sparse_merkle_proof \<Rightarrow> bytes32" where
  "leaf_value X p = (case pf_value p of Some h \<Rightarrow> h | None \<Rightarrow> empty_hash X 0)"

definition verify_coin_proof :: "externals \<Rightarrow> sparse_merkle_proof \<Rightarrow> bytes32 \<Rightarrow> bool" where
  "verify_coin_proof X p expected_root = verify X p expected_root"

section \<open>Generation\<close>

definition proof_step ::
  "externals \<Rightarrow> bytes32 \<Rightarrow> nat \<Rightarrow> bytes32 list \<times> (bytes32 \<times> bytes32) list
    \<Rightarrow> bytes32 list \<times> (bytes32 \<times> bytes32) list" where
  "proof_step X key depth = (\<lambda>(sibs, current_leaves).
     let b = get_bit key depth;
         left_leaves = filter (\<lambda>(k, _). \<not> get_bit k depth) current_leaves;
         right_leaves = filter (\<lambda>(k, _). get_bit k depth) current_leaves;
         sibling_leaves = (if b then left_leaves else right_leaves);
         path = fold (\<lambda>d path. child_path path d (get_bit key d)) [0..<depth] 0;
         sibling_path = child_path path depth (\<not> b);
         sibling_hash = fst (compute_subtree_hash_core X sibling_leaves (depth + 1) sibling_path [] False)
     in (sibs @ [sibling_hash], if b then right_leaves else left_leaves))"

definition build_sparse_proof_for_key :: "externals \<Rightarrow> sparse_merkle_tree \<Rightarrow> bytes32 \<Rightarrow> sparse_merkle_proof" where
  "build_sparse_proof_for_key X t key =
     \<lparr>pf_key = key, pf_value = map_of (leaves t) key,
      siblings = fst (fold (proof_step X key) [0..<SMT_HEIGHT] ([], leaves t))\<rparr>"

definition get_coin_proof ::
  "externals \<Rightarrow> sparse_merkle_tree \<Rightarrow> bytes32 \<Rightarrow> merkle_error + sparse_merkle_proof" where
  "get_coin_proof X t coin_id =
     (if is_dirty t then Inl ProofRequiresCleanTree
      else Inr (build_sparse_proof_for_key X t coin_id))"

definition get_proof :: "externals \<Rightarrow> sparse_merkle_tree \<Rightarrow> bytes32 \<Rightarrow> sparse_merkle_proof" where
  "get_proof X t key = build_sparse_proof_for_key X t key"

section \<open>Completeness\<close>

lemma under_take_Suc:
  "d < 256 \<Longrightarrow> under (take (Suc d) (key_bits k)) k' \<longleftrightarrow>
     under (take d (key_bits k)) k' \<and> get_bit k' d = get_bit k d"
  by (simp add: take_Suc_conv_app_nth under_snoc key_bits_def)

lemma take_key_bits_Suc: "d < 256 \<Longrightarrow> take (Suc d) (key_bits k) = take d (key_bits k) @ [get_bit k d]"
  by (simp add: take_Suc_conv_app_nth key_bits_def)

lemma proof_steps:
  assumes "n \<le> SMT_HEIGHT"
  shows "fold (proof_step X key) [0..<n] ([], lvs) =
    (map (\<lambda>d. subtree_digest X (map_of lvs) (take d (key_bits key) @ [\<not> get_bit key d])) [0..<n],
     filter (\<lambda>(k, _). under (take n (key_bits key)) k) lvs)"
  using assms
proof (induction n)
  case 0
  then show ?case by (simp add: split_def)
next
  case (Suc n)
  let ?pre = "take n (key_bits key)"
  let ?cur = "filter (\<lambda>(k, _). under ?pre k) lvs"
  let ?side = "\<lambda>b. filter (\<lambda>(k, _). get_bit k n = b) ?cur"
  have n: "n < 256" "length ?pre = n" using Suc.prems by (simp_all add: SMT_HEIGHT_def)
  have "\<forall>(k, v) \<in> set (?side b). under (?pre @ [b]) k" for b
    using n by (auto simp: under_snoc)
  then have "fst (compute_subtree_hash_core X (?side b) (Suc n) path [] False)
      = subtree_digest X (map_of (?side b)) (?pre @ [b])" for b path
    using compute_subtree_hash_digest [of "?pre @ [b]" "?side b" X path "[]" False] n Suc.prems by simp
  also have "subtree_digest X (map_of (?side b)) (?pre @ [b]) = subtree_digest X (map_of lvs) (?pre @ [b])" for b
    using n Suc.prems by (intro subtree_digest_cong) (auto simp: map_of_filter_key under_snoc simp del: filter_filter)
  finally have sib: "fst (compute_subtree_hash_core X (?side b) (Suc n) path [] False)
      = subtree_digest X (map_of lvs) (?pre @ [b])" for b path .
  have next': "?side (get_bit key n) = filter (\<lambda>(k, _). under (take (Suc n) (key_bits key)) k) lvs"
    using n by (simp add: under_take_Suc filter_filter split_def conj_commute)
  have "proof_step X key n (sibs, ?cur) =
      (sibs @ [subtree_digest X (map_of lvs) (?pre @ [\<not> get_bit key n])], ?side (get_bit key n))" for sibs
    using sib [of True] sib [of False] by (cases "get_bit key n") (simp_all add: proof_step_def Let_def)
  with Suc next' show ?case by simp
qed

lemma subtree_digest_leaf:
  "subtree_digest X m (key_bits k) = (case m k of Some v \<Rightarrow> v | None \<Rightarrow> empty_hash X 0)"
  by (simp add: subtree_digest_def SMT_HEIGHT_def empty_hash_eq split: option.splits)

lemma verify_steps:
  assumes "n \<le> SMT_HEIGHT" "\<And>d. d < SMT_HEIGHT \<Longrightarrow>
      siblings p ! d = subtree_digest X m (take d (key_bits (pf_key p)) @ [\<not> get_bit (pf_key p) d])"
  shows "fold (verify_step X p) (rev [0..<n]) (subtree_digest X m (take n (key_bits (pf_key p)))) = merkle_root X m"
  using assms(1)
proof (induction n)
  case 0
  then show ?case by (simp add: subtree_digest_Nil)
next
  case (Suc n)
  let ?pre = "take n (key_bits (pf_key p))"
  have n: "n < 256" "length ?pre < SMT_HEIGHT" using Suc.prems by (simp_all add: SMT_HEIGHT_def)
  have "verify_step X p n (subtree_digest X m (take (Suc n) (key_bits (pf_key p)))) = subtree_digest X m ?pre"
    using assms(2) [of n] n Suc.prems subtree_digest_snoc [OF n(2), of X m]
    by (cases "get_bit (pf_key p) n")
      (simp_all add: verify_step_def get_bit_public_def take_key_bits_Suc Let_def)
  with Suc show ?case by simp
qed

lemma build_proof_verifies:
  "verify X (build_sparse_proof_for_key X t k) (merkle_root X (map_of (leaves t)))"
proof -
  let ?p = "build_sparse_proof_for_key X t k"
  let ?m = "map_of (leaves t)"
  have sib: "siblings ?p = map (\<lambda>d. subtree_digest X ?m (take d (key_bits k) @ [\<not> get_bit k d])) [0..<SMT_HEIGHT]"
    by (simp add: build_sparse_proof_for_key_def proof_steps)
  have "fold (verify_step X ?p) (rev [0..<SMT_HEIGHT]) (subtree_digest X ?m (take SMT_HEIGHT (key_bits (pf_key ?p))))
      = merkle_root X ?m"
    by (rule verify_steps) (simp_all add: sib, simp add: build_sparse_proof_for_key_def)
  then show ?thesis
    using sib by (simp add: verify_def build_sparse_proof_for_key_def SMT_HEIGHT_def subtree_digest_leaf)
qed

section \<open>Soundness\<close>

text \<open>The running digest of \<open>verify\<close> before level \<open>d - 1\<close>, and the two inputs it hashes at \<open>d\<close>.\<close>

definition proof_node :: "externals \<Rightarrow> sparse_merkle_proof \<Rightarrow> nat \<Rightarrow> bytes32" where
  "proof_node X p d = fold (verify_step X p) (rev [d..<SMT_HEIGHT]) (leaf_value X p)"

definition proof_inputs :: "externals \<Rightarrow> sparse_merkle_proof \<Rightarrow> nat \<Rightarrow> bytes32 \<times> bytes32" where
  "proof_inputs X p d =
     (if get_bit (pf_key p) d then (siblings p ! d, proof_node X p (Suc d))
      else (proof_node X p (Suc d), siblings p ! d))"

lemma proof_node_step: "d < SMT_HEIGHT \<Longrightarrow> proof_node X p d = case_prod (merkle_node_hash X) (proof_inputs X p d)"
proof -
  assume "d < SMT_HEIGHT"
  then have "[d..<SMT_HEIGHT] = d # [Suc d..<SMT_HEIGHT]" by (rule upt_conv_Cons)
  then show ?thesis
    by (simp add: proof_node_def proof_inputs_def verify_step_def get_bit_public_def Let_def)
qed

lemma verify_proof_node: "verify X p r \<longleftrightarrow> length (siblings p) = SMT_HEIGHT \<and> proof_node X p 0 = r"
  by (auto simp: verify_def proof_node_def leaf_value_def Let_def)

lemma proof_collision:
  assumes "pf_key p = pf_key q" "proof_node X p 0 = proof_node X q 0" "leaf_value X p \<noteq> leaf_value X q"
  shows "\<exists>d < SMT_HEIGHT. proof_inputs X p d \<noteq> proof_inputs X q d
    \<and> case_prod (merkle_node_hash X) (proof_inputs X p d) = case_prod (merkle_node_hash X) (proof_inputs X q d)"
proof -
  have "\<exists>d < n. proof_node X p d = proof_node X q d \<and> proof_node X p (Suc d) \<noteq> proof_node X q (Suc d)"
    if "proof_node X p n \<noteq> proof_node X q n" for n
    using that assms(2) by (induction n) (auto simp: less_Suc_eq)
  moreover have "proof_node X p SMT_HEIGHT \<noteq> proof_node X q SMT_HEIGHT"
    using assms(3) by (simp add: proof_node_def)
  ultimately obtain d where "d < SMT_HEIGHT" "proof_node X p d = proof_node X q d"
    "proof_node X p (Suc d) \<noteq> proof_node X q (Suc d)" by blast
  then show ?thesis using assms(1) by (auto simp: proof_node_step proof_inputs_def)
qed

section \<open>Properties\<close>

text \<open>
  A proof for any coin id taken from a clean tree, for a present or an absent coin, has the
  coin's leaf value and verifies against the root the tree reports; the only refusal is for a
  tree with unprocessed mutations.
\<close>

theorem coin_proof_complete:
  assumes "tree_ok X t"
  shows "case get_coin_proof X t i of
      Inl e \<Rightarrow> is_dirty t \<and> e = ProofRequiresCleanTree
    | Inr p \<Rightarrow> \<not> is_dirty t \<and> pf_key p = i \<and> pf_value p = smt_get t i
        \<and> length (siblings p) = SMT_HEIGHT \<and> verify_coin_proof X p (root_observed X t)"
  using build_proof_verifies [of X t i] root_observed_eq [OF assms]
  by (auto simp: get_coin_proof_def verify_coin_proof_def smt_get_def verify_proof_node
      build_sparse_proof_for_key_def)

theorem coin_proof_complete_witness:
  "case get_coin_proof sample_externals (smt_new sample_externals) 9 of
     Inl e \<Rightarrow> False
   | Inr p \<Rightarrow> pf_value p = None \<and> verify_coin_proof sample_externals p (merkle_root sample_externals Map.empty)"
proof -
  have "leaves (smt_new sample_externals) = []" "\<not> is_dirty (smt_new sample_externals)"
    by (simp_all add: smt_new_def is_dirty_def)
  then show ?thesis
    using coin_proof_complete [OF tree_ok_new, of sample_externals 9]
      root_observed_eq [OF tree_ok_new, of sample_externals]
    by (auto simp: smt_get_def split: sum.splits)
qed

text \<open>
  A verifying proof that claims another leaf value than the tree holds for its key breaks the
  hash: on the path there is a level at which that proof and the honest proof feed different
  pairs of digests to the node hash and obtain the same digest.
\<close>

theorem coin_proof_sound:
  assumes "verify_coin_proof X p (merkle_root X (map_of (leaves t)))"
    and "leaf_value X p \<noteq> leaf_value X (get_proof X t (pf_key p))"
  shows "\<exists>d < SMT_HEIGHT. proof_inputs X p d \<noteq> proof_inputs X (get_proof X t (pf_key p)) d
    \<and> case_prod (merkle_node_hash X) (proof_inputs X p d)
        = case_prod (merkle_node_hash X) (proof_inputs X (get_proof X t (pf_key p)) d)"
proof (rule proof_collision)
  let ?q = "get_proof X t (pf_key p)"
  show "pf_key p = pf_key ?q" by (simp add: get_proof_def build_sparse_proof_for_key_def)
  show "proof_node X p 0 = proof_node X ?q 0"
    using assms(1) build_proof_verifies [of X t "pf_key p"]
    by (simp add: verify_coin_proof_def verify_proof_node get_proof_def)
  show "leaf_value X p \<noteq> leaf_value X ?q" by (rule assms(2))
qed

text \<open>A hash with collisions, under which a false proof verifies.\<close>

definition weak_externals :: externals where
  "weak_externals = sample_externals\<lparr>sha256 := (\<lambda>_. 0)\<rparr>"

definition false_proof :: sparse_merkle_proof where
  "false_proof = \<lparr>pf_key = 5, pf_value = Some 1, siblings = replicate 256 0\<rparr>"

theorem coin_proof_sound_witness:
  "\<exists>d < SMT_HEIGHT. proof_inputs weak_externals false_proof d
      \<noteq> proof_inputs weak_externals (get_proof weak_externals (smt_new weak_externals) 5) d"
proof -
  have node: "merkle_node_hash weak_externals l r = 0" for l r
    by (simp add: merkle_node_hash_def weak_externals_def)
  have digest: "smt_digest weak_externals (Suc n) f = 0" for n f by (simp add: node)
  have "merkle_root weak_externals (map_of (leaves (smt_new weak_externals))) = 0"
    using digest [of 255] by (simp add: merkle_root_def SMT_HEIGHT_def eval_nat_numeral del: smt_digest.simps)
  moreover have "verify_coin_proof weak_externals false_proof 0"
    using proof_node_step [of 0 weak_externals false_proof]
    by (simp add: verify_coin_proof_def verify_proof_node false_proof_def SMT_HEIGHT_def node split: prod.splits)
  moreover have "leaf_value weak_externals false_proof \<noteq>
      leaf_value weak_externals (get_proof weak_externals (smt_new weak_externals) (pf_key false_proof))"
    by (simp add: leaf_value_def false_proof_def get_proof_def build_sparse_proof_for_key_def smt_new_def
        empty_hash_eq merkle_leaf_hash_def weak_externals_def)
  ultimately show ?thesis
    using coin_proof_sound [of weak_externals false_proof "smt_new weak_externals"]
    by (auto simp: false_proof_def)
qed

end
