(* ===== verification/Store.thy ===== *)
theory Store
  imports Merkle_Proof
begin

text \<open>
  \<open>src/src/coin_store.rs\<close>: the store's state, opening, accessors and genesis. An operation that takes
  \<open>&mut self\<close> returns its result together with the state it leaves, also when it fails half way. The
  vtable of the backend is the argument \<open>B\<close>, the third-party functions are the argument \<open>X\<close>;
  arithmetic is that of a release build. Logging and timing have no counterpart.
\<close>

section \<open>State\<close>

definition META_HEIGHT :: bytes where "META_HEIGHT = map of_char ''chain_height''"
definition META_TIP_HASH :: bytes where "META_TIP_HASH = map of_char ''chain_tip_hash''"
definition META_TIMESTAMP :: bytes where "META_TIMESTAMP = map of_char ''chain_timestamp''"
definition META_INITIALIZED :: bytes where "META_INITIALIZED = map of_char ''initialized''"

record 's coin_store =
  cs_config :: coin_store_config
  backend :: 's
  merkle_tree :: sparse_merkle_tree
  height :: u64
  tip_hash :: bytes32
  cs_timestamp :: u64
  initialized :: bool
  unspent_ids :: "coin_id set"

text \<open>A loop whose body may return early with an error.\<close>

fun try_fold :: "('a \<Rightarrow> 'b \<Rightarrow> 'e + 'b) \<Rightarrow> 'a list \<Rightarrow> 'b \<Rightarrow> 'e + 'b" where
  "try_fold f [] st = Inr st"
| "try_fold f (x # xs) st = (case f x st of Inl e \<Rightarrow> Inl e | Inr st' \<Rightarrow> try_fold f xs st')"

section \<open>Opening\<close>

definition rebuild_merkle_tree ::
  "externals \<Rightarrow> 's storage_ops \<Rightarrow> 's \<Rightarrow> coin_store_error + sparse_merkle_tree" where
  "rebuild_merkle_tree X B s =
     (case lift_storage (kv_prefix_scan B s CF_COIN_RECORDS []) of
        Inl e \<Rightarrow> Inl e
      | Inr entries \<Rightarrow>
          (case those (map (\<lambda>(key, val). map_option (\<lambda>i. (i, merkle_leaf_hash X val)) (coin_id_from_key key))
                   entries) of
             None \<Rightarrow> Inl Panicked
           | Some merkle_entries \<Rightarrow>
               if merkle_entries \<noteq> [] then
                 (case batch_insert merkle_entries (smt_new X) of
                    Inl e \<Rightarrow> Inl (StorageError (''Merkle rebuild error: '' @ merkle_error_to_string X e))
                  | Inr tree \<Rightarrow> Inr tree)
               else Inr (smt_new X)))"

definition rebuild_unspent_ids_from_backend ::
  "externals \<Rightarrow> 's storage_ops \<Rightarrow> 's \<Rightarrow> coin_store_error + coin_id set" where
  "rebuild_unspent_ids_from_backend X B s =
     (case kv_prefix_scan B s CF_COIN_RECORDS [] of
        Inl e \<Rightarrow> Inl (StorageError (''rebuild_unspent_ids_from_backend: '' @ storage_error_to_string e))
      | Inr entries \<Rightarrow>
          Inr (fold (\<lambda>(key, val) ids.
                 case decode_coin_record_bytes X val of
                   None \<Rightarrow> ids
                 | Some rec \<Rightarrow>
                     if spent_height rec = None then insert (record_coin_id X rec) ids else ids)
               entries {}))"

text \<open>\<open>v.try_into().unwrap_or([0u8; 8])\<close> read as a little-endian number.\<close>

definition meta_u64 :: "bytes option \<Rightarrow> u64" where
  "meta_u64 v = (case v of None \<Rightarrow> 0 | Some b \<Rightarrow> if length b = 8 then u64_from_le_bytes b else 0)"

text \<open>\<open>copy_from_slice\<close> panics on a value of fewer than 32 bytes.\<close>

definition meta_bytes32 :: "bytes option \<Rightarrow> bytes32 option" where
  "meta_bytes32 v =
     (case v of None \<Rightarrow> Some 0
      | Some b \<Rightarrow> if length b < 32 then None else Some (bytes32_from (take 32 b)))"

definition open_store ::
  "externals \<Rightarrow> 's storage_ops \<Rightarrow> coin_store_config \<Rightarrow> 's \<Rightarrow> coin_store_error + 's coin_store" where
  "open_store X B config s =
     (case lift_storage (kv_get B s CF_METADATA META_INITIALIZED) of
        Inl e \<Rightarrow> Inl e
      | Inr init_row \<Rightarrow>
      (case lift_storage (kv_get B s CF_METADATA META_HEIGHT) of
        Inl e \<Rightarrow> Inl e
      | Inr height_row \<Rightarrow>
      (case lift_storage (kv_get B s CF_METADATA META_TIP_HASH) of
        Inl e \<Rightarrow> Inl e
      | Inr tip_row \<Rightarrow>
      (case meta_bytes32 tip_row of
        None \<Rightarrow> Inl Panicked
      | Some tip \<Rightarrow>
      (case lift_storage (kv_get B s CF_METADATA META_TIMESTAMP) of
        Inl e \<Rightarrow> Inl e
      | Inr ts_row \<Rightarrow>
      (case (if init_row \<noteq> None then rebuild_merkle_tree X B s else Inr (smt_new X)) of
        Inl e \<Rightarrow> Inl e
      | Inr tree \<Rightarrow>
      (case (if init_row \<noteq> None then rebuild_unspent_ids_from_backend X B s else Inr {}) of
        Inl e \<Rightarrow> Inl e
      | Inr ids \<Rightarrow>
          Inr \<lparr>cs_config = config, backend = s, merkle_tree = tree, height = meta_u64 height_row,
               tip_hash = tip, cs_timestamp = meta_u64 ts_row, initialized = (init_row \<noteq> None),
               unspent_ids = ids\<rparr>)))))))"

definition open_backend ::
  "bool \<Rightarrow> bool \<Rightarrow> 'd rocks_db \<Rightarrow> ('e, 'r, 'w) heed \<Rightarrow> (string \<Rightarrow> string + unit)
    \<Rightarrow> coin_store_config \<Rightarrow> coin_store_error + ('d, 'e) boxed" where
  "open_backend rocks lmdb G H mkdir config =
     (case open_storage_backend rocks lmdb G H mkdir (cfg_backend config) config of
        None \<Rightarrow> Inl Panicked
      | Some r \<Rightarrow> lift_storage r)"

definition with_config ::
  "bool \<Rightarrow> bool \<Rightarrow> 'd rocks_db \<Rightarrow> ('e, 'r, 'w) heed \<Rightarrow> (string \<Rightarrow> string + unit) \<Rightarrow> externals
    \<Rightarrow> coin_store_config \<Rightarrow> coin_store_error + ('d, 'e) boxed coin_store" where
  "with_config rocks lmdb G H mkdir X config =
     (case mkdir (storage_path config) of
        Inl e \<Rightarrow> Inl (StorageError (''Failed to create storage directory '' @ storage_path config @ '': '' @ e))
      | Inr _ \<Rightarrow>
          (case open_backend rocks lmdb G H mkdir config of
             Inl e \<Rightarrow> Inl e
           | Inr s \<Rightarrow> open_store X (boxed_ops G H) config s))"

definition coin_store_new ::
  "bool \<Rightarrow> bool \<Rightarrow> 'd rocks_db \<Rightarrow> ('e, 'r, 'w) heed \<Rightarrow> (string \<Rightarrow> string + unit) \<Rightarrow> externals
    \<Rightarrow> string \<Rightarrow> coin_store_error + ('d, 'e) boxed coin_store" where
  "coin_store_new rocks lmdb G H mkdir X path =
     with_config rocks lmdb G H mkdir X (default_with_path lmdb rocks path)"

section \<open>Accessors\<close>

definition get_height :: "'s coin_store \<Rightarrow> u64" where "get_height S = height S"
definition get_tip_hash :: "'s coin_store \<Rightarrow> bytes32" where "get_tip_hash S = tip_hash S"
definition get_timestamp :: "'s coin_store \<Rightarrow> u64" where "get_timestamp S = cs_timestamp S"
definition is_initialized :: "'s coin_store \<Rightarrow> bool" where "is_initialized S \<longleftrightarrow> initialized S"
definition get_config :: "'s coin_store \<Rightarrow> coin_store_config" where "get_config S = cs_config S"

definition state_root :: "externals \<Rightarrow> 's coin_store \<Rightarrow> bytes32 \<times> 's coin_store" where
  "state_root X S = (let (r, t) = smt_root X (merkle_tree S) in (r, S\<lparr>merkle_tree := t\<rparr>))"

definition store_is_empty :: "'s coin_store \<Rightarrow> bool" where
  "store_is_empty S \<longleftrightarrow> \<not> initialized S"

definition is_unspent :: "'s coin_store \<Rightarrow> coin_id \<Rightarrow> bool" where
  "is_unspent S coin_id \<longleftrightarrow> coin_id \<in> unspent_ids S"

definition get_coin_record ::
  "externals \<Rightarrow> 's storage_ops \<Rightarrow> 's coin_store \<Rightarrow> coin_id \<Rightarrow> coin_store_error + coin_record option" where
  "get_coin_record X B S coin_id =
     (case lift_storage (kv_get B (backend S) CF_COIN_RECORDS (coin_key coin_id)) of
        Inl e \<Rightarrow> Inl e
      | Inr None \<Rightarrow> Inr None
      | Inr (Some bytes) \<Rightarrow> Inr (decode_coin_record_bytes X bytes))"

section \<open>Genesis\<close>

definition genesis_coin ::
  "externals \<Rightarrow> u64 \<Rightarrow> coin \<times> bool \<Rightarrow> write_batch \<times> (bytes32 \<times> bytes32) list
    \<Rightarrow> coin_store_error + write_batch \<times> (bytes32 \<times> bytes32) list" where
  "genesis_coin X ts = (\<lambda>(c, is_coinbase) (batch, merkle_entries).
     let coin_id = coin_id_of X c;
         rec = coin_record_new c 0 ts is_coinbase
     in case serialize_coin_record_storage_bytes X rec of
          Inl e \<Rightarrow> Inl e
        | Inr record_bytes \<Rightarrow>
            let batch = batch_put CF_COIN_RECORDS (coin_key coin_id) record_bytes batch;
                ph_key = puzzle_hash_coin_key (coin_puzzle_hash c) coin_id;
                batch = batch_put CF_COIN_BY_PUZZLE_HASH ph_key (as_ref coin_id) batch;
                batch = batch_put CF_UNSPENT_BY_PUZZLE_HASH ph_key [] batch;
                batch = batch_put CF_COIN_BY_PARENT (parent_coin_key (parent_coin_info c) coin_id)
                          (as_ref coin_id) batch;
                batch = batch_put CF_COIN_BY_CONFIRMED_HEIGHT (height_coin_key 0 coin_id)
                          (as_ref coin_id) batch
            in Inr (batch, merkle_entries @ [(coin_id, merkle_leaf_hash X record_bytes)]))"

definition init_genesis ::
  "externals \<Rightarrow> 's storage_ops \<Rightarrow> (coin \<times> bool) list \<Rightarrow> u64 \<Rightarrow> 's coin_store
    \<Rightarrow> (coin_store_error + bytes32) \<times> 's coin_store" where
  "init_genesis X B initial_coins ts S =
     (if initialized S then (Inl GenesisAlreadyInitialized, S)
      else case try_fold (genesis_coin X ts) initial_coins (batch_new, []) of
          Inl e \<Rightarrow> (Inl e, S)
        | Inr (batch, merkle_entries) \<Rightarrow>
            (case (if merkle_entries \<noteq> [] then batch_insert merkle_entries (merkle_tree S)
                   else Inr (merkle_tree S)) of
               Inl e \<Rightarrow> (Inl (StorageError (''Merkle insert error: '' @ merkle_error_to_string X e)), S)
             | Inr tree \<Rightarrow>
                 let (new_root, tree') = smt_root X tree;
                     S1 = S\<lparr>merkle_tree := tree'\<rparr>;
                     batch = batch_put CF_METADATA META_INITIALIZED [1] batch;
                     batch = batch_put CF_METADATA META_HEIGHT (u64_to_le_bytes 0) batch;
                     batch = batch_put CF_METADATA META_TIP_HASH (as_ref 0) batch;
                     batch = batch_put CF_METADATA META_TIMESTAMP (u64_to_le_bytes ts) batch
                 in case lift_storage (kv_batch_write B (backend S1) batch) of
                      Inl e \<Rightarrow> (Inl e, S1)
                    | Inr s' \<Rightarrow>
                        (Inr new_root,
                         S1\<lparr>backend := s', height := 0, tip_hash := 0, cs_timestamp := ts, initialized := True,
                            unspent_ids := set (map (\<lambda>(c, _). coin_id_of X c) initial_coins)\<rparr>)))"

end
