(* ===== verification/Block_Ops.thy ===== *)
theory Block_Ops
  imports Store
begin

text \<open>
  \<open>apply_block\<close>, \<open>rollback_to_block\<close> and \<open>rollback_n_blocks\<close> of \<open>src/src/coin_store.rs\<close>, cut into
  the phases that the source comments name (validation, row and index writes, hints, Merkle
  update, commit). The functions of a phase take what the source has in scope there.
\<close>

section \<open>Block application: validation\<close>

definition check_removal ::
  "externals \<Rightarrow> 's storage_ops \<Rightarrow> 's coin_store \<Rightarrow> coin_id \<Rightarrow> coin_record list
    \<Rightarrow> coin_store_error + coin_record list" where
  "check_removal X B S removal_id removal_records =
     (case lift_storage (kv_get B (backend S) CF_COIN_RECORDS (coin_key removal_id)) of
        Inl e \<Rightarrow> Inl e
      | Inr None \<Rightarrow> Inl (CoinNotFound removal_id)
      | Inr (Some bytes) \<Rightarrow>
          (case decode_coin_record_bytes X bytes of
             None \<Rightarrow> Inl (StorageError (''apply_block: corrupt coin record for '' @ debug_bytes32 X removal_id))
           | Some rec \<Rightarrow>
               if is_spent rec then Inl (DoubleSpend removal_id) else Inr (removal_records @ [rec])))"

definition check_addition_id ::
  "'s storage_ops \<Rightarrow> 's coin_store \<Rightarrow> coin_id \<Rightarrow> coin_id set \<Rightarrow> coin_store_error + coin_id set" where
  "check_addition_id B S i ids =
     (if i \<in> ids then Inl (CoinAlreadyExists i)
      else case lift_storage (kv_get B (backend S) CF_COIN_RECORDS (coin_key i)) of
          Inl e \<Rightarrow> Inl e
        | Inr (Some _) \<Rightarrow> Inl (CoinAlreadyExists i)
        | Inr None \<Rightarrow> Inr (insert i ids))"

definition check_additions ::
  "externals \<Rightarrow> 's storage_ops \<Rightarrow> 's coin_store \<Rightarrow> block_data \<Rightarrow> coin_store_error + coin_id set" where
  "check_additions X B S block =
     (case try_fold (\<lambda>a. check_addition_id B S (ca_coin_id a)) (additions block) {} of
        Inl e \<Rightarrow> Inl e
      | Inr ids \<Rightarrow> try_fold (\<lambda>c. check_addition_id B S (coin_id_of X c)) (coinbase_coins block) ids)"

definition check_hints :: "block_data \<Rightarrow> coin_store_error + unit" where
  "check_hints block =
     try_fold (\<lambda>(_, hint) _. if length (as_ref hint) > 32 then Inl (HintTooLong (length (as_ref hint)) 32)
                             else Inr ()) (bd_hints block) ()"

definition validate_block ::
  "externals \<Rightarrow> 's storage_ops \<Rightarrow> 's coin_store \<Rightarrow> block_data \<Rightarrow> coin_store_error + coin_record list" where
  "validate_block X B S block =
     (if \<not> initialized S then Inl NotInitialized
      else if bd_height block \<noteq> height S + 1 then Inl (HeightMismatch (height S + 1) (bd_height block))
      else if parent_hash block \<noteq> tip_hash S
      then Inl (ParentHashMismatch (tip_hash S) (parent_hash block))
      else if length (coinbase_coins block) < 2
      then Inl (InvalidRewardCoinCount (''>= '' @ show_nat 2) (length (coinbase_coins block)))
      else case try_fold (check_removal X B S) (removals block) [] of
          Inl e \<Rightarrow> Inl e
        | Inr removal_records \<Rightarrow>
            (case check_additions X B S block of
               Inl e \<Rightarrow> Inl e
             | Inr _ \<Rightarrow>
                 (case check_hints block of Inl e \<Rightarrow> Inl e | Inr _ \<Rightarrow> Inr removal_records)))"

section \<open>Block application: batch\<close>

definition append_coin_record_to_batch ::
  "externals \<Rightarrow> coin_record \<Rightarrow> bytes \<Rightarrow> write_batch \<Rightarrow> write_batch" where
  "append_coin_record_to_batch X rec record_bytes batch =
     (let coin_id = record_coin_id X rec;
          batch = batch_put CF_COIN_RECORDS (coin_key coin_id) record_bytes batch;
          ph_key = puzzle_hash_coin_key (coin_puzzle_hash (cr_coin rec)) coin_id;
          batch = batch_put CF_COIN_BY_PUZZLE_HASH ph_key (as_ref coin_id) batch;
          batch = (if spent_height rec = None then batch_put CF_UNSPENT_BY_PUZZLE_HASH ph_key [] batch
                   else batch);
          batch = batch_put CF_COIN_BY_PARENT (parent_coin_key (parent_coin_info (cr_coin rec)) coin_id)
                    (as_ref coin_id) batch;
          batch = batch_put CF_COIN_BY_CONFIRMED_HEIGHT (height_coin_key (confirmed_height rec) coin_id)
                    (as_ref coin_id) batch
      in case spent_height rec of
           None \<Rightarrow> batch
         | Some spent_h \<Rightarrow>
             batch_put CF_COIN_BY_SPENT_HEIGHT (height_coin_key spent_h coin_id) (as_ref coin_id) batch)"

type_synonym insert_acc = "write_batch \<times> (bytes32 \<times> bytes32) list \<times> nat"

definition insert_record :: "externals \<Rightarrow> coin_record \<Rightarrow> insert_acc \<Rightarrow> coin_store_error + insert_acc" where
  "insert_record X rec = (\<lambda>(batch, merkle_inserts, created).
     case serialize_coin_record_storage_bytes X rec of
       Inl e \<Rightarrow> Inl e
     | Inr record_bytes \<Rightarrow>
         Inr (append_coin_record_to_batch X rec record_bytes batch,
              merkle_inserts @ [(record_coin_id X rec, merkle_leaf_hash X record_bytes)],
              created + 1))"

definition insert_coinbase :: "externals \<Rightarrow> block_data \<Rightarrow> coin \<Rightarrow> insert_acc \<Rightarrow> coin_store_error + insert_acc" where
  "insert_coinbase X block c =
     insert_record X (coin_record_new c (bd_height block) (bd_timestamp block) True)"

definition insert_addition ::
  "externals \<Rightarrow> block_data \<Rightarrow> coin_addition \<Rightarrow> insert_acc \<Rightarrow> coin_store_error + insert_acc" where
  "insert_addition X block a =
     (let rec = coin_record_new (ca_coin a) (bd_height block) (bd_timestamp block) False
      in insert_record X (if same_as_parent a then rec\<lparr>ff_eligible := True\<rparr> else rec))"

definition mark_spent ::
  "externals \<Rightarrow> block_data \<Rightarrow> coin_record \<Rightarrow> write_batch \<times> (bytes32 \<times> bytes32) list
    \<Rightarrow> coin_store_error + write_batch \<times> (bytes32 \<times> bytes32) list" where
  "mark_spent X block rec0 = (\<lambda>(batch, merkle_updates).
     let rec = spend (bd_height block) rec0
     in case serialize_coin_record_storage_bytes X rec of
          Inl e \<Rightarrow> Inl e
        | Inr record_bytes \<Rightarrow>
            let coin_id = record_coin_id X rec;
                batch = batch_put CF_COIN_RECORDS (coin_key coin_id) record_bytes batch;
                batch = batch_delete CF_UNSPENT_BY_PUZZLE_HASH
                          (puzzle_hash_coin_key (coin_puzzle_hash (cr_coin rec)) coin_id) batch;
                batch = batch_put CF_COIN_BY_SPENT_HEIGHT (height_coin_key (bd_height block) coin_id)
                          (as_ref coin_id) batch
            in Inr (batch, merkle_updates @ [(coin_id, merkle_leaf_hash X record_bytes)]))"

definition store_hint :: "coin_id \<times> bytes32 \<Rightarrow> write_batch \<Rightarrow> write_batch" where
  "store_hint = (\<lambda>(coin_id, hint) batch.
     if as_ref hint = replicate 32 0 then batch
     else batch_put CF_HINTS_BY_VALUE (as_ref hint @ as_ref coin_id) []
            (batch_put CF_HINTS (as_ref coin_id @ as_ref hint) [] batch))"

record block_writes =
  bw_batch :: write_batch
  bw_inserts :: "(bytes32 \<times> bytes32) list"
  bw_updates :: "(bytes32 \<times> bytes32) list"
  bw_created :: nat
  bw_spent :: nat

definition block_batch ::
  "externals \<Rightarrow> block_data \<Rightarrow> coin_record list \<Rightarrow> coin_store_error + block_writes" where
  "block_batch X block removal_records =
     (case try_fold (insert_coinbase X block) (coinbase_coins block) (batch_new, [], 0) of
        Inl e \<Rightarrow> Inl e
      | Inr acc \<Rightarrow>
          (case try_fold (insert_addition X block) (additions block) acc of
             Inl e \<Rightarrow> Inl e
           | Inr (batch, merkle_inserts, created) \<Rightarrow>
               (case try_fold (mark_spent X block) removal_records (batch, []) of
                  Inl e \<Rightarrow> Inl e
                | Inr (batch, merkle_updates) \<Rightarrow>
                    Inr \<lparr>bw_batch = fold store_hint (bd_hints block) batch, bw_inserts = merkle_inserts,
                         bw_updates = merkle_updates, bw_created = created,
                         bw_spent = length removal_records\<rparr>)))"

section \<open>Block application: Merkle update and commit\<close>

definition tip_rows :: "block_data \<Rightarrow> write_batch \<Rightarrow> write_batch" where
  "tip_rows block batch =
     batch_put CF_METADATA META_TIMESTAMP (u64_to_le_bytes (bd_timestamp block))
       (batch_put CF_METADATA META_TIP_HASH (as_ref (block_hash block))
         (batch_put CF_METADATA META_HEIGHT (u64_to_le_bytes (bd_height block)) batch))"

definition unspent_after_block :: "externals \<Rightarrow> block_data \<Rightarrow> coin_id set \<Rightarrow> coin_id set" where
  "unspent_after_block X block ids =
     (ids \<union> coin_id_of X ` set (coinbase_coins block) \<union> ca_coin_id ` set (additions block))
       - set (removals block)"

definition commit_block ::
  "externals \<Rightarrow> 's storage_ops \<Rightarrow> block_data \<Rightarrow> block_writes \<Rightarrow> bytes32 \<Rightarrow> 's coin_store
    \<Rightarrow> (coin_store_error + apply_block_result) \<times> 's coin_store" where
  "commit_block X B block w new_root S =
     (case lift_storage (kv_batch_write B (backend S) (tip_rows block (bw_batch w))) of
        Inl e \<Rightarrow> (Inl e, S)
      | Inr s' \<Rightarrow>
          (Inr \<lparr>abr_state_root = new_root, coins_created = bw_created w, coins_spent = bw_spent w,
                abr_height = bd_height block\<rparr>,
           S\<lparr>backend := s', height := bd_height block, tip_hash := block_hash block,
             cs_timestamp := bd_timestamp block,
             unspent_ids := unspent_after_block X block (unspent_ids S)\<rparr>))"

definition merkle_phase ::
  "externals \<Rightarrow> 's storage_ops \<Rightarrow> block_data \<Rightarrow> block_writes \<Rightarrow> 's coin_store
    \<Rightarrow> (coin_store_error + bytes32) \<times> 's coin_store" where
  "merkle_phase X B block w S =
     (case (if bw_inserts w \<noteq> [] then batch_insert (bw_inserts w) (merkle_tree S) else Inr (merkle_tree S)) of
        Inl e \<Rightarrow> (Inl (StorageError (''Merkle insert: '' @ merkle_error_to_string X e)), S)
      | Inr t1 \<Rightarrow>
          (case (if bw_updates w \<noteq> [] then batch_update (bw_updates w) t1 else Inr t1) of
             Inl e \<Rightarrow> (Inl (StorageError (''Merkle update: '' @ merkle_error_to_string X e)), S\<lparr>merkle_tree := t1\<rparr>)
           | Inr t2 \<Rightarrow>
               let (new_root, t3) = smt_root X t2;
                   S3 = S\<lparr>merkle_tree := t3\<rparr>
               in case expected_state_root block of
                    None \<Rightarrow> (Inr new_root, S3)
                  | Some expected \<Rightarrow>
                      if new_root \<noteq> expected then
                        (case rebuild_merkle_tree X B (backend S3) of
                           Inl e \<Rightarrow> (Inl e, S3)
                         | Inr t \<Rightarrow> (Inl (StateRootMismatch expected new_root), S3\<lparr>merkle_tree := t\<rparr>))
                      else (Inr new_root, S3)))"

definition apply_block ::
  "externals \<Rightarrow> 's storage_ops \<Rightarrow> block_data \<Rightarrow> 's coin_store
    \<Rightarrow> (coin_store_error + apply_block_result) \<times> 's coin_store" where
  "apply_block X B block S =
     (case validate_block X B S block of
        Inl e \<Rightarrow> (Inl e, S)
      | Inr removal_records \<Rightarrow>
          (case block_batch X block removal_records of
             Inl e \<Rightarrow> (Inl e, S)
           | Inr w \<Rightarrow>
               (case merkle_phase X B block w S of
                  (Inl e, S') \<Rightarrow> (Inl e, S')
                | (Inr new_root, S') \<Rightarrow> commit_block X B block w new_root S')))"

section \<open>Rollback\<close>

record rollback_acc =
  ra_modified :: "(coin_id, coin_record) hash_map"
  ra_deleted :: nat
  ra_unspent :: nat
  ra_batch :: write_batch
  ra_removals :: "coin_id list"
  ra_updates :: "(bytes32 \<times> bytes32) list"

definition rollback_acc_new :: rollback_acc where
  "rollback_acc_new =
     \<lparr>ra_modified = [], ra_deleted = 0, ra_unspent = 0, ra_batch = batch_new, ra_removals = [], ra_updates = []\<rparr>"

text \<open>The heights \<open>(effective_target + 1)..=self.height\<close>.\<close>

definition heights_above :: "u64 \<Rightarrow> u64 \<Rightarrow> u64 list" where
  "heights_above target tip = map of_nat [unat target + 1..<unat tip + 1]"

definition delete_coin_rows :: "coin_id \<Rightarrow> coin_record \<Rightarrow> write_batch \<Rightarrow> write_batch" where
  "delete_coin_rows coin_id rec batch =
     (let batch = batch_delete CF_COIN_RECORDS (coin_key coin_id) batch;
          ph_key = puzzle_hash_coin_key (coin_puzzle_hash (cr_coin rec)) coin_id;
          batch = batch_delete CF_COIN_BY_PUZZLE_HASH ph_key batch;
          batch = batch_delete CF_UNSPENT_BY_PUZZLE_HASH ph_key batch;
          batch = batch_delete CF_COIN_BY_PARENT (parent_coin_key (parent_coin_info (cr_coin rec)) coin_id) batch;
          batch = batch_delete CF_COIN_BY_CONFIRMED_HEIGHT (height_coin_key (confirmed_height rec) coin_id) batch
      in case spent_height rec of
           None \<Rightarrow> batch
         | Some sh \<Rightarrow> batch_delete CF_COIN_BY_SPENT_HEIGHT (height_coin_key sh coin_id) batch)"

text \<open>\<open>coin_id_from_key(&key[8..40])\<close> after the length check.\<close>

definition key_tail_id :: "bytes \<Rightarrow> coin_id" where
  "key_tail_id key = bytes32_from (slice 8 40 key)"

definition rollback_delete_entry ::
  "externals \<Rightarrow> 's storage_ops \<Rightarrow> 's coin_store \<Rightarrow> kv_pair \<Rightarrow> rollback_acc \<Rightarrow> coin_store_error + rollback_acc" where
  "rollback_delete_entry X B S = (\<lambda>(key, _) acc.
     if length key < 40 then Inr acc
     else
       let coin_id = key_tail_id key
       in case get_coin_record X B S coin_id of
            Inl e \<Rightarrow> Inl e
          | Inr None \<Rightarrow> Inr acc
          | Inr (Some rec) \<Rightarrow>
              Inr (acc\<lparr>ra_modified := hm_insert coin_id rec (ra_modified acc),
                      ra_batch := delete_coin_rows coin_id rec (ra_batch acc),
                      ra_removals := ra_removals acc @ [coin_id],
                      ra_deleted := ra_deleted acc + 1\<rparr>))"

definition rollback_scan ::
  "'s storage_ops \<Rightarrow> 's coin_store \<Rightarrow> string \<Rightarrow> (kv_pair \<Rightarrow> 'acc \<Rightarrow> coin_store_error + 'acc) \<Rightarrow> u64 \<Rightarrow> 'acc
    \<Rightarrow> coin_store_error + 'acc" where
  "rollback_scan B S cf f scan_height acc =
     (case lift_storage (kv_prefix_scan B (backend S) cf (u64_to_be_bytes scan_height)) of
        Inl e \<Rightarrow> Inl e
      | Inr entries \<Rightarrow> try_fold f entries acc)"

definition rollback_hint_entry :: "coin_id \<Rightarrow> kv_pair \<Rightarrow> write_batch \<Rightarrow> write_batch" where
  "rollback_hint_entry coin_id = (\<lambda>(fwd_key, _) batch.
     let batch = (if length fwd_key > 32
                  then batch_delete CF_HINTS_BY_VALUE (drop 32 fwd_key @ as_ref coin_id) batch
                  else batch)
     in batch_delete CF_HINTS fwd_key batch)"

definition rollback_hints ::
  "'s storage_ops \<Rightarrow> 's coin_store \<Rightarrow> coin_id \<Rightarrow> write_batch \<Rightarrow> coin_store_error + write_batch" where
  "rollback_hints B S coin_id batch =
     (case lift_storage (kv_prefix_scan B (backend S) CF_HINTS (as_ref coin_id)) of
        Inl e \<Rightarrow> Inl e
      | Inr entries \<Rightarrow> Inr (fold (rollback_hint_entry coin_id) entries batch))"

definition rollback_unspend_entry ::
  "externals \<Rightarrow> 's storage_ops \<Rightarrow> 's coin_store \<Rightarrow> kv_pair \<Rightarrow> rollback_acc \<Rightarrow> coin_store_error + rollback_acc" where
  "rollback_unspend_entry X B S = (\<lambda>(key, _) acc.
     if length key < 40 then Inr acc
     else
       let coin_id = key_tail_id key
       in if hm_contains_key (ra_modified acc) coin_id
          then Inr (acc\<lparr>ra_batch := batch_delete CF_COIN_BY_SPENT_HEIGHT key (ra_batch acc)\<rparr>)
          else case get_coin_record X B S coin_id of
              Inl e \<Rightarrow> Inl e
            | Inr None \<Rightarrow> Inr acc
            | Inr (Some rec0) \<Rightarrow>
                (case get_coin_record X B S (parent_coin_info (cr_coin rec0)) of
                   Inl e \<Rightarrow> Inl e
                 | Inr parent \<Rightarrow>
                     let rec = rec0\<lparr>spent_height := None, ff_eligible := (parent \<noteq> None)\<rparr>
                     in case serialize_coin_record_storage_bytes X rec of
                          Inl e \<Rightarrow> Inl e
                        | Inr record_bytes \<Rightarrow>
                            let batch = batch_put CF_COIN_RECORDS (coin_key coin_id) record_bytes (ra_batch acc);
                                batch = batch_put CF_UNSPENT_BY_PUZZLE_HASH
                                          (puzzle_hash_coin_key (coin_puzzle_hash (cr_coin rec)) coin_id) [] batch;
                                batch = batch_delete CF_COIN_BY_SPENT_HEIGHT key batch
                            in Inr (acc\<lparr>ra_modified := hm_insert coin_id rec0 (ra_modified acc),
                                       ra_batch := batch,
                                       ra_updates := ra_updates acc @ [(coin_id, merkle_leaf_hash X record_bytes)],
                                       ra_unspent := ra_unspent acc + 1\<rparr>)))"

definition rollback_collect ::
  "externals \<Rightarrow> 's storage_ops \<Rightarrow> 's coin_store \<Rightarrow> u64 \<Rightarrow> coin_store_error + rollback_acc" where
  "rollback_collect X B S effective_target =
     (let hs = heights_above effective_target (height S)
      in case try_fold (rollback_scan B S CF_COIN_BY_CONFIRMED_HEIGHT (rollback_delete_entry X B S)) hs
                rollback_acc_new of
           Inl e \<Rightarrow> Inl e
         | Inr acc \<Rightarrow>
             let deleted_ids = map fst (filter (\<lambda>(_, rec). confirmed_height rec > effective_target) (ra_modified acc))
             in case try_fold (rollback_hints B S) deleted_ids (ra_batch acc) of
                  Inl e \<Rightarrow> Inl e
                | Inr batch \<Rightarrow>
                    try_fold (rollback_scan B S CF_COIN_BY_SPENT_HEIGHT (rollback_unspend_entry X B S)) hs
                      (acc\<lparr>ra_batch := batch\<rparr>))"

definition rollback_commit ::
  "externals \<Rightarrow> 's storage_ops \<Rightarrow> u64 \<Rightarrow> rollback_acc \<Rightarrow> 's coin_store
    \<Rightarrow> (coin_store_error + rollback_result) \<times> 's coin_store" where
  "rollback_commit X B effective_target acc S =
     (case (if ra_removals acc \<noteq> [] then batch_remove (ra_removals acc) (merkle_tree S) else Inr (merkle_tree S)) of
        Inl e \<Rightarrow> (Inl (StorageError (''Merkle remove during rollback: '' @ merkle_error_to_string X e)), S)
      | Inr t1 \<Rightarrow>
          (case (if ra_updates acc \<noteq> [] then batch_update (ra_updates acc) t1 else Inr t1) of
             Inl e \<Rightarrow>
               (Inl (StorageError (''Merkle update during rollback: '' @ merkle_error_to_string X e)),
                S\<lparr>merkle_tree := t1\<rparr>)
           | Inr t2 \<Rightarrow>
               let S2 = S\<lparr>merkle_tree := t2\<rparr>;
                   batch = batch_put CF_METADATA META_HEIGHT (u64_to_le_bytes effective_target) (ra_batch acc);
                   batch = batch_put CF_METADATA META_TIP_HASH (as_ref 0) batch;
                   batch = batch_put CF_METADATA META_TIMESTAMP (u64_to_le_bytes (cs_timestamp S)) batch
               in case lift_storage (kv_batch_write B (backend S2) batch) of
                    Inl e \<Rightarrow> (Inl e, S2)
                  | Inr s' \<Rightarrow>
                      let (new_root, t3) = smt_root X t2
                      in (Inr \<lparr>modified_coins = ra_modified acc, coins_deleted = ra_deleted acc,
                               coins_unspent = ra_unspent acc, new_height = effective_target\<rparr>,
                          S2\<lparr>backend := s', height := effective_target, tip_hash := 0, merkle_tree := t3,
                             unspent_ids := (unspent_ids S - set (ra_removals acc)) \<union> fst ` set (ra_updates acc)\<rparr>)))"

definition rollback_to_block ::
  "externals \<Rightarrow> 's storage_ops \<Rightarrow> i64 \<Rightarrow> 's coin_store
    \<Rightarrow> (coin_store_error + rollback_result) \<times> 's coin_store" where
  "rollback_to_block X B target_height S =
     (if \<not> initialized S then (Inl NotInitialized, S)
      else if sint target_height > sint (height S) then (Inl (RollbackAboveTip target_height (height S)), S)
      else
        let effective_target = (if sint target_height < 0 then 0 else target_height)
        in if height S \<le> effective_target \<and> sint target_height \<ge> 0
           then (Inr \<lparr>modified_coins = [], coins_deleted = 0, coins_unspent = 0, new_height = height S\<rparr>, S)
           else case rollback_collect X B S effective_target of
               Inl e \<Rightarrow> (Inl e, S)
             | Inr acc \<Rightarrow> rollback_commit X B effective_target acc S)"

definition rollback_n_blocks ::
  "externals \<Rightarrow> 's storage_ops \<Rightarrow> u64 \<Rightarrow> 's coin_store
    \<Rightarrow> (coin_store_error + rollback_result) \<times> 's coin_store" where
  "rollback_n_blocks X B n S =
     (if \<not> initialized S then (Inl NotInitialized, S)
      else rollback_to_block X B (height S - n) S)"

end
