(* ===== verification/Store_Inv.thy ===== *)
theory Store_Inv
  imports Block_Ops
begin

text \<open>
  The abstraction of a store: a table of coin records by coin id and a set of hints. The column
  families are projections of the table (\<open>index_is\<close>), the Merkle leaves are the hashes of its
  rows, and the set of unspent ids is read off it; \<open>store_ok\<close> states this together with the
  metadata rows and the bounds on heights. The lemmas say how one write changes one projection.
\<close>

section \<open>Tables and their projections\<close>

type_synonym coin_table = "coin_id \<Rightarrow> coin_record option"

text \<open>The entry of one coin in an index: only records that satisfy \<open>P\<close> have one.\<close>

definition index_entry ::
  "(coin_record \<Rightarrow> bool) \<Rightarrow> (coin_id \<Rightarrow> coin_record \<Rightarrow> bytes) \<Rightarrow> (coin_id \<Rightarrow> coin_record \<Rightarrow> bytes)
    \<Rightarrow> coin_id \<Rightarrow> coin_record option \<Rightarrow> kv_pair option" where
  "index_entry P key val i x =
     (case x of None \<Rightarrow> None | Some r \<Rightarrow> if P r then Some (key i r, val i r) else None)"

definition index_is ::
  "table \<Rightarrow> coin_table \<Rightarrow> (coin_record \<Rightarrow> bool) \<Rightarrow> (coin_id \<Rightarrow> coin_record \<Rightarrow> bytes)
    \<Rightarrow> (coin_id \<Rightarrow> coin_record \<Rightarrow> bytes) \<Rightarrow> bool" where
  "index_is m tbl P key val \<longleftrightarrow>
     (\<forall>k v. m k = Some v \<longleftrightarrow> (\<exists>i. index_entry P key val i (tbl i) = Some (k, v)))"

definition row :: "externals \<Rightarrow> coin_record \<Rightarrow> bytes" where
  "row X r = projr (serialize_coin_record_storage_bytes X r)"

definition ph_key :: "coin_id \<Rightarrow> coin_record \<Rightarrow> bytes" where
  "ph_key i r = puzzle_hash_coin_key (coin_puzzle_hash (cr_coin r)) i"

definition parent_key :: "coin_id \<Rightarrow> coin_record \<Rightarrow> bytes" where
  "parent_key i r = parent_coin_key (parent_coin_info (cr_coin r)) i"

definition confirmed_key :: "coin_id \<Rightarrow> coin_record \<Rightarrow> bytes" where
  "confirmed_key i r = height_coin_key (confirmed_height r) i"

definition spent_key :: "coin_id \<Rightarrow> coin_record \<Rightarrow> bytes" where
  "spent_key i r = height_coin_key (the (spent_height r)) i"

definition disk_ok :: "externals \<Rightarrow> disk \<Rightarrow> coin_table \<Rightarrow> bool" where
  "disk_ok X D tbl \<longleftrightarrow>
     index_is (D CF_COIN_RECORDS) tbl (\<lambda>_. True) (\<lambda>i _. coin_key i) (\<lambda>_. row X)
     \<and> index_is (D CF_COIN_BY_PUZZLE_HASH) tbl (\<lambda>_. True) ph_key (\<lambda>i _. as_ref i)
     \<and> index_is (D CF_UNSPENT_BY_PUZZLE_HASH) tbl (\<lambda>r. spent_height r = None) ph_key (\<lambda>_ _. [])
     \<and> index_is (D CF_COIN_BY_PARENT) tbl (\<lambda>_. True) parent_key (\<lambda>i _. as_ref i)
     \<and> index_is (D CF_COIN_BY_CONFIRMED_HEIGHT) tbl (\<lambda>_. True) confirmed_key (\<lambda>i _. as_ref i)
     \<and> index_is (D CF_COIN_BY_SPENT_HEIGHT) tbl (\<lambda>r. spent_height r \<noteq> None) spent_key (\<lambda>i _. as_ref i)"

definition hints_ok :: "disk \<Rightarrow> (coin_id \<times> bytes) set \<Rightarrow> bool" where
  "hints_ok D Hs \<longleftrightarrow>
     (\<forall>k v. D CF_HINTS k = Some v \<longleftrightarrow> v = [] \<and> (\<exists>(i, h) \<in> Hs. k = as_ref i @ h))
     \<and> (\<forall>k v. D CF_HINTS_BY_VALUE k = Some v \<longleftrightarrow> v = [] \<and> (\<exists>(i, h) \<in> Hs. k = h @ as_ref i))
     \<and> (\<forall>(i, h) \<in> Hs. 0 < length h \<and> length h \<le> 32)"

definition meta_ok :: "disk \<Rightarrow> 's coin_store \<Rightarrow> bool" where
  "meta_ok D S \<longleftrightarrow>
     (if initialized S then
        D CF_METADATA META_INITIALIZED \<noteq> None
        \<and> D CF_METADATA META_HEIGHT = Some (u64_to_le_bytes (height S))
        \<and> D CF_METADATA META_TIP_HASH = Some (as_ref (tip_hash S))
        \<and> D CF_METADATA META_TIMESTAMP = Some (u64_to_le_bytes (cs_timestamp S))
      else
        D CF_METADATA META_INITIALIZED = None \<and> D CF_METADATA META_HEIGHT = None
        \<and> D CF_METADATA META_TIP_HASH = None \<and> D CF_METADATA META_TIMESTAMP = None
        \<and> height S = 0 \<and> tip_hash S = 0 \<and> cs_timestamp S = 0)"

text \<open>Ids are those of the coins, and \<open>confirmed < spent \<le> tip\<close>.\<close>

definition table_ok :: "externals \<Rightarrow> u64 \<Rightarrow> coin_table \<Rightarrow> bool" where
  "table_ok X h tbl \<longleftrightarrow>
     (\<forall>i r. tbl i = Some r \<longrightarrow> record_coin_id X r = i \<and> confirmed_height r \<le> h
        \<and> pred_option (\<lambda>sh. confirmed_height r < sh \<and> sh \<le> h) (spent_height r))"

definition leaf_table :: "externals \<Rightarrow> coin_table \<Rightarrow> bytes32 \<Rightarrow> bytes32 option" where
  "leaf_table X tbl i = map_option (\<lambda>r. merkle_leaf_hash X (row X r)) (tbl i)"

definition unspent_of :: "coin_table \<Rightarrow> coin_id set" where
  "unspent_of tbl = {i. \<exists>r. tbl i = Some r \<and> spent_height r = None}"

definition store_ok ::
  "externals \<Rightarrow> ('s \<Rightarrow> disk) \<Rightarrow> ('s \<Rightarrow> bool) \<Rightarrow> 's coin_store \<Rightarrow> coin_table \<Rightarrow> (coin_id \<times> bytes) set \<Rightarrow> bool" where
  "store_ok X view ok S tbl Hs \<longleftrightarrow>
     ok (backend S) \<and> disk_ok X (view (backend S)) tbl \<and> hints_ok (view (backend S)) Hs
     \<and> meta_ok (view (backend S)) S
     \<and> tree_ok X (merkle_tree S) \<and> map_of (leaves (merkle_tree S)) = leaf_table X tbl
     \<and> unspent_ids S = unspent_of tbl \<and> table_ok X (height S) tbl
     \<and> (initialized S \<or> tbl = Map.empty)"

section \<open>Projections under single writes\<close>

lemma index_entry_simps [simp]:
  "index_entry P key val i None = None"
  "index_entry P key val i (Some r) = (if P r then Some (key i r, val i r) else None)"
  by (simp_all add: index_entry_def)

definition key_inj :: "(coin_id \<Rightarrow> coin_record \<Rightarrow> bytes) \<Rightarrow> bool" where
  "key_inj key \<longleftrightarrow> (\<forall>i r i' r'. key i r = key i' r' \<longrightarrow> i = i')"

lemma key_inj_keys [simp]:
  "key_inj (\<lambda>i _. coin_key i)" "key_inj ph_key" "key_inj parent_key" "key_inj confirmed_key"
  "key_inj spent_key"
  by (auto simp: key_inj_def ph_key_def parent_key_def confirmed_key_def spent_key_def)

lemma index_is_keep:
  assumes "index_is m tbl P key val" "index_entry P key val i x = index_entry P key val i (tbl i)"
  shows "index_is m (tbl(i := x)) P key val"
proof -
  have "index_entry P key val j ((tbl(i := x)) j) = index_entry P key val j (tbl j)" for j
    using assms(2) by simp
  with assms(1) show ?thesis by (simp only: index_is_def simp_thms)
qed

lemma index_is_put:
  assumes "index_is m tbl P key val" "key_inj key" "P r"
    and "\<And>r0. tbl i = Some r0 \<Longrightarrow> P r0 \<Longrightarrow> key i r0 = key i r"
    and "k = key i r" "v = val i r"
  shows "index_is (m(k \<mapsto> v)) (tbl(i \<mapsto> r)) P key val"
  unfolding index_is_def
proof (intro allI)
  fix k' v'
  have other: "index_entry P key val j (tbl j) \<noteq> Some (k, v'')" if "j \<noteq> i" for j v''
    using that assms(2,5) by (cases "tbl j") (auto simp: key_inj_def)
  have self: "index_entry P key val i (tbl i) = Some (k', v') \<Longrightarrow> k' = k"
    using assms(4,5) by (cases "tbl i") (auto split: if_splits)
  show "(m(k \<mapsto> v)) k' = Some v' \<longleftrightarrow>
      (\<exists>j. index_entry P key val j ((tbl(i \<mapsto> r)) j) = Some (k', v'))"
  proof (cases "k' = k")
    case True
    with other assms(3,5,6) show ?thesis by (auto split: if_splits)
  next
    case False
    have "index_entry P key val j ((tbl(i \<mapsto> r)) j) = Some (k', v') \<longleftrightarrow>
        index_entry P key val j (tbl j) = Some (k', v')" for j
      using self False assms(3,5) by (cases "j = i") auto
    with False assms(1) show ?thesis by (simp add: index_is_def del: fun_upd_apply index_entry_simps) simp
  qed
qed

lemma index_is_delete:
  assumes "index_is m tbl P key val" "key_inj key" "tbl i = Some r0" "k = key i r0"
    and "pred_option (Not \<circ> P) x"
  shows "index_is (m(k := None)) (tbl(i := x)) P key val"
  unfolding index_is_def
proof (intro allI)
  fix k' v'
  have new: "index_entry P key val i x = None" using assms(5) by (cases x) auto
  have other: "index_entry P key val j (tbl j) \<noteq> Some (k, v'')" if "j \<noteq> i" for j v''
    using that assms(2,4) by (cases "tbl j") (auto simp: key_inj_def)
  have self: "index_entry P key val i (tbl i) = Some (k', v') \<Longrightarrow> k' = k"
    using assms(3,4) by (auto split: if_splits)
  show "(m(k := None)) k' = Some v' \<longleftrightarrow> (\<exists>j. index_entry P key val j ((tbl(i := x)) j) = Some (k', v'))"
  proof (cases "k' = k")
    case True
    with other new show ?thesis by auto
  next
    case False
    have "index_entry P key val j ((tbl(i := x)) j) = Some (k', v') \<longleftrightarrow>
        index_entry P key val j (tbl j) = Some (k', v')" for j
      using self False new by (cases "j = i") auto
    with False assms(1) show ?thesis by (simp add: index_is_def del: fun_upd_apply index_entry_simps) simp
  qed
qed

lemma index_is_lookup:
  assumes "index_is m tbl (\<lambda>_. True) (\<lambda>i _. coin_key i) val"
  shows "m (coin_key i) = map_option (val i) (tbl i)"
proof (cases "m (coin_key i)")
  case None
  moreover have "m (coin_key i) = Some (val i r)" if "tbl i = Some r" for r
    using assms that unfolding index_is_def by (metis index_entry_simps(2))
  ultimately show ?thesis by (cases "tbl i") auto
next
  case (Some v)
  then obtain j where "index_entry (\<lambda>_. True) (\<lambda>i _. coin_key i) val j (tbl j) = Some (coin_key i, v)"
    using assms by (auto simp: index_is_def)
  then have "tbl i \<noteq> None \<and> v = val i (the (tbl i))" by (cases "tbl j") auto
  with Some show ?thesis by auto
qed

section \<open>Write groups of the operations\<close>

text \<open>The writes that add a row, mark it spent, delete it and mark it unspent again.\<close>

definition coin_ops :: "externals \<Rightarrow> coin_record \<Rightarrow> write_op list" where
  "coin_ops X r =
     (let i = record_coin_id X r
      in [Put CF_COIN_RECORDS (coin_key i) (row X r), Put CF_COIN_BY_PUZZLE_HASH (ph_key i r) (as_ref i)]
         @ (if spent_height r = None then [Put CF_UNSPENT_BY_PUZZLE_HASH (ph_key i r) []] else [])
         @ [Put CF_COIN_BY_PARENT (parent_key i r) (as_ref i),
            Put CF_COIN_BY_CONFIRMED_HEIGHT (confirmed_key i r) (as_ref i)]
         @ (if spent_height r = None then [] else [Put CF_COIN_BY_SPENT_HEIGHT (spent_key i r) (as_ref i)]))"

definition spend_ops :: "externals \<Rightarrow> u64 \<Rightarrow> coin_record \<Rightarrow> write_op list" where
  "spend_ops X h r =
     (let i = record_coin_id X r
      in [Put CF_COIN_RECORDS (coin_key i) (row X (spend h r)),
          Delete CF_UNSPENT_BY_PUZZLE_HASH (ph_key i r),
          Put CF_COIN_BY_SPENT_HEIGHT (height_coin_key h i) (as_ref i)])"

definition delete_ops :: "coin_id \<Rightarrow> coin_record \<Rightarrow> write_op list" where
  "delete_ops i r =
     [Delete CF_COIN_RECORDS (coin_key i), Delete CF_COIN_BY_PUZZLE_HASH (ph_key i r),
      Delete CF_UNSPENT_BY_PUZZLE_HASH (ph_key i r), Delete CF_COIN_BY_PARENT (parent_key i r),
      Delete CF_COIN_BY_CONFIRMED_HEIGHT (confirmed_key i r)]
     @ (if spent_height r = None then [] else [Delete CF_COIN_BY_SPENT_HEIGHT (spent_key i r)])"

definition unspend_ops :: "externals \<Rightarrow> coin_id \<Rightarrow> coin_record \<Rightarrow> coin_record \<Rightarrow> write_op list" where
  "unspend_ops X i r0 r =
     [Put CF_COIN_RECORDS (coin_key i) (row X r), Put CF_UNSPENT_BY_PUZZLE_HASH (ph_key i r) [],
      Delete CF_COIN_BY_SPENT_HEIGHT (spent_key i r0)]"

text \<open>Records that agree on everything an index key depends on.\<close>

definition same_keys :: "coin_record \<Rightarrow> coin_record \<Rightarrow> bool" where
  "same_keys r r' \<longleftrightarrow> cr_coin r = cr_coin r' \<and> confirmed_height r = confirmed_height r'
     \<and> spent_height r = spent_height r'"

lemma same_keys_refl [simp]: "same_keys r r"
  by (simp add: same_keys_def)

lemma key_eqs:
  "cr_coin r = cr_coin r' \<Longrightarrow> ph_key i r = ph_key i r'"
  "cr_coin r = cr_coin r' \<Longrightarrow> parent_key i r = parent_key i r'"
  "confirmed_height r = confirmed_height r' \<Longrightarrow> confirmed_key i r = confirmed_key i r'"
  "spent_height r = spent_height r' \<Longrightarrow> spent_key i r = spent_key i r'"
  by (simp_all add: ph_key_def parent_key_def confirmed_key_def spent_key_def)

lemma key_spend [simp]:
  "ph_key i (spend h r) = ph_key i r" "parent_key i (spend h r) = parent_key i r"
  "confirmed_key i (spend h r) = confirmed_key i r" "spent_key i (spend h r) = height_coin_key h i"
  by (simp_all add: ph_key_def parent_key_def confirmed_key_def spent_key_def)

lemma disk_ok_coin_ops:
  assumes D: "disk_ok X D tbl" and i: "record_coin_id X r = i"
    and old: "\<And>r0. tbl i = Some r0 \<Longrightarrow> same_keys r0 r"
  shows "disk_ok X (apply_ops (coin_ops X r) D) (tbl(i \<mapsto> r))"
proof (cases "spent_height r")
  case None
  then have "apply_ops (coin_ops X r) D CF_COIN_BY_SPENT_HEIGHT = D CF_COIN_BY_SPENT_HEIGHT"
    by (simp add: coin_ops_def Let_def i)
  moreover have "index_is (D CF_COIN_BY_SPENT_HEIGHT) (tbl(i \<mapsto> r)) (\<lambda>r. spent_height r \<noteq> None) spent_key (\<lambda>i _. as_ref i)"
    using D old None unfolding disk_ok_def
    by (intro index_is_keep) (auto simp: same_keys_def index_entry_def split: option.splits)
  ultimately show ?thesis
    using D None unfolding disk_ok_def
    by (auto simp: coin_ops_def Let_def i intro!: index_is_put dest!: old simp: same_keys_def intro: key_eqs)
next
  case (Some h)
  then have "apply_ops (coin_ops X r) D CF_UNSPENT_BY_PUZZLE_HASH = D CF_UNSPENT_BY_PUZZLE_HASH"
    by (simp add: coin_ops_def Let_def i)
  moreover have "index_is (D CF_UNSPENT_BY_PUZZLE_HASH) (tbl(i \<mapsto> r)) (\<lambda>r. spent_height r = None) ph_key (\<lambda>_ _. [])"
    using D old Some unfolding disk_ok_def
    by (intro index_is_keep) (auto simp: same_keys_def index_entry_def split: option.splits)
  ultimately show ?thesis
    using D Some unfolding disk_ok_def
    by (auto simp: coin_ops_def Let_def i intro!: index_is_put dest!: old simp: same_keys_def intro: key_eqs)
qed

lemma disk_ok_spend_ops:
  assumes D: "disk_ok X D tbl" and i: "record_coin_id X r = i" and r: "spent_height r = None"
    and old: "tbl i = Some r0" "r0 = r \<or> r0 = spend h r"
  shows "disk_ok X (apply_ops (spend_ops X h r) D) (tbl(i \<mapsto> spend h r))"
proof -
  have "index_is (D CF_COIN_BY_PUZZLE_HASH) (tbl(i \<mapsto> spend h r)) (\<lambda>_. True) ph_key (\<lambda>i _. as_ref i)"
    "index_is (D CF_COIN_BY_PARENT) (tbl(i \<mapsto> spend h r)) (\<lambda>_. True) parent_key (\<lambda>i _. as_ref i)"
    "index_is (D CF_COIN_BY_CONFIRMED_HEIGHT) (tbl(i \<mapsto> spend h r)) (\<lambda>_. True) confirmed_key (\<lambda>i _. as_ref i)"
    using D old unfolding disk_ok_def by (auto intro!: index_is_keep)
  moreover have "index_is ((D CF_UNSPENT_BY_PUZZLE_HASH)(ph_key i r := None)) (tbl(i \<mapsto> spend h r))
      (\<lambda>r. spent_height r = None) ph_key (\<lambda>_ _. [])"
    using D old unfolding disk_ok_def by (intro index_is_delete [where ?r0.0 = r0]) auto
  moreover have "index_is ((D CF_COIN_BY_SPENT_HEIGHT)(height_coin_key h i \<mapsto> as_ref i)) (tbl(i \<mapsto> spend h r))
      (\<lambda>r. spent_height r \<noteq> None) spent_key (\<lambda>i _. as_ref i)"
    using D old r unfolding disk_ok_def by (intro index_is_put) auto
  moreover have "index_is ((D CF_COIN_RECORDS)(coin_key i \<mapsto> row X (spend h r))) (tbl(i \<mapsto> spend h r))
      (\<lambda>_. True) (\<lambda>i _. coin_key i) (\<lambda>_. row X)"
    using D unfolding disk_ok_def by (intro index_is_put) auto
  ultimately show ?thesis by (simp add: disk_ok_def spend_ops_def Let_def i)
qed

lemma disk_ok_delete_ops:
  assumes D: "disk_ok X D tbl" and old: "tbl i = Some r"
  shows "disk_ok X (apply_ops (delete_ops i r) D) (tbl(i := None))"
proof -
  have "index_is (D CF_COIN_BY_SPENT_HEIGHT) (tbl(i := None)) (\<lambda>r. spent_height r \<noteq> None) spent_key (\<lambda>i _. as_ref i)"
    if "spent_height r = None"
    using D old that unfolding disk_ok_def by (intro index_is_keep) auto
  then show ?thesis
    using D old unfolding disk_ok_def
    by (auto simp: delete_ops_def intro!: index_is_delete)
qed

lemma disk_ok_unspend_ops:
  assumes D: "disk_ok X D tbl" and old: "tbl i = Some r0" "spent_height r0 \<noteq> None"
    and r: "cr_coin r = cr_coin r0" "confirmed_height r = confirmed_height r0" "spent_height r = None"
  shows "disk_ok X (apply_ops (unspend_ops X i r0 r) D) (tbl(i \<mapsto> r))"
proof -
  have "index_is (D CF_COIN_BY_PUZZLE_HASH) (tbl(i \<mapsto> r)) (\<lambda>_. True) ph_key (\<lambda>i _. as_ref i)"
    "index_is (D CF_COIN_BY_PARENT) (tbl(i \<mapsto> r)) (\<lambda>_. True) parent_key (\<lambda>i _. as_ref i)"
    "index_is (D CF_COIN_BY_CONFIRMED_HEIGHT) (tbl(i \<mapsto> r)) (\<lambda>_. True) confirmed_key (\<lambda>i _. as_ref i)"
    using D old r unfolding disk_ok_def by (auto intro!: index_is_keep key_eqs)
  moreover have "index_is ((D CF_UNSPENT_BY_PUZZLE_HASH)(ph_key i r \<mapsto> [])) (tbl(i \<mapsto> r))
      (\<lambda>r. spent_height r = None) ph_key (\<lambda>_ _. [])"
    using D old r unfolding disk_ok_def by (intro index_is_put) auto
  moreover have "index_is ((D CF_COIN_BY_SPENT_HEIGHT)(spent_key i r0 := None)) (tbl(i \<mapsto> r))
      (\<lambda>r. spent_height r \<noteq> None) spent_key (\<lambda>i _. as_ref i)"
    using D old r unfolding disk_ok_def by (intro index_is_delete [where ?r0.0 = r0]) auto
  moreover have "index_is ((D CF_COIN_RECORDS)(coin_key i \<mapsto> row X r)) (tbl(i \<mapsto> r))
      (\<lambda>_. True) (\<lambda>i _. coin_key i) (\<lambda>_. row X)"
    using D unfolding disk_ok_def by (intro index_is_put) auto
  ultimately show ?thesis by (simp add: disk_ok_def unspend_ops_def)
qed

end
