(* ===== verification/Store_Reads.thy ===== *)
theory Store_Reads
  imports Store_Inv
begin

text \<open>
  What the store reads back under the invariant: single rows, scans of the row table, the tree and
  the unspent set rebuilt from disk, and the reopened store.
\<close>

section \<open>Rows\<close>

lemma serialize_row: "bincode_ok X \<Longrightarrow> serialize_coin_record_storage_bytes X r = Inr (row X r)"
  by (auto simp: row_def bincode_ok_def serialize_coin_record_storage_bytes_def encode_coin_record_def
      split: sum.splits) (metis Inr_not_Inl)

lemma decode_row: "bincode_ok X \<Longrightarrow> row_ok r \<Longrightarrow> decode_coin_record_bytes X (row X r) = Some r"
  using row_roundtrip [of X r] by (metis serialize_row sum.inject(2))

lemma table_ok_row: "table_ok X h tbl \<Longrightarrow> tbl i = Some r \<Longrightarrow> row_ok r"
  by (cases "spent_height r") (force simp: table_ok_def row_ok_def)+

lemma table_ok_id: "table_ok X h tbl \<Longrightarrow> tbl i = Some r \<Longrightarrow> record_coin_id X r = i"
  by (auto simp: table_ok_def)

lemma disk_records:
  "disk_ok X D tbl \<Longrightarrow> D CF_COIN_RECORDS k = Some v \<longleftrightarrow> (\<exists>i r. tbl i = Some r \<and> k = coin_key i \<and> v = row X r)"
  by (auto simp: disk_ok_def index_is_def index_entry_def split: option.splits)

lemma disk_record_lookup: "disk_ok X D tbl \<Longrightarrow> D CF_COIN_RECORDS (coin_key i) = map_option (row X) (tbl i)"
  unfolding disk_ok_def by (rule index_is_lookup [of _ _ "\<lambda>_. row X"]) simp

lemma finite_table:
  assumes "disk_ok X D tbl" "finite (dom (D CF_COIN_RECORDS))"
  shows "finite (dom tbl)"
proof -
  have "coin_key ` dom tbl \<subseteq> dom (D CF_COIN_RECORDS)" using disk_records [OF assms(1)] by auto
  then have "finite (coin_key ` dom tbl)" using assms(2) by (rule finite_subset)
  then show ?thesis by (rule finite_imageD) (simp add: inj_on_def)
qed

text \<open>The ids and records behind the entries of the row table, in key order.\<close>

definition table_rows :: "coin_table \<Rightarrow> (coin_id \<times> coin_record) list" where
  "table_rows tbl = map (\<lambda>i. (i, the (tbl i))) (sorted_list_of_set (dom tbl))"

lemma set_table_rows: "finite (dom tbl) \<Longrightarrow> set (table_rows tbl) = {(i, r). tbl i = Some r}"
  by (auto simp: table_rows_def image_iff intro!: bexI)

lemma distinct_table_rows: "distinct (map fst (table_rows tbl))"
  by (simp add: table_rows_def comp_def)

lemma map_of_table_rows: "finite (dom tbl) \<Longrightarrow> map_of (table_rows tbl) = tbl"
proof
  fix i
  assume "finite (dom tbl)"
  then have "map_of (table_rows tbl) i = Some r \<longleftrightarrow> tbl i = Some r" for r
    by (simp add: map_of_eq_Some_iff [OF distinct_table_rows] set_table_rows)
  then show "map_of (table_rows tbl) i = tbl i" by (metis option.exhaust)
qed

lemma scan_records:
  assumes "disk_ok X D tbl" "finite (dom (D CF_COIN_RECORDS))"
  shows "scan_entries (D CF_COIN_RECORDS) [] = map (\<lambda>(i, r). (coin_key i, row X r)) (table_rows tbl)"
proof (rule sym, rule scan_entries_eqI)
  let ?es = "map (\<lambda>(i, r). (coin_key i, row X r)) (table_rows tbl)"
  have fin: "finite (dom tbl)" by (rule finite_table [OF assms])
  have keys: "map fst ?es = map coin_key (sorted_list_of_set (dom tbl))"
    by (simp add: table_rows_def comp_def)
  have "sorted_wrt (<) (map coin_key (sorted_list_of_set (dom tbl)))"
    unfolding sorted_wrt_map coin_key_def as_ref_less by (simp add: strict_sorted_list_of_set)
  then show "sorted (map fst ?es)" "distinct (map fst ?es)"
    by (simp_all only: keys strict_sorted_iff)
  show "set ?es = {(k, v). D CF_COIN_RECORDS k = Some v \<and> prefix [] k}"
    using disk_records [OF assms(1)] set_table_rows [OF fin] by (force simp: image_iff)
qed

section \<open>Reading through a reliable backend\<close>

lemma key_ok_meta [simp]:
  "key_ok META_HEIGHT" "key_ok META_TIP_HASH" "key_ok META_TIMESTAMP" "key_ok META_INITIALIZED"
  by (simp_all add: key_ok_def META_HEIGHT_def META_TIP_HASH_def META_TIMESTAMP_def META_INITIALIZED_def)

lemma meta_neq [simp]:
  "META_HEIGHT \<noteq> META_TIP_HASH" "META_HEIGHT \<noteq> META_TIMESTAMP" "META_HEIGHT \<noteq> META_INITIALIZED"
  "META_TIP_HASH \<noteq> META_TIMESTAMP" "META_TIP_HASH \<noteq> META_INITIALIZED"
  "META_TIMESTAMP \<noteq> META_INITIALIZED" "META_TIP_HASH \<noteq> META_HEIGHT" "META_TIMESTAMP \<noteq> META_HEIGHT"
  "META_INITIALIZED \<noteq> META_HEIGHT" "META_TIMESTAMP \<noteq> META_TIP_HASH" "META_INITIALIZED \<noteq> META_TIP_HASH"
  "META_INITIALIZED \<noteq> META_TIMESTAMP"
  by (simp_all add: META_HEIGHT_def META_TIP_HASH_def META_TIMESTAMP_def META_INITIALIZED_def)

lemma leaf_entries:
  assumes "finite (dom tbl)"
  shows "map_of (rev (map (\<lambda>(i, r). (i, merkle_leaf_hash X (row X r))) (table_rows tbl))) = leaf_table X tbl"
proof
  fix i
  let ?es = "map (\<lambda>(i, r). (i, merkle_leaf_hash X (row X r))) (table_rows tbl)"
  have "distinct (map fst (rev ?es))"
    using distinct_table_rows [of tbl] by (simp add: rev_map [symmetric] comp_def split_def)
  then have "map_of (rev ?es) i = Some h \<longleftrightarrow> leaf_table X tbl i = Some h" for h
    using set_table_rows [OF assms] by (auto simp: map_of_eq_Some_iff leaf_table_def image_iff)
  then show "map_of (rev ?es) i = leaf_table X tbl i" by (metis option.exhaust)
qed

lemma fold_unspent:
  assumes "bincode_ok X" "table_ok X h tbl" "\<forall>(i, r) \<in> set rows. tbl i = Some r"
  shows "fold (\<lambda>(key, val) ids.
            case decode_coin_record_bytes X val of
              None \<Rightarrow> ids
            | Some rec \<Rightarrow> if spent_height rec = None then insert (record_coin_id X rec) ids else ids)
          (map (\<lambda>(i, r). (coin_key i, row X r)) rows) ids
       = ids \<union> {i. \<exists>r. (i, r) \<in> set rows \<and> spent_height r = None}"
  using assms(3)
proof (induction rows arbitrary: ids)
  case Nil
  then show ?case by simp
next
  case (Cons e rows)
  obtain i r where e: "e = (i, r)" by fastforce
  with Cons.prems have "decode_coin_record_bytes X (row X r) = Some r" "record_coin_id X r = i"
    using decode_row [OF assms(1)] table_ok_row [OF assms(2)] table_ok_id [OF assms(2)] by auto
  with Cons e show ?case by auto
qed

context reliable_backend
begin

lemma read_record:
  assumes "bincode_ok X" "ok (backend S)" "disk_ok X (view (backend S)) tbl" "table_ok X h tbl"
  shows "get_coin_record X B S i = Inr (tbl i)"
proof (cases "tbl i")
  case None
  with assms show ?thesis
    by (simp add: get_coin_record_def get_eq disk_record_lookup)
next
  case (Some r)
  with assms decode_row [OF assms(1) table_ok_row [OF assms(4) Some]] show ?thesis
    by (simp add: get_coin_record_def get_eq disk_record_lookup)
qed

lemma read_rows:
  assumes "ok s" "disk_ok X (view s) tbl"
  shows "kv_prefix_scan B s CF_COIN_RECORDS [] = Inr (map (\<lambda>(i, r). (coin_key i, row X r)) (table_rows tbl))"
  using assms scan_records [OF assms(2) view_finite] by (simp add: scan_eq)

lemma rebuild_tree:
  assumes "ok s" "disk_ok X (view s) tbl"
  obtains t where "rebuild_merkle_tree X B s = Inr t" "tree_ok X t"
    "map_of (leaves t) = leaf_table X tbl"
proof -
  let ?es = "map (\<lambda>(i, r). (i, merkle_leaf_hash X (row X r))) (table_rows tbl)"
  have fin: "finite (dom tbl)" using finite_table [OF assms(2) view_finite [OF assms(1)]] .
  have those: "those (map (\<lambda>(key, val). map_option (\<lambda>i. (i, merkle_leaf_hash X val)) (coin_id_from_key key))
      (map (\<lambda>(i, r). (coin_key i, row X r)) rows)) = Some (map (\<lambda>(i, r). (i, merkle_leaf_hash X (row X r))) rows)"
    for rows :: "(coin_id \<times> coin_record) list" by (induction rows) auto
  obtain t where t: "batch_insert ?es (smt_new X) = Inr t"
    by (auto simp: batch_insert_Inr smt_new_def)
  have "map_of (leaves t) = leaf_table X tbl"
    using t leaf_entries [OF fin] by (auto simp: batch_insert_Inr map_of_smt_insert_all smt_new_def)
  moreover have "rebuild_merkle_tree X B s = Inr (if ?es = [] then smt_new X else t)"
    unfolding rebuild_merkle_tree_def read_rows [OF assms] by (simp add: those t del: map_map)
  moreover have "leaf_table X tbl = Map.empty" if "?es = []"
    using leaf_entries [OF fin, of X] that by simp
  moreover have "leaves (smt_new X) = []" by (simp add: smt_new_def)
  ultimately show thesis
    using that [of "if ?es = [] then smt_new X else t"] tree_ok_batch(1) [OF tree_ok_new t]
    by (auto split: if_splits)
qed

lemma rebuild_unspent:
  assumes "bincode_ok X" "ok s" "disk_ok X (view s) tbl" "table_ok X h tbl"
  shows "rebuild_unspent_ids_from_backend X B s = Inr (unspent_of tbl)"
proof -
  have fin: "finite (dom tbl)" using finite_table [OF assms(3) view_finite [OF assms(2)]] .
  show ?thesis
    unfolding rebuild_unspent_ids_from_backend_def read_rows [OF assms(2,3)]
    using fold_unspent [OF assms(1,4), of "table_rows tbl" "{}"] set_table_rows [OF fin]
    by (auto simp: unspent_of_def)
qed

lemma reopen:
  assumes "bincode_ok X" "store_ok X view ok S tbl Hs"
  obtains S' where "open_store X B config (backend S) = Inr S'" "store_ok X view ok S' tbl Hs"
    "backend S' = backend S" "cs_config S' = config" "height S' = height S" "tip_hash S' = tip_hash S"
    "cs_timestamp S' = cs_timestamp S" "initialized S' = initialized S" "unspent_ids S' = unspent_ids S"
proof -
  note ok = assms(2) [unfolded store_ok_def]
  obtain t where t: "rebuild_merkle_tree X B (backend S) = Inr t" "tree_ok X t"
    "map_of (leaves t) = leaf_table X tbl" using rebuild_tree ok by blast
  let ?t = "if initialized S then t else smt_new X"
  have tree: "tree_ok X ?t" using t by simp
  have leaves: "map_of (leaves ?t) = leaf_table X tbl"
    using t ok by (auto simp: leaf_table_def smt_new_def fun_eq_iff)
  have "open_store X B config (backend S) =
      Inr \<lparr>cs_config = config, backend = backend S, merkle_tree = ?t, height = height S, tip_hash = tip_hash S,
           cs_timestamp = cs_timestamp S, initialized = initialized S, unspent_ids = unspent_ids S\<rparr>"
    using ok t(1) rebuild_unspent [OF assms(1), of "backend S" tbl "height S"]
    by (cases "initialized S")
      (auto simp: open_store_def get_eq meta_ok_def meta_u64_def meta_bytes32_def unspent_of_def)
  with that tree leaves ok show thesis by (simp add: store_ok_def meta_ok_def)
qed

end

end
