(* ===== verification/Apply_Block.thy ===== *)
theory Apply_Block
  imports Store_Reads
begin

text \<open>
  Block application refines a step on the abstract table: \<open>block_error\<close> is the first failing
  check, \<open>block_table\<close> the new table and \<open>block_hints\<close> the hints of an accepted block.
\<close>

section \<open>Specification\<close>

definition addition_record :: "block_data \<Rightarrow> coin_addition \<Rightarrow> coin_record" where
  "addition_record block a =
     (coin_record_new (ca_coin a) (bd_height block) (bd_timestamp block) False)\<lparr>ff_eligible := same_as_parent a\<rparr>"

definition new_records :: "block_data \<Rightarrow> coin_record list" where
  "new_records block =
     map (\<lambda>c. coin_record_new c (bd_height block) (bd_timestamp block) True) (coinbase_coins block)
     @ map (addition_record block) (additions block)"

definition record_map :: "externals \<Rightarrow> coin_record list \<Rightarrow> coin_table" where
  "record_map X rs = map_of (map (\<lambda>r. (record_coin_id X r, r)) rs)"

definition block_table :: "externals \<Rightarrow> block_data \<Rightarrow> coin_table \<Rightarrow> coin_table" where
  "block_table X block tbl i =
     (if i \<in> set (removals block) then map_option (spend (bd_height block)) (tbl i)
      else (tbl ++ record_map X (new_records block)) i)"

definition block_hints :: "block_data \<Rightarrow> (coin_id \<times> bytes) set" where
  "block_hints block = (\<lambda>(i, h). (i, as_ref h)) ` {(i, h) \<in> set (bd_hints block). h \<noteq> 0}"

fun clash :: "coin_table \<Rightarrow> coin_id set \<Rightarrow> coin_id list \<Rightarrow> coin_id option" where
  "clash tbl seen [] = None"
| "clash tbl seen (i # is) = (if i \<in> seen \<or> tbl i \<noteq> None then Some i else clash tbl (insert i seen) is)"

definition bad_removal :: "coin_table \<Rightarrow> coin_id \<Rightarrow> bool" where
  "bad_removal tbl i \<longleftrightarrow> (case tbl i of None \<Rightarrow> True | Some r \<Rightarrow> is_spent r)"

definition removal_error :: "coin_table \<Rightarrow> coin_id \<Rightarrow> coin_store_error" where
  "removal_error tbl i = (if tbl i = None then CoinNotFound i else DoubleSpend i)"

definition block_error ::
  "externals \<Rightarrow> 's coin_store \<Rightarrow> coin_table \<Rightarrow> block_data \<Rightarrow> coin_store_error option" where
  "block_error X S tbl block =
     (if \<not> initialized S then Some NotInitialized
      else if bd_height block \<noteq> height S + 1 then Some (HeightMismatch (height S + 1) (bd_height block))
      else if parent_hash block \<noteq> tip_hash S then Some (ParentHashMismatch (tip_hash S) (parent_hash block))
      else if length (coinbase_coins block) < 2
      then Some (InvalidRewardCoinCount (''>= '' @ show_nat 2) (length (coinbase_coins block)))
      else case find (bad_removal tbl) (removals block) of
          Some i \<Rightarrow> Some (removal_error tbl i)
        | None \<Rightarrow>
            map_option CoinAlreadyExists
              (clash tbl {} (map ca_coin_id (additions block) @ map (coin_id_of X) (coinbase_coins block))))"

section \<open>Loops\<close>

lemma try_fold_pure:
  assumes "\<And>x st. x \<in> set xs \<Longrightarrow> f x st = Inr (g x st)"
  shows "try_fold f xs st = Inr (fold g xs st)"
  using assms by (induction xs arbitrary: st) auto

lemma try_fold_append:
  "try_fold f (xs @ ys) st = (case try_fold f xs st of Inl e \<Rightarrow> Inl e | Inr st' \<Rightarrow> try_fold f ys st')"
  by (induction xs arbitrary: st) (auto split: sum.splits)

lemma try_fold_map: "try_fold f (map g xs) st = try_fold (\<lambda>x. f (g x)) xs st"
  by (induction xs arbitrary: st) (auto split: sum.splits)

section \<open>Validation\<close>

lemma clash_None: "clash tbl seen is = None \<longleftrightarrow> distinct is \<and> set is \<inter> (seen \<union> dom tbl) = {}"
  by (induction "is" arbitrary: seen) auto

lemma check_hints_ok: "check_hints block = Inr ()"
  unfolding check_hints_def
  by (subst try_fold_pure [where g = "\<lambda>_ _. ()"]) (auto split: prod.splits)

context reliable_backend
begin

lemma removals_checked:
  assumes "bincode_ok X" "ok (backend S)" "disk_ok X (view (backend S)) tbl" "table_ok X h tbl"
  shows "try_fold (check_removal X B S) is acc =
    (case find (bad_removal tbl) is of
       Some i \<Rightarrow> Inl (removal_error tbl i)
     | None \<Rightarrow> Inr (acc @ map (\<lambda>i. the (tbl i)) is))"
proof (induction "is" arbitrary: acc)
  case Nil
  then show ?case by simp
next
  case (Cons i "is")
  have "check_removal X B S i acc = (if bad_removal tbl i then Inl (removal_error tbl i) else Inr (acc @ [the (tbl i)]))"
    using assms decode_row [OF assms(1) table_ok_row [OF assms(4)]]
    by (cases "tbl i")
      (auto simp: check_removal_def get_eq disk_record_lookup bad_removal_def removal_error_def)
  with Cons show ?case by (simp split: option.splits)
qed

lemma ids_checked:
  assumes "ok (backend S)" "disk_ok X (view (backend S)) tbl"
  shows "try_fold (check_addition_id B S) is seen =
    (case clash tbl seen is of Some i \<Rightarrow> Inl (CoinAlreadyExists i) | None \<Rightarrow> Inr (seen \<union> set is))"
proof (induction "is" arbitrary: seen)
  case Nil
  then show ?case by simp
next
  case (Cons i "is")
  have "check_addition_id B S i seen =
      (if i \<in> seen \<or> tbl i \<noteq> None then Inl (CoinAlreadyExists i) else Inr (insert i seen))"
    using assms by (cases "tbl i") (auto simp: check_addition_id_def get_eq disk_record_lookup)
  with Cons show ?case by (simp split: option.splits)
qed

lemma validated:
  assumes "bincode_ok X" "store_ok X view ok S tbl Hs"
  shows "validate_block X B S block =
    (case block_error X S tbl block of
       Some e \<Rightarrow> Inl e
     | None \<Rightarrow> Inr (map (\<lambda>i. the (tbl i)) (removals block)))"
proof -
  have ok: "ok (backend S)" "disk_ok X (view (backend S)) tbl" "table_ok X (height S) tbl"
    using assms(2) by (simp_all add: store_ok_def)
  let ?ids = "map ca_coin_id (additions block) @ map (coin_id_of X) (coinbase_coins block)"
  have "check_additions X B S block = try_fold (check_addition_id B S) ?ids {}"
    by (simp add: check_additions_def try_fold_append try_fold_map split: sum.splits)
  then have "check_additions X B S block =
      (case clash tbl {} ?ids of Some i \<Rightarrow> Inl (CoinAlreadyExists i) | None \<Rightarrow> Inr (set ?ids))"
    using ids_checked [OF ok(1,2)] by (simp split: option.splits)
  then show ?thesis
    using removals_checked [OF assms(1) ok, of "removals block" "[]"]
    by (simp add: validate_block_def block_error_def check_hints_ok split: option.splits)
qed

end

section \<open>The batch\<close>

lemma append_coin_ops:
  "append_coin_record_to_batch X r (row X r) batch = batch @ coin_ops X r"
  by (simp add: append_coin_record_to_batch_def coin_ops_def Let_def batch_put_def ph_key_def parent_key_def
      confirmed_key_def spent_key_def split: option.splits)

definition leaf_entry :: "externals \<Rightarrow> coin_record \<Rightarrow> bytes32 \<times> bytes32" where
  "leaf_entry X r = (record_coin_id X r, merkle_leaf_hash X (row X r))"

lemma insert_record_pure:
  "bincode_ok X \<Longrightarrow> insert_record X r (b, ins, n) = Inr (b @ coin_ops X r, ins @ [leaf_entry X r], n + 1)"
  by (simp add: insert_record_def serialize_row append_coin_ops leaf_entry_def)

lemma insert_records:
  "bincode_ok X \<Longrightarrow> try_fold (insert_record X) rs (b, ins, n) =
     Inr (b @ concat (map (coin_ops X) rs), ins @ map (leaf_entry X) rs, n + length rs)"
  by (induction rs arbitrary: b ins n) (auto simp: insert_record_pure)

lemma insert_coins_of_block:
  assumes "bincode_ok X"
  shows "(case try_fold (insert_coinbase X block) (coinbase_coins block) (batch_new, [], 0) of
      Inl e \<Rightarrow> Inl e
    | Inr acc \<Rightarrow> try_fold (insert_addition X block) (additions block) acc) =
    Inr (concat (map (coin_ops X) (new_records block)), map (leaf_entry X) (new_records block),
         length (new_records block))"
proof -
  have "insert_addition X block = (\<lambda>a. insert_record X (addition_record block a))"
    by (auto simp: fun_eq_iff insert_addition_def addition_record_def Let_def coin_record_new_def)
  then have "(case try_fold (insert_coinbase X block) (coinbase_coins block) (batch_new, [], 0) of
      Inl e \<Rightarrow> Inl e
    | Inr acc \<Rightarrow> try_fold (insert_addition X block) (additions block) acc)
    = try_fold (insert_record X) (new_records block) (batch_new, [], 0)"
    by (simp add: new_records_def insert_coinbase_def [abs_def] try_fold_append try_fold_map split: sum.splits)
  also have "\<dots> = Inr (concat (map (coin_ops X) (new_records block)), map (leaf_entry X) (new_records block),
         length (new_records block))"
    using insert_records [OF assms] by (simp add: batch_new_def)
  finally show ?thesis .
qed

lemma mark_spent_all:
  assumes "bincode_ok X"
  shows "try_fold (mark_spent X block) rs (b, ups) =
     Inr (b @ concat (map (spend_ops X (bd_height block)) rs),
          ups @ map (\<lambda>r. leaf_entry X (spend (bd_height block) r)) rs)"
  using assms
  by (induction rs arbitrary: b ups)
    (auto simp: mark_spent_def serialize_row spend_ops_def leaf_entry_def Let_def batch_put_def batch_delete_def
      ph_key_def)

definition hint_ops :: "coin_id \<times> bytes32 \<Rightarrow> write_op list" where
  "hint_ops = (\<lambda>(i, h). if h = 0 then []
     else [Put CF_HINTS (as_ref i @ as_ref h) [], Put CF_HINTS_BY_VALUE (as_ref h @ as_ref i) []])"

lemma as_ref_zero: "as_ref h = replicate 32 0 \<longleftrightarrow> h = 0"
proof -
  have "as_ref (0 :: bytes32) = replicate 32 0"
    by (rule nth_equalityI) (simp_all add: nth_as_ref)
  then show ?thesis by (metis as_ref_inject)
qed

lemma store_hints: "fold store_hint hs b = b @ concat (map hint_ops hs)"
  by (induction hs arbitrary: b)
    (auto simp: store_hint_def hint_ops_def batch_put_def as_ref_zero split: prod.splits)

definition block_ops :: "externals \<Rightarrow> block_data \<Rightarrow> coin_record list \<Rightarrow> write_op list" where
  "block_ops X block rs = concat (map (coin_ops X) (new_records block))
     @ concat (map (spend_ops X (bd_height block)) rs) @ concat (map hint_ops (bd_hints block))"

lemma block_batch_eq:
  assumes "bincode_ok X"
  shows "block_batch X block rs = Inr \<lparr>bw_batch = block_ops X block rs,
     bw_inserts = map (leaf_entry X) (new_records block),
     bw_updates = map (\<lambda>r. leaf_entry X (spend (bd_height block) r)) rs,
     bw_created = length (new_records block), bw_spent = length rs\<rparr>"
proof -
  obtain acc where acc: "try_fold (insert_coinbase X block) (coinbase_coins block) (batch_new, [], 0) = Inr acc"
    "try_fold (insert_addition X block) (additions block) acc =
       Inr (concat (map (coin_ops X) (new_records block)), map (leaf_entry X) (new_records block),
         length (new_records block))"
    using insert_coins_of_block [OF assms, of block] by (auto split: sum.splits)
  show ?thesis
    by (simp add: block_batch_def acc mark_spent_all [OF assms] store_hints block_ops_def)
qed

section \<open>Effect of the batch\<close>

definition index_cfs :: "string set" where
  "index_cfs = {CF_COIN_RECORDS, CF_COIN_BY_PUZZLE_HASH, CF_UNSPENT_BY_PUZZLE_HASH, CF_COIN_BY_PARENT,
     CF_COIN_BY_CONFIRMED_HEIGHT, CF_COIN_BY_SPENT_HEIGHT}"

definition hint_cfs :: "string set" where
  "hint_cfs = {CF_HINTS, CF_HINTS_BY_VALUE}"

lemma disk_ok_cong: "(\<And>cf. cf \<in> index_cfs \<Longrightarrow> D' cf = D cf) \<Longrightarrow> disk_ok X D' tbl \<longleftrightarrow> disk_ok X D tbl"
  by (simp add: disk_ok_def index_cfs_def)

lemma hints_ok_cong: "(\<And>cf. cf \<in> hint_cfs \<Longrightarrow> D' cf = D cf) \<Longrightarrow> hints_ok D' Hs \<longleftrightarrow> hints_ok D Hs"
  by (simp add: hints_ok_def hint_cfs_def)

lemma cf_classes [simp]:
  "CF_METADATA \<notin> index_cfs" "CF_METADATA \<notin> hint_cfs" "CF_HINTS \<notin> index_cfs"
  "CF_HINTS_BY_VALUE \<notin> index_cfs" "index_cfs \<inter> hint_cfs = {}"
  by (auto simp: index_cfs_def hint_cfs_def)

lemma ops_cfs:
  "op_cf ` set (coin_ops X r) \<subseteq> index_cfs" "op_cf ` set (spend_ops X h r) \<subseteq> index_cfs"
  "op_cf ` set (delete_ops i r) \<subseteq> index_cfs" "op_cf ` set (unspend_ops X i r r') \<subseteq> index_cfs"
  "op_cf ` set (hint_ops e) \<subseteq> hint_cfs"
  by (auto simp: coin_ops_def spend_ops_def delete_ops_def unspend_ops_def hint_ops_def index_cfs_def
      hint_cfs_def Let_def split: prod.splits)

lemma ops_ok:
  "list_all op_ok (coin_ops X r)" "list_all op_ok (spend_ops X h r)" "list_all op_ok (delete_ops i r)"
  "list_all op_ok (unspend_ops X i r r')" "list_all op_ok (hint_ops e)"
  by (auto simp: coin_ops_def spend_ops_def delete_ops_def unspend_ops_def hint_ops_def Let_def op_ok_def
      ph_key_def parent_key_def confirmed_key_def spent_key_def key_ok_def split: prod.splits)

lemma list_all_concat_map: "(\<And>x. x \<in> set xs \<Longrightarrow> list_all P (f x)) \<Longrightarrow> list_all P (concat (map f xs))"
  by (auto simp: list_all_iff)

lemma cfs_concat_map: "(\<And>x. op_cf ` set (f x) \<subseteq> C) \<Longrightarrow> op_cf ` set (concat (map f xs)) \<subseteq> C"
  by fastforce

lemma apply_ops_outside: "op_cf ` set b \<subseteq> C \<Longrightarrow> cf \<notin> C \<Longrightarrow> apply_ops b D cf = D cf"
  by (rule apply_ops_other) auto

text \<open>A change by legal writes to the families of coins, hints and metadata.\<close>

definition state_cfs :: "string set" where
  "state_cfs = index_cfs \<union> hint_cfs \<union> {CF_METADATA}"

lemma state_cfsI: "A \<subseteq> index_cfs \<Longrightarrow> A \<subseteq> state_cfs" "A \<subseteq> hint_cfs \<Longrightarrow> A \<subseteq> state_cfs" "CF_METADATA \<in> state_cfs"
  by (auto simp: state_cfs_def)

text \<open>The rows of the metadata: a flag, the two numbers and the hash of the tip.\<close>

definition meta_row :: "bytes \<Rightarrow> bytes \<Rightarrow> bool" where
  "meta_row k v \<longleftrightarrow> (k = META_INITIALIZED \<and> v = [1]) \<or> ((k = META_HEIGHT \<or> k = META_TIMESTAMP) \<and> length v = 8)
     \<or> (k = META_TIP_HASH \<and> length v = 32)"

definition meta_typed :: "disk \<Rightarrow> bool" where
  "meta_typed D \<longleftrightarrow> (\<forall>k v. D CF_METADATA k = Some v \<longrightarrow> meta_row k v)"

definition op_typed :: "write_op \<Rightarrow> bool" where
  "op_typed op \<longleftrightarrow> (case op of Put cf k v \<Rightarrow> cf = CF_METADATA \<longrightarrow> meta_row k v | Delete cf k \<Rightarrow> True)"

lemma meta_typed_ops: "list_all op_typed b \<Longrightarrow> meta_typed D \<Longrightarrow> meta_typed (apply_ops b D)"
proof (induction b arbitrary: D)
  case Nil
  then show ?case by simp
next
  case (Cons op b)
  have "meta_typed (apply_op op D)"
    using Cons.prems by (cases op) (auto simp: meta_typed_def op_typed_def)
  with Cons show ?case by simp
qed

lemma op_typed_other: "CF_METADATA \<notin> op_cf ` set b \<Longrightarrow> list_all op_typed b"
  by (force simp: list_all_iff op_typed_def image_iff split: write_op.split)

lemma op_typed_cfs:
  "op_cf ` set b \<subseteq> index_cfs \<Longrightarrow> list_all op_typed b" "op_cf ` set b \<subseteq> hint_cfs \<Longrightarrow> list_all op_typed b"
  by (rule op_typed_other, use cf_classes in blast)+

lemma meta_row_writes [simp]:
  "meta_row META_INITIALIZED [1]" "meta_row META_HEIGHT (u64_to_le_bytes n)" "meta_row META_TIMESTAMP (u64_to_le_bytes n)"
  "meta_row META_TIP_HASH (as_ref h)"
  by (simp_all add: meta_row_def u64_to_le_bytes_def)

text \<open>The families that no operation of the store writes.\<close>

definition others_empty :: "disk \<Rightarrow> bool" where
  "others_empty D \<longleftrightarrow> (\<forall>cf. cf \<notin> state_cfs \<and> cf \<noteq> CF_STATE_SNAPSHOTS \<longrightarrow> D cf = Map.empty)"

definition kept :: "disk \<Rightarrow> disk \<Rightarrow> bool" where
  "kept D D' \<longleftrightarrow> (\<forall>cf. cf \<notin> state_cfs \<longrightarrow> D' cf = D cf) \<and> (keys_ok D \<longrightarrow> keys_ok D') \<and> (meta_typed D \<longrightarrow> meta_typed D')"

lemma keptI:
  assumes "list_all op_ok b" "op_cf ` set b \<subseteq> state_cfs" "list_all op_typed b"
  shows "kept D (apply_ops b D)"
  unfolding kept_def using apply_ops_outside [OF assms(2)] keys_ok_apply_ops [OF assms(1)] meta_typed_ops [OF assms(3)] by simp

lemma kept_trans: "kept D D1 \<Longrightarrow> kept D1 D2 \<Longrightarrow> kept D D2"
  by (simp add: kept_def)

lemma kept_refl [simp]: "kept D D"
  by (simp add: kept_def)

lemma record_map_Cons: "record_map X (r # rs) = (record_map X rs)(record_coin_id X r \<mapsto> r)"
  by (simp add: record_map_def)

lemma record_map_Nil [simp]: "record_map X [] = Map.empty"
  by (simp add: record_map_def)

lemma dom_record_map: "dom (record_map X rs) = record_coin_id X ` set rs"
  by (force simp: record_map_def dom_map_of_conv_image_fst)

lemma disk_ok_inserts:
  assumes "disk_ok X D tbl" "distinct (map (record_coin_id X) rs)" "record_coin_id X ` set rs \<inter> dom tbl = {}"
  shows "disk_ok X (apply_ops (concat (map (coin_ops X) rs)) D) (tbl ++ record_map X rs)"
  using assms
proof (induction rs arbitrary: D tbl)
  case Nil
  then show ?case by simp
next
  case (Cons r rs)
  let ?i = "record_coin_id X r"
  have D: "disk_ok X (apply_ops (coin_ops X r) D) (tbl(?i \<mapsto> r))"
    using Cons.prems by (intro disk_ok_coin_ops) auto
  have eq: "tbl(?i \<mapsto> r) ++ record_map X rs = tbl ++ record_map X (r # rs)"
    using Cons.prems by (subst map_add_upd_left) (auto simp: record_map_Cons dom_record_map)
  have "record_coin_id X ` set rs \<inter> dom (tbl(?i \<mapsto> r)) = {}" using Cons.prems by auto
  from Cons.IH [OF D _ this] Cons.prems(2) show ?case unfolding eq by simp
qed

lemma disk_ok_spends:
  assumes "disk_ok X D tbl"
    and "\<And>i. i \<in> set is \<Longrightarrow> record_coin_id X (f i) = i \<and> spent_height (f i) = None
           \<and> (tbl i = Some (f i) \<or> tbl i = Some (spend h (f i)))"
  shows "disk_ok X (apply_ops (concat (map (\<lambda>i. spend_ops X h (f i)) is)) D)
           (\<lambda>j. if j \<in> set is then Some (spend h (f j)) else tbl j)"
  using assms
proof (induction "is" arbitrary: D tbl)
  case Nil
  then show ?case by simp
next
  case (Cons i "is")
  have i: "record_coin_id X (f i) = i" "spent_height (f i) = None"
    "tbl i = Some (f i) \<or> tbl i = Some (spend h (f i))"
    using Cons.prems(2) [of i] by auto
  have "disk_ok X (apply_ops (spend_ops X h (f i)) D) (tbl(i \<mapsto> spend h (f i)))"
    using i by (auto intro: disk_ok_spend_ops [OF Cons.prems(1) i(1,2)])
  moreover have "record_coin_id X (f j) = j \<and> spent_height (f j) = None
      \<and> ((tbl(i \<mapsto> spend h (f i))) j = Some (f j) \<or> (tbl(i \<mapsto> spend h (f i))) j = Some (spend h (f j)))"
    if "j \<in> set is" for j using Cons.prems(2) [of j] that by auto
  ultimately have "disk_ok X (apply_ops (concat (map (\<lambda>i. spend_ops X h (f i)) is)) (apply_ops (spend_ops X h (f i)) D))
      (\<lambda>j. if j \<in> set is then Some (spend h (f j)) else (tbl(i \<mapsto> spend h (f i))) j)"
    by (rule Cons.IH)
  moreover have "(\<lambda>j. if j \<in> set is then Some (spend h (f j)) else (tbl(i \<mapsto> spend h (f i))) j)
      = (\<lambda>j. if j \<in> set (i # is) then Some (spend h (f j)) else tbl j)" by auto
  ultimately show ?case by simp
qed

lemma hints_ok_insert:
  assumes "hints_ok D Hs"
  shows "hints_ok (apply_ops (hint_ops (i, h)) D) (if h = 0 then Hs else insert (i, as_ref h) Hs)"
proof -
  have "as_ref h \<noteq> []" by (metis length_as_ref list.size(3) zero_neq_numeral)
  with assms show ?thesis by (auto simp: hints_ok_def hint_ops_def)
qed

lemma hints_ok_inserts:
  "hints_ok D Hs \<Longrightarrow> hints_ok (apply_ops (concat (map hint_ops hs)) D)
     (Hs \<union> (\<lambda>(i, h). (i, as_ref h)) ` {(i, h) \<in> set hs. h \<noteq> 0})"
proof (induction hs arbitrary: D Hs)
  case Nil
  then show ?case by simp
next
  case (Cons e hs)
  obtain i h where e: "e = (i, h)" by fastforce
  let ?Hs = "if h = 0 then Hs else insert (i, as_ref h) Hs"
  have "?Hs \<union> (\<lambda>(i, h). (i, as_ref h)) ` {(i, h) \<in> set hs. h \<noteq> 0}
      = Hs \<union> (\<lambda>(i, h). (i, as_ref h)) ` {(i, h) \<in> set (e # hs). h \<noteq> 0}"
    using e by (auto simp: image_iff)
  then show ?case using Cons.IH [OF hints_ok_insert [OF Cons.prems, of i h]] e by simp
qed

section \<open>Accepted blocks\<close>

text \<open>The declared ids of the additions are the ids of their coins.\<close>

definition honest :: "externals \<Rightarrow> block_data \<Rightarrow> bool" where
  "honest X block \<longleftrightarrow> list_all (\<lambda>a. ca_coin_id a = coin_id_of X (ca_coin a)) (additions block)"

lemma u64_less_Suc:
  assumes "h \<noteq> - 1"
  shows "h < h + (1 :: u64)"
proof -
  have "1 + h \<noteq> 0" using assms by (metis add.commute add_eq_0_iff)
  then have "unat (1 + h) = Suc (unat h)" by (rule unatSuc)
  then show ?thesis by (simp add: word_less_nat_alt add.commute)
qed

lemma new_record_ids:
  "honest X block \<Longrightarrow> set (map (record_coin_id X) (new_records block))
     = coin_id_of X ` set (coinbase_coins block) \<union> ca_coin_id ` set (additions block)"
  by (auto simp: new_records_def addition_record_def honest_def list_all_iff record_coin_id_def)

lemma accepted_block:
  assumes "block_error X S tbl block = None" "honest X block"
  shows "initialized S" "bd_height block = height S + 1"
    and "\<And>i. i \<in> set (removals block) \<Longrightarrow> \<exists>r. tbl i = Some r \<and> spent_height r = None"
    and "distinct (map (record_coin_id X) (new_records block))"
    and "record_coin_id X ` set (new_records block) \<inter> dom tbl = {}"
proof -
  let ?ids = "map ca_coin_id (additions block) @ map (coin_id_of X) (coinbase_coins block)"
  have facts: "initialized S" "bd_height block = height S + 1" "find (bad_removal tbl) (removals block) = None"
    "clash tbl {} ?ids = None"
    using assms(1) by (auto simp: block_error_def split: if_splits option.splits)
  then show "initialized S" "bd_height block = height S + 1" by blast+
  show "\<exists>r. tbl i = Some r \<and> spent_height r = None" if "i \<in> set (removals block)" for i
    using facts(3) that by (auto simp: find_NoneD bad_removal_def is_spent_def split: option.splits)
  have ids: "map (record_coin_id X) (new_records block)
      = map (coin_id_of X) (coinbase_coins block) @ map ca_coin_id (additions block)"
    using assms(2) by (auto simp: new_records_def addition_record_def honest_def list_all_iff record_coin_id_def)
  show "distinct (map (record_coin_id X) (new_records block))"
    using facts(4) unfolding ids clash_None by auto
  show "record_coin_id X ` set (new_records block) \<inter> dom tbl = {}"
    using facts(4) unfolding set_map [symmetric] ids clash_None by auto
qed

lemma block_table_eq:
  assumes "block_error X S tbl block = None" "honest X block"
  shows "block_table X block tbl = (\<lambda>j. if j \<in> set (removals block) then Some (spend (bd_height block) (the (tbl j)))
    else (tbl ++ record_map X (new_records block)) j)"
proof
  fix j
  show "block_table X block tbl j = (if j \<in> set (removals block) then Some (spend (bd_height block) (the (tbl j)))
    else (tbl ++ record_map X (new_records block)) j)"
    using accepted_block(3) [OF assms, of j] by (auto simp: block_table_def)
qed

lemma record_map_SomeD: "record_map X rs i = Some r \<Longrightarrow> r \<in> set rs \<and> record_coin_id X r = i"
  by (auto simp: record_map_def dest!: map_of_SomeD)

lemma new_records_sel:
  "r \<in> set (new_records block) \<Longrightarrow> confirmed_height r = bd_height block \<and> spent_height r = None"
  by (auto simp: new_records_def addition_record_def)

lemma block_table_ok:
  assumes "table_ok X (height S) tbl" "block_error X S tbl block = None" "honest X block" "height S \<noteq> - 1"
  shows "table_ok X (bd_height block) (block_table X block tbl)"
proof -
  note acc = accepted_block [OF assms(2,3)]
  have up: "height S < bd_height block" using acc(2) u64_less_Suc [OF assms(4)] by simp
  show ?thesis
    unfolding table_ok_def block_table_eq [OF assms(2,3)]
  proof (intro allI impI)
    fix i r
    assume r: "(if i \<in> set (removals block) then Some (spend (bd_height block) (the (tbl i)))
        else (tbl ++ record_map X (new_records block)) i) = Some r"
    have old: "record_coin_id X q = i \<and> confirmed_height q < bd_height block
        \<and> pred_option (\<lambda>sh. confirmed_height q < sh \<and> sh \<le> bd_height block) (spent_height q)"
      if "tbl i = Some q" for q
      using assms(1) that up unfolding table_ok_def by (cases "spent_height q") fastforce+
    consider (spent) q where "tbl i = Some q" "r = spend (bd_height block) q"
      | (old) "tbl i = Some r" | (new) "record_map X (new_records block) i = Some r"
      using r acc(3) [of i] by (auto split: if_splits)
    then show "record_coin_id X r = i \<and> confirmed_height r \<le> bd_height block
        \<and> pred_option (\<lambda>sh. confirmed_height r < sh \<and> sh \<le> bd_height block) (spent_height r)"
      using old by cases (auto dest!: record_map_SomeD new_records_sel)
  qed
qed

lemma unspent_of_block:
  assumes "block_error X S tbl block = None" "honest X block"
  shows "unspent_of (block_table X block tbl) = unspent_after_block X block (unspent_of tbl)"
proof -
  note acc = accepted_block [OF assms]
  have new: "(\<exists>r. record_map X (new_records block) i = Some r \<and> spent_height r = None) \<longleftrightarrow>
      i \<in> coin_id_of X ` set (coinbase_coins block) \<union> ca_coin_id ` set (additions block)" for i
  proof -
    have "(\<exists>r. record_map X (new_records block) i = Some r \<and> spent_height r = None) \<longleftrightarrow>
        i \<in> dom (record_map X (new_records block))"
      by (meson domD domI record_map_SomeD new_records_sel)
    then show ?thesis using new_record_ids [OF assms(2)] by (simp add: dom_record_map)
  qed
  have disj: "record_map X (new_records block) i = None" if "tbl i = Some r" for i r
    using acc(5) that dom_record_map [of X "new_records block"] by blast
  have "i \<in> unspent_of (block_table X block tbl) \<longleftrightarrow> i \<notin> set (removals block) \<and>
      (i \<in> unspent_of tbl \<or> (\<exists>r. record_map X (new_records block) i = Some r \<and> spent_height r = None))" for i
    unfolding unspent_of_def block_table_eq [OF assms] using disj
    by (cases "tbl i") (auto simp: map_add_def split: option.splits)
  then show ?thesis unfolding new by (auto simp: unspent_after_block_def)
qed

section \<open>The Merkle tree\<close>

lemma map_of_rev_distinct: "distinct (map fst es) \<Longrightarrow> map_of (rev es) = map_of es"
  by (subst map_of_inject_set) (simp_all add: rev_map [symmetric])

lemma leaf_table_add: "leaf_table X (tbl ++ tbl') = leaf_table X tbl ++ leaf_table X tbl'"
  by (auto simp: fun_eq_iff leaf_table_def map_add_def split: option.splits)

lemma leaf_table_record_map: "leaf_table X (record_map X rs) = map_of (map (leaf_entry X) rs)"
  by (induction rs) (auto simp: fun_eq_iff leaf_table_def record_map_Cons leaf_entry_def)

lemma dom_leaf_table [simp]: "dom (leaf_table X tbl) = dom tbl"
  by (auto simp: leaf_table_def)

lemma inserted_leaves:
  assumes "map_of (leaves t) = leaf_table X tbl" "distinct (map (record_coin_id X) rs)"
    and "record_coin_id X ` set rs \<inter> dom tbl = {}"
  shows "\<exists>t'. batch_insert (map (leaf_entry X) rs) t = Inr t'
    \<and> map_of (leaves t') = leaf_table X (tbl ++ record_map X rs)"
proof -
  have "map_of (rev (map (leaf_entry X) rs)) = leaf_table X (record_map X rs)"
    using assms(2) by (subst map_of_rev_distinct) (simp_all add: leaf_table_record_map leaf_entry_def comp_def)
  moreover have "fst ` set (map (leaf_entry X) rs) \<inter> dom (map_of (leaves t)) = {}"
    unfolding assms(1) using assms(3) by (auto simp: leaf_entry_def)
  ultimately show ?thesis
    by (auto simp: batch_insert_Inr map_of_smt_insert_all assms(1) leaf_table_add)
qed

lemma updated_leaves:
  assumes "map_of (leaves t) = leaf_table X tbl" "set is \<subseteq> dom tbl"
    and "\<And>i. i \<in> set is \<Longrightarrow> record_coin_id X (f i) = i"
  shows "\<exists>t'. batch_update (map (\<lambda>i. leaf_entry X (f i)) is) t = Inr t'
    \<and> map_of (leaves t') = leaf_table X (\<lambda>j. if j \<in> set is then Some (f j) else tbl j)"
proof -
  have es: "map (\<lambda>i. leaf_entry X (f i)) is = map (\<lambda>i. (i, merkle_leaf_hash X (row X (f i)))) is"
    using assms(3) by (simp add: leaf_entry_def)
  have "map_of (rev (map (\<lambda>i. (i, merkle_leaf_hash X (row X (f i)))) is))
      = (Some \<circ> (\<lambda>i. merkle_leaf_hash X (row X (f i)))) |` set is"
    unfolding rev_map map_of_map_restrict by simp
  then have "leaf_table X tbl ++ map_of (rev (map (\<lambda>i. (i, merkle_leaf_hash X (row X (f i)))) is))
      = leaf_table X (\<lambda>j. if j \<in> set is then Some (f j) else tbl j)"
    by (auto simp: fun_eq_iff leaf_table_def map_add_def restrict_map_def)
  moreover have "fst ` set (map (\<lambda>i. (i, merkle_leaf_hash X (row X (f i)))) is) \<subseteq> dom (map_of (leaves t))"
    unfolding assms(1) using assms(2) by auto
  ultimately show ?thesis
    unfolding es by (auto simp: batch_update_Inr map_of_smt_insert_all assms(1))
qed

definition root_expected :: "block_data \<Rightarrow> bytes32 \<Rightarrow> bool" where
  "root_expected block r \<longleftrightarrow> pred_option (\<lambda>e. r = e) (expected_state_root block)"

context reliable_backend
begin

lemma merkle_updated:
  assumes S: "store_ok X view ok S tbl Hs"
    and acc: "block_error X S tbl block = None" "honest X block"
    and w: "bw_inserts w = map (leaf_entry X) (new_records block)"
      "bw_updates w = map (\<lambda>i. leaf_entry X (spend (bd_height block) (the (tbl i)))) (removals block)"
  obtains t t0 where "tree_ok X t" "map_of (leaves t) = leaf_table X (block_table X block tbl)"
    "tree_ok X t0" "map_of (leaves t0) = leaf_table X tbl"
    "merkle_phase X B block w S =
       (let new_root = merkle_root X (leaf_table X (block_table X block tbl))
        in if root_expected block new_root then (Inr new_root, S\<lparr>merkle_tree := t\<rparr>)
           else (Inl (StateRootMismatch (the (expected_state_root block)) new_root), S\<lparr>merkle_tree := t0\<rparr>))"
proof -
  note ok = S [unfolded store_ok_def]
  note a = accepted_block [OF acc]
  obtain t1 where t1: "batch_insert (bw_inserts w) (merkle_tree S) = Inr t1"
    "map_of (leaves t1) = leaf_table X (tbl ++ record_map X (new_records block))"
    using inserted_leaves [OF _ a(4,5)] ok w(1) by metis
  have rem: "set (removals block) \<subseteq> dom (tbl ++ record_map X (new_records block))"
    "\<And>i. i \<in> set (removals block) \<Longrightarrow> record_coin_id X (spend (bd_height block) (the (tbl i))) = i"
    using a(3) ok by (auto simp: table_ok_def) fastforce+
  obtain t2 where t2: "batch_update (bw_updates w) t1 = Inr t2"
    "map_of (leaves t2) = leaf_table X (block_table X block tbl)"
    using updated_leaves [OF t1(2) rem] w(2) unfolding block_table_eq [OF acc] by metis
  have t2_ok: "tree_ok X t2" using tree_ok_batch(1) [OF _ t1(1)] tree_ok_batch(2) [OF _ t2(1)] ok by blast
  obtain r t3 where t3: "smt_root X t2 = (r, t3)" by fastforce
  note root = smt_root_eq [OF t2_ok t3]
  obtain t0 where t0: "rebuild_merkle_tree X B (backend S) = Inr t0" "tree_ok X t0"
    "map_of (leaves t0) = leaf_table X tbl" using rebuild_tree ok by blast
  have "(if bw_inserts w \<noteq> [] then batch_insert (bw_inserts w) (merkle_tree S) else Inr (merkle_tree S)) = Inr t1"
    "(if bw_updates w \<noteq> [] then batch_update (bw_updates w) t1 else Inr t1) = Inr t2"
    using t1(1) t2(1) by (auto simp: batch_insert_Inr batch_update_Inr smt_insert_all_def)
  then have "merkle_phase X B block w S = (if root_expected block r then (Inr r, S\<lparr>merkle_tree := t3\<rparr>)
      else (Inl (StateRootMismatch (the (expected_state_root block)) r), S\<lparr>merkle_tree := t0\<rparr>))"
    using t0(1) by (cases "expected_state_root block") (auto simp: merkle_phase_def t3 root_expected_def Let_def)
  with that [of t3 t0] root t2(2) t0 show thesis by (simp add: Let_def)
qed

end

section \<open>The disk\<close>

lemma tip_rows_eq: "tip_rows block b = b @ [Put CF_METADATA META_HEIGHT (u64_to_le_bytes (bd_height block)),
    Put CF_METADATA META_TIP_HASH (as_ref (block_hash block)),
    Put CF_METADATA META_TIMESTAMP (u64_to_le_bytes (bd_timestamp block))]"
  by (simp add: tip_rows_def batch_put_def)

lemma block_disk:
  assumes D: "disk_ok X D tbl" "hints_ok D Hs" and tbl: "table_ok X (height S) tbl"
    and acc: "block_error X S tbl block = None" "honest X block"
  defines "D' \<equiv> apply_ops (tip_rows block (block_ops X block (map (\<lambda>i. the (tbl i)) (removals block)))) D"
  shows "disk_ok X D' (block_table X block tbl)" "hints_ok D' (Hs \<union> block_hints block)"
    and "D' CF_METADATA = (D CF_METADATA)(META_HEIGHT \<mapsto> u64_to_le_bytes (bd_height block),
          META_TIP_HASH \<mapsto> as_ref (block_hash block), META_TIMESTAMP \<mapsto> u64_to_le_bytes (bd_timestamp block))"
proof -
  note a = accepted_block [OF acc]
  let ?h = "bd_height block"
  let ?new = "concat (map (coin_ops X) (new_records block))"
  let ?spend = "concat (map (\<lambda>i. spend_ops X ?h (the (tbl i))) (removals block))"
  let ?hint = "concat (map hint_ops (bd_hints block))"
  let ?D1 = "apply_ops ?spend (apply_ops ?new D)"
  let ?D2 = "apply_ops ?hint ?D1"
  have D': "D' = apply_ops [Put CF_METADATA META_HEIGHT (u64_to_le_bytes ?h),
      Put CF_METADATA META_TIP_HASH (as_ref (block_hash block)),
      Put CF_METADATA META_TIMESTAMP (u64_to_le_bytes (bd_timestamp block))] ?D2"
    by (simp add: D'_def tip_rows_eq block_ops_def comp_def)
  have meta: "D' cf = ?D2 cf" if "cf \<noteq> CF_METADATA" for cf
    unfolding D' using that by simp
  have cfs: "op_cf ` set ?new \<subseteq> index_cfs" "op_cf ` set ?spend \<subseteq> index_cfs" "op_cf ` set ?hint \<subseteq> hint_cfs"
    by (intro cfs_concat_map ops_cfs)+
  have disj: "cf \<notin> hint_cfs \<and> cf \<noteq> CF_METADATA" if "cf \<in> index_cfs" for cf
    using that by (auto simp: index_cfs_def hint_cfs_def)
  have disj': "cf \<notin> index_cfs \<and> cf \<noteq> CF_METADATA" if "cf \<in> hint_cfs" for cf
    using that by (auto simp: index_cfs_def hint_cfs_def)
  have spends: "record_coin_id X (the (tbl i)) = i \<and> spent_height (the (tbl i)) = None
      \<and> ((tbl ++ record_map X (new_records block)) i = Some (the (tbl i))
         \<or> (tbl ++ record_map X (new_records block)) i = Some (spend ?h (the (tbl i))))"
    if "i \<in> set (removals block)" for i
  proof -
    obtain r where r: "tbl i = Some r" "spent_height r = None" using a(3) [of i] \<open>i \<in> set (removals block)\<close> by blast
    moreover have "record_map X (new_records block) i = None"
      using a(5) r dom_record_map [of X "new_records block"] by blast
    ultimately show ?thesis using table_ok_id [OF tbl r(1)] by (simp add: map_add_def)
  qed
  have "disk_ok X ?D1 (block_table X block tbl)"
    unfolding block_table_eq [OF acc]
    using disk_ok_spends [OF disk_ok_inserts [OF D(1) a(4,5)] spends] .
  moreover have "D' cf = ?D1 cf" if "cf \<in> index_cfs" for cf
    using disj [OF that] meta apply_ops_outside [OF cfs(3)] by simp
  ultimately show "disk_ok X D' (block_table X block tbl)" using disk_ok_cong by blast
  have "?D1 cf = D cf" if "cf \<notin> index_cfs" for cf
    using apply_ops_outside [OF cfs(1) that] apply_ops_outside [OF cfs(2) that] by simp
  then have "hints_ok ?D1 Hs" using D(2) disj' hints_ok_cong by blast
  then have "hints_ok ?D2 (Hs \<union> block_hints block)"
    unfolding block_hints_def by (rule hints_ok_inserts)
  then show "hints_ok D' (Hs \<union> block_hints block)" using disj' meta hints_ok_cong by blast
  have "?D2 CF_METADATA = D CF_METADATA"
    using cfs apply_ops_outside by (metis cf_classes(1,2))
  then show "D' CF_METADATA = (D CF_METADATA)(META_HEIGHT \<mapsto> u64_to_le_bytes (bd_height block),
          META_TIP_HASH \<mapsto> as_ref (block_hash block), META_TIMESTAMP \<mapsto> u64_to_le_bytes (bd_timestamp block))"
    unfolding D' by simp
qed

lemma block_ops_ok: "list_all op_ok (tip_rows block (block_ops X block rs))"
  by (simp add: tip_rows_eq block_ops_def list_all_concat_map ops_ok op_ok_def)

lemma block_ops_cfs: "op_cf ` set (tip_rows block (block_ops X block rs)) \<subseteq> state_cfs"
proof -
  have "op_cf ` set (concat (map (coin_ops X) (new_records block))) \<subseteq> index_cfs"
    "op_cf ` set (concat (map (spend_ops X (bd_height block)) rs)) \<subseteq> index_cfs"
    "op_cf ` set (concat (map hint_ops (bd_hints block))) \<subseteq> hint_cfs"
    by (intro cfs_concat_map ops_cfs)+
  then show ?thesis unfolding tip_rows_eq block_ops_def set_append image_Un
    by (intro Un_least) (simp_all add: state_cfsI)
qed

lemma block_ops_typed: "list_all op_typed (tip_rows block (block_ops X block rs))"
proof -
  have "list_all op_typed (concat (map (coin_ops X) (new_records block)))"
    "list_all op_typed (concat (map (spend_ops X (bd_height block)) rs))"
    "list_all op_typed (concat (map hint_ops (bd_hints block)))"
    by (intro op_typed_cfs cfs_concat_map ops_cfs)+
  then show ?thesis by (simp add: tip_rows_eq block_ops_def op_typed_def)
qed

section \<open>Refinement\<close>

text \<open>What \<open>apply_block\<close> may return and the store it may leave.\<close>

definition block_applied ::
  "externals \<Rightarrow> ('s \<Rightarrow> disk) \<Rightarrow> ('s \<Rightarrow> bool) \<Rightarrow> block_data \<Rightarrow> 's coin_store \<Rightarrow> coin_table \<Rightarrow> (coin_id \<times> bytes) set
    \<Rightarrow> (coin_store_error + apply_block_result) \<times> 's coin_store \<Rightarrow> bool" where
  "block_applied X view ok block S tbl Hs out \<longleftrightarrow>
     (let tbl' = block_table X block tbl; new_root = merkle_root X (leaf_table X tbl')
      in case block_error X S tbl block of
           Some e \<Rightarrow> out = (Inl e, S)
         | None \<Rightarrow>
             if root_expected block new_root then
               fst out = Inr \<lparr>abr_state_root = new_root,
                              coins_created = length (coinbase_coins block) + length (additions block),
                              coins_spent = length (removals block), abr_height = bd_height block\<rparr>
               \<and> store_ok X view ok (snd out) tbl' (Hs \<union> block_hints block)
               \<and> height (snd out) = height S + 1 \<and> tip_hash (snd out) = block_hash block
               \<and> cs_timestamp (snd out) = bd_timestamp block \<and> initialized (snd out)
               \<and> kept (view (backend S)) (view (backend (snd out)))
             else
               fst out = Inl (StateRootMismatch (the (expected_state_root block)) new_root)
               \<and> store_ok X view ok (snd out) tbl Hs
               \<and> (snd out)\<lparr>merkle_tree := merkle_tree S\<rparr> = S)"

context reliable_backend
begin

lemma block_committed:
  assumes S: "store_ok X view ok S tbl Hs"
    and acc: "block_error X S tbl block = None" "honest X block" "height S \<noteq> - 1"
    and t: "tree_ok X t" "map_of (leaves t) = leaf_table X (block_table X block tbl)"
    and w: "bw_batch w = block_ops X block (map (\<lambda>i. the (tbl i)) (removals block))"
  obtains S' where "commit_block X B block w r (S\<lparr>merkle_tree := t\<rparr>) =
      (Inr \<lparr>abr_state_root = r, coins_created = bw_created w, coins_spent = bw_spent w,
            abr_height = bd_height block\<rparr>, S')"
    "store_ok X view ok S' (block_table X block tbl) (Hs \<union> block_hints block)"
    "height S' = height S + 1" "tip_hash S' = block_hash block" "cs_timestamp S' = bd_timestamp block"
    "initialized S'" "kept (view (backend S)) (view (backend S'))"
proof -
  note ok = S [unfolded store_ok_def]
  note a = accepted_block [OF acc(1,2)]
  obtain s' where s': "kv_batch_write B (backend S) (tip_rows block (bw_batch w)) = Inr s'" "ok s'"
    "view s' = apply_ops (tip_rows block (bw_batch w)) (view (backend S))"
    using batch_ok [OF _ block_ops_ok] ok w by metis
  note D = block_disk [OF _ _ _ acc(1,2), of "view (backend S)" Hs, folded w, folded s'(3)]
  let ?S = "S\<lparr>merkle_tree := t, backend := s', height := bd_height block, tip_hash := block_hash block,
     cs_timestamp := bd_timestamp block, unspent_ids := unspent_after_block X block (unspent_ids S)\<rparr>"
  have "meta_ok (view s') ?S" using D(3) ok a(1) by (auto simp: meta_ok_def)
  then have "store_ok X view ok ?S (block_table X block tbl) (Hs \<union> block_hints block)"
    using ok D(1,2) s'(2) t block_table_ok [OF _ acc] unspent_of_block [OF acc(1,2)] a(1)
    by (simp add: store_ok_def)
  moreover have "kept (view (backend S)) (view s')" unfolding s'(3) w by (intro keptI block_ops_ok block_ops_cfs block_ops_typed)
  ultimately show thesis using that [of ?S] s'(1) a by (simp add: commit_block_def)
qed

lemma block_refines:
  assumes "bincode_ok X" "store_ok X view ok S tbl Hs" "honest X block" "height S \<noteq> - 1"
  shows "block_applied X view ok block S tbl Hs (apply_block X B block S)"
proof (cases "block_error X S tbl block")
  case (Some e)
  then show ?thesis
    using validated [OF assms(1,2), of block] by (simp add: block_applied_def apply_block_def)
next
  case None
  let ?rs = "map (\<lambda>i. the (tbl i)) (removals block)"
  let ?w = "\<lparr>bw_batch = block_ops X block ?rs, bw_inserts = map (leaf_entry X) (new_records block),
     bw_updates = map (\<lambda>r. leaf_entry X (spend (bd_height block) r)) ?rs,
     bw_created = length (new_records block), bw_spent = length ?rs\<rparr>"
  let ?r = "merkle_root X (leaf_table X (block_table X block tbl))"
  have w: "bw_inserts ?w = map (leaf_entry X) (new_records block)"
    "bw_updates ?w = map (\<lambda>i. leaf_entry X (spend (bd_height block) (the (tbl i)))) (removals block)"
    "bw_batch ?w = block_ops X block ?rs" by (simp_all add: comp_def)
  obtain t t0 where t: "tree_ok X t" "map_of (leaves t) = leaf_table X (block_table X block tbl)"
    "tree_ok X t0" "map_of (leaves t0) = leaf_table X tbl"
    "merkle_phase X B block ?w S = (if root_expected block ?r then (Inr ?r, S\<lparr>merkle_tree := t\<rparr>)
           else (Inl (StateRootMismatch (the (expected_state_root block)) ?r), S\<lparr>merkle_tree := t0\<rparr>))"
    using merkle_updated [OF assms(2) None assms(3) w(1,2)] unfolding Let_def by metis
  obtain S' where S': "commit_block X B block ?w ?r (S\<lparr>merkle_tree := t\<rparr>) =
      (Inr \<lparr>abr_state_root = ?r, coins_created = bw_created ?w, coins_spent = bw_spent ?w,
            abr_height = bd_height block\<rparr>, S')"
    "store_ok X view ok S' (block_table X block tbl) (Hs \<union> block_hints block)"
    "height S' = height S + 1" "tip_hash S' = block_hash block" "cs_timestamp S' = bd_timestamp block"
    "initialized S'" "kept (view (backend S)) (view (backend S'))"
    using block_committed [OF assms(2) None assms(3,4) t(1,2) w(3)] by metis
  have "apply_block X B block S = (if root_expected block ?r
      then commit_block X B block ?w ?r (S\<lparr>merkle_tree := t\<rparr>)
      else (Inl (StateRootMismatch (the (expected_state_root block)) ?r), S\<lparr>merkle_tree := t0\<rparr>))"
    unfolding apply_block_def validated [OF assms(1,2)] None
    using t(5) by (simp add: block_batch_eq [OF assms(1)] comp_def)
  moreover have "store_ok X view ok (S\<lparr>merkle_tree := t0\<rparr>) tbl Hs"
    using assms(2) t(3,4) by (simp add: store_ok_def meta_ok_def)
  ultimately show ?thesis
    using S' None by (simp add: block_applied_def new_records_def)
qed

end

end
