(* ===== verification/Genesis.thy ===== *)
theory Genesis
  imports Apply_Block
begin

text \<open>
  Genesis refines the construction of the first table: one unspent record at height 0 per coin, the
  last one where a coin is listed twice. The refinement theorems of \<open>init_genesis\<close> and
  \<open>apply_block\<close> and the reopening theorem stand here, with a two-coin chain as their witness.
\<close>

section \<open>Specification\<close>

definition genesis_records :: "u64 \<Rightarrow> (coin \<times> bool) list \<Rightarrow> coin_record list" where
  "genesis_records ts coins = map (\<lambda>(c, cb). coin_record_new c 0 ts cb) coins"

definition genesis_table :: "externals \<Rightarrow> u64 \<Rightarrow> (coin \<times> bool) list \<Rightarrow> coin_table" where
  "genesis_table X ts coins = record_map X (rev (genesis_records ts coins))"

section \<open>Effect of the loop\<close>

lemma genesis_coin_pure:
  assumes "bincode_ok X"
  shows "genesis_coin X ts (c, cb) (b, es) =
    Inr (b @ coin_ops X (coin_record_new c 0 ts cb), es @ [leaf_entry X (coin_record_new c 0 ts cb)])"
  using assms
  by (simp add: genesis_coin_def serialize_row coin_ops_def leaf_entry_def Let_def batch_put_def ph_key_def
      parent_key_def confirmed_key_def)

lemma genesis_loop:
  assumes "bincode_ok X"
  shows "try_fold (genesis_coin X ts) coins (b, es) =
    Inr (b @ concat (map (coin_ops X) (genesis_records ts coins)), es @ map (leaf_entry X) (genesis_records ts coins))"
  by (induction coins arbitrary: b es) (auto simp: genesis_coin_pure [OF assms] genesis_records_def)

lemma record_map_snoc: "record_map X (rs @ [r]) = [record_coin_id X r \<mapsto> r] ++ record_map X rs"
  by (simp add: record_map_def map_add_def fun_eq_iff split: option.splits)

text \<open>Rows may be overwritten by rows with the same index keys.\<close>

lemma disk_ok_overwrites:
  assumes "disk_ok X D tbl"
    and "\<And>r r0. r \<in> set rs \<Longrightarrow> tbl (record_coin_id X r) = Some r0 \<Longrightarrow> same_keys r0 r"
    and "\<And>r r0. r \<in> set rs \<Longrightarrow> r0 \<in> set rs \<Longrightarrow> record_coin_id X r = record_coin_id X r0 \<Longrightarrow> same_keys r0 r"
  shows "disk_ok X (apply_ops (concat (map (coin_ops X) rs)) D) (tbl ++ record_map X (rev rs))"
  using assms
proof (induction rs arbitrary: D tbl)
  case Nil
  then show ?case by simp
next
  case (Cons r rs)
  let ?tbl = "tbl(record_coin_id X r \<mapsto> r)"
  have D: "disk_ok X (apply_ops (coin_ops X r) D) ?tbl"
    using Cons.prems(1,2) by (intro disk_ok_coin_ops) auto
  have "disk_ok X (apply_ops (concat (map (coin_ops X) rs)) (apply_ops (coin_ops X r) D))
      (?tbl ++ record_map X (rev rs))"
  proof (rule Cons.IH [OF D])
    fix r' r0
    assume "r' \<in> set rs" "?tbl (record_coin_id X r') = Some r0"
    then show "same_keys r0 r'" using Cons.prems(2,3) by (auto split: if_splits)
  next
    fix r' r0
    assume "r' \<in> set rs" "r0 \<in> set rs" "record_coin_id X r' = record_coin_id X r0"
    then show "same_keys r0 r'" using Cons.prems(3) by auto
  qed
  moreover have "?tbl ++ record_map X (rev rs) = tbl ++ record_map X (rev (r # rs))"
    by (simp add: record_map_snoc)
  ultimately show ?case by simp
qed

lemma genesis_same_keys:
  assumes "inj_on (coin_id_of X) (fst ` set coins)" "r \<in> set (genesis_records ts coins)"
    "r0 \<in> set (genesis_records ts coins)" "record_coin_id X r = record_coin_id X r0"
  shows "same_keys r0 r"
  using assms by (force simp: genesis_records_def same_keys_def dest: inj_onD)

lemma genesis_table_SomeD:
  "genesis_table X ts coins i = Some r \<Longrightarrow>
     r \<in> set (genesis_records ts coins) \<and> record_coin_id X r = i \<and> confirmed_height r = 0 \<and> spent_height r = None"
  by (auto simp: genesis_table_def genesis_records_def dest!: record_map_SomeD)

lemma genesis_table_ok: "table_ok X 0 (genesis_table X ts coins)"
  by (auto simp: table_ok_def dest!: genesis_table_SomeD)

lemma unspent_of_genesis:
  "unspent_of (genesis_table X ts coins) = set (map (\<lambda>(c, _). coin_id_of X c) coins)"
proof -
  have "unspent_of (genesis_table X ts coins) = dom (genesis_table X ts coins)"
    unfolding unspent_of_def using genesis_table_SomeD by fastforce
  then show ?thesis by (force simp: genesis_table_def dom_record_map genesis_records_def image_iff)
qed

definition genesis_meta :: "u64 \<Rightarrow> write_op list" where
  "genesis_meta ts = [Put CF_METADATA META_INITIALIZED [1], Put CF_METADATA META_HEIGHT (u64_to_le_bytes 0),
     Put CF_METADATA META_TIP_HASH (as_ref 0), Put CF_METADATA META_TIMESTAMP (u64_to_le_bytes ts)]"

lemma genesis_disk:
  fixes ts :: u64
  assumes "disk_ok X D Map.empty" "hints_ok D Hs" "inj_on (coin_id_of X) (fst ` set coins)"
  defines "D' \<equiv> apply_ops (concat (map (coin_ops X) (genesis_records ts coins)) @ genesis_meta ts) D"
  shows "disk_ok X D' (genesis_table X ts coins)" "hints_ok D' Hs"
    and "D' CF_METADATA = (D CF_METADATA)(META_INITIALIZED \<mapsto> [1], META_HEIGHT \<mapsto> u64_to_le_bytes 0,
           META_TIP_HASH \<mapsto> as_ref 0, META_TIMESTAMP \<mapsto> u64_to_le_bytes ts)"
proof -
  let ?new = "concat (map (coin_ops X) (genesis_records ts coins))"
  have cfs: "op_cf ` set ?new \<subseteq> index_cfs" by (intro cfs_concat_map ops_cfs)
  have D': "D' = apply_ops (genesis_meta ts) (apply_ops ?new D)" by (simp add: D'_def)
  have meta: "D' cf = apply_ops ?new D cf" if "cf \<noteq> CF_METADATA" for cf
    unfolding D' genesis_meta_def using that by simp
  have "disk_ok X (apply_ops ?new D) (Map.empty ++ genesis_table X ts coins)"
    unfolding genesis_table_def
    by (rule disk_ok_overwrites [OF assms(1) _ genesis_same_keys [OF assms(3)]]) simp
  moreover have "D' cf = apply_ops ?new D cf" if "cf \<in> index_cfs" for cf
    using that by (intro meta) (auto simp: index_cfs_def)
  ultimately show "disk_ok X D' (genesis_table X ts coins)"
    using disk_ok_cong [of D' "apply_ops ?new D"] by (simp only: empty_map_add simp_thms)
  have "D' cf = D cf" if "cf \<in> hint_cfs" for cf
  proof -
    have "cf \<notin> index_cfs" "cf \<noteq> CF_METADATA" using that by (auto simp: index_cfs_def hint_cfs_def)
    then show ?thesis using meta apply_ops_outside [OF cfs] by simp
  qed
  then show "hints_ok D' Hs" using assms(2) hints_ok_cong by blast
  show "D' CF_METADATA = (D CF_METADATA)(META_INITIALIZED \<mapsto> [1], META_HEIGHT \<mapsto> u64_to_le_bytes 0,
           META_TIP_HASH \<mapsto> as_ref 0, META_TIMESTAMP \<mapsto> u64_to_le_bytes ts)"
    using apply_ops_outside [OF cfs cf_classes(1)] unfolding D' genesis_meta_def by simp
qed

lemma genesis_ops_ok: "list_all op_ok (concat (map (coin_ops X) rs) @ genesis_meta ts)"
  by (simp add: genesis_meta_def list_all_concat_map ops_ok op_ok_def)

lemma genesis_ops_cfs: "op_cf ` set (concat (map (coin_ops X) rs) @ genesis_meta ts) \<subseteq> state_cfs"
proof -
  have "op_cf ` set (concat (map (coin_ops X) rs)) \<subseteq> index_cfs" by (intro cfs_concat_map ops_cfs)
  then show ?thesis unfolding set_append image_Un by (intro Un_least) (simp_all add: state_cfsI genesis_meta_def)
qed

lemma genesis_ops_typed: "list_all op_typed (concat (map (coin_ops X) rs) @ genesis_meta ts)"
proof -
  have "list_all op_typed (concat (map (coin_ops X) rs))" by (intro op_typed_cfs(1) cfs_concat_map ops_cfs)
  then show ?thesis by (simp add: genesis_meta_def op_typed_def)
qed

lemma genesis_leaves:
  assumes "map_of (leaves t) = Map.empty"
  shows "\<exists>t'. batch_insert (map (leaf_entry X) (genesis_records ts coins)) t = Inr t'
    \<and> map_of (leaves t') = leaf_table X (genesis_table X ts coins)"
  by (auto simp: batch_insert_Inr map_of_smt_insert_all assms genesis_table_def leaf_table_record_map rev_map)

context reliable_backend
begin

lemma genesis_refines:
  assumes X: "bincode_ok X" and S: "store_ok X view ok S tbl Hs" "\<not> initialized S"
    and inj: "inj_on (coin_id_of X) (fst ` set coins)"
  obtains S' where "init_genesis X B coins ts S = (Inr (merkle_root X (leaf_table X (genesis_table X ts coins))), S')"
    "store_ok X view ok S' (genesis_table X ts coins) Hs"
    "initialized S'" "height S' = 0" "tip_hash S' = 0" "cs_timestamp S' = ts" "cs_config S' = cs_config S"
    "kept (view (backend S)) (view (backend S'))"
proof -
  note ok = S(1) [unfolded store_ok_def]
  have empty: "tbl = Map.empty" using S by (simp add: store_ok_def)
  let ?rs = "genesis_records ts coins"
  have "map_of (leaves (merkle_tree S)) = Map.empty"
    using ok empty by (simp add: leaf_table_def fun_eq_iff)
  then obtain t where t: "batch_insert (map (leaf_entry X) ?rs) (merkle_tree S) = Inr t"
    "map_of (leaves t) = leaf_table X (genesis_table X ts coins)" using genesis_leaves by blast
  have t_ok: "tree_ok X t" using tree_ok_batch(1) [OF _ t(1)] ok by blast
  obtain r t' where t': "smt_root X t = (r, t')" by fastforce
  note root = smt_root_eq [OF t_ok t']
  let ?b = "concat (map (coin_ops X) ?rs) @ genesis_meta ts"
  obtain s' where s': "kv_batch_write B (backend S) ?b = Inr s'" "ok s'"
    "view s' = apply_ops ?b (view (backend S))"
    using batch_ok [OF _ genesis_ops_ok] ok by metis
  note D = genesis_disk [OF _ _ inj, of "view (backend S)" Hs ts, folded s'(3)]
  let ?S = "S\<lparr>merkle_tree := t', backend := s', height := 0, tip_hash := 0, cs_timestamp := ts, initialized := True,
     unspent_ids := set (map (\<lambda>(c, _). coin_id_of X c) coins)\<rparr>"
  have "(if map (leaf_entry X) ?rs \<noteq> [] then batch_insert (map (leaf_entry X) ?rs) (merkle_tree S)
      else Inr (merkle_tree S)) = Inr t"
    using t(1) by (auto simp: batch_insert_Inr smt_insert_all_def)
  then have "init_genesis X B coins ts S = (Inr r, ?S)"
    using S(2) s'(1)
    by (simp add: init_genesis_def genesis_loop [OF X] batch_new_def t' Let_def batch_put_def genesis_meta_def)
  moreover have "meta_ok (view s') ?S" using D(3) ok empty by (simp add: meta_ok_def)
  moreover have "unspent_of (genesis_table X ts coins) = set (map (\<lambda>(c, _). coin_id_of X c) coins)"
    by (rule unspent_of_genesis)
  moreover have "kept (view (backend S)) (view s')" unfolding s'(3) by (intro keptI genesis_ops_ok genesis_ops_cfs genesis_ops_typed)
  ultimately show thesis
    using that [of ?S] root t(2) s'(2) D(1,2) ok empty genesis_table_ok by (simp add: store_ok_def)
qed

end

section \<open>Properties\<close>

definition sample_store :: "tables coin_store" where
  "sample_store = \<lparr>cs_config = default_with_path True True ''db'', backend = no_tables,
     merkle_tree = smt_new sample_externals, height = 0, tip_hash = 0, cs_timestamp = 0, initialized = False,
     unspent_ids = {}\<rparr>"

lemma sample_store_ok:
  "store_ok sample_externals (rocks_view mem_rocks mem_tab) mem_ok sample_store Map.empty {}"
  by (auto simp: store_ok_def sample_store_def disk_ok_def index_is_def hints_ok_def meta_ok_def table_ok_def
      unspent_of_def leaf_table_def smt_new_def [of sample_externals, THEN arg_cong [of _ _ leaves]])

definition sample_coin :: "u64 \<Rightarrow> coin" where
  "sample_coin n = \<lparr>parent_coin_info = 1, coin_puzzle_hash = 2, amount = n\<rparr>"

lemma sample_ids [simp]: "coin_id_of sample_externals (sample_coin n) = 3 + ucast n"
  by (simp add: sample_externals_def sample_coin_def)

definition sample_coins :: "(coin \<times> bool) list" where
  "sample_coins = [(sample_coin 7, False)]"

lemma sample_coins_inj: "inj_on (coin_id_of sample_externals) (fst ` set sample_coins)"
  by (simp add: sample_coins_def)

text \<open>
  C5. Genesis. On an empty store over a reliable backend, \<open>init_genesis\<close> returns the root of the
  Merkle map of the genesis table and leaves a store that represents exactly this table: one unspent
  record at height 0 for every given coin, in the row table, the five indices, the Merkle leaves and
  the set of unspent ids alike, all other column families as before. On an initialised store it fails and changes nothing. The coins are
  assumed to have different ids when they differ.
\<close>

theorem init_genesis_refines:
  assumes "reliable_backend B view ok" "bincode_ok X" "store_ok X view ok S tbl Hs"
    and "inj_on (coin_id_of X) (fst ` set coins)"
  shows "case init_genesis X B coins ts S of (result, S') \<Rightarrow>
    if initialized S then result = Inl GenesisAlreadyInitialized \<and> S' = S
    else result = Inr (merkle_root X (leaf_table X (genesis_table X ts coins)))
      \<and> store_ok X view ok S' (genesis_table X ts coins) Hs
      \<and> initialized S' \<and> height S' = 0 \<and> tip_hash S' = 0 \<and> cs_timestamp S' = ts
      \<and> kept (view (backend S)) (view (backend S'))"
proof (cases "initialized S")
  case True
  then show ?thesis by (simp add: init_genesis_def)
next
  case False
  then show ?thesis
    by (rule reliable_backend.genesis_refines [OF assms(1,2,3) _ assms(4), of ts]) (simp add: False)
qed

theorem init_genesis_refines_witness:
  "case init_genesis sample_externals (rocks_backend mem_rocks) sample_coins 5 sample_store of (result, S') \<Rightarrow>
     initialized S' \<and> store_ok sample_externals (rocks_view mem_rocks mem_tab) mem_ok S'
       (genesis_table sample_externals 5 sample_coins) {}"
  using init_genesis_refines [OF mem_rocks.rocks.reliable_backend_axioms, OF bincode_ok_sample, OF sample_store_ok
      sample_coins_inj, of 5]
  by (auto simp: sample_store_def)

text \<open>
  C1. Block application. On a store that represents a table, \<open>apply_block\<close> checks in the order of
  \<open>block_error\<close> (initialised, height, parent hash, reward coins, removals known and unspent, ids of
  additions and rewards new) and on the first failure returns that error and the very same store.
  An accepted block returns the root of the Merkle map of the new table (\<open>block_table\<close>: new records
  added, removals marked spent at the block's height) and the counts, and leaves a store that
  represents the new table and the hints, at the block's height, hash and timestamp, all other column
  families as before. Where the block
  names another state root the store still represents the old table and nothing but the cached tree
  differs. Declared addition ids are assumed to be the ids of their coins, as nothing checks it.
\<close>

theorem apply_block_refines:
  assumes "reliable_backend B view ok" "bincode_ok X" "store_ok X view ok S tbl Hs"
    and "honest X block" "height S \<noteq> - 1"
  shows "case apply_block X B block S of (result, S') \<Rightarrow>
    let tbl' = block_table X block tbl; new_root = merkle_root X (leaf_table X tbl')
    in case block_error X S tbl block of
         Some e \<Rightarrow> result = Inl e \<and> S' = S
       | None \<Rightarrow>
           if root_expected block new_root then
             result = Inr \<lparr>abr_state_root = new_root,
                           coins_created = length (coinbase_coins block) + length (additions block),
                           coins_spent = length (removals block), abr_height = bd_height block\<rparr>
             \<and> store_ok X view ok S' tbl' (Hs \<union> block_hints block)
             \<and> height S' = height S + 1 \<and> tip_hash S' = block_hash block
             \<and> cs_timestamp S' = bd_timestamp block \<and> initialized S'
             \<and> kept (view (backend S)) (view (backend S'))
           else
             result = Inl (StateRootMismatch (the (expected_state_root block)) new_root)
             \<and> store_ok X view ok S' tbl Hs \<and> S'\<lparr>merkle_tree := merkle_tree S\<rparr> = S"
  using reliable_backend.block_refines [OF assms]
  by (auto simp: block_applied_def Let_def split: option.splits prod.splits if_splits)

definition sample_block :: block_data where
  "sample_block = \<lparr>bd_height = 1, bd_timestamp = 9, block_hash = 77, parent_hash = 0,
     additions = [\<lparr>ca_coin_id = 11, ca_coin = sample_coin 8, same_as_parent = True\<rparr>], removals = [10],
     coinbase_coins = [sample_coin 1, sample_coin 2], bd_hints = [(11, 4)], expected_state_root = None\<rparr>"

lemma sample_chain:
  obtains S where "init_genesis sample_externals (rocks_backend mem_rocks) sample_coins 5 sample_store =
      (Inr (merkle_root sample_externals (leaf_table sample_externals (genesis_table sample_externals 5 sample_coins))), S)"
    "store_ok sample_externals (rocks_view mem_rocks mem_tab) mem_ok S (genesis_table sample_externals 5 sample_coins) {}"
    "initialized S" "height S = 0" "tip_hash S = 0"
  by (rule reliable_backend.genesis_refines
      [OF mem_rocks.rocks.reliable_backend_axioms, OF bincode_ok_sample sample_store_ok _ sample_coins_inj, of 5])
    (auto simp: sample_store_def)

lemma sample_block_accepted:
  assumes "initialized S" "height S = 0" "tip_hash S = 0"
  shows "block_error sample_externals S (genesis_table sample_externals 5 sample_coins) sample_block = None"
  using assms
  by (simp add: block_error_def sample_block_def genesis_table_def genesis_records_def sample_coins_def
      record_map_def bad_removal_def is_spent_def)

lemma sample_block_sel:
  "expected_state_root sample_block = None" "length (coinbase_coins sample_block) = 2"
  "length (additions sample_block) = 1" "length (removals sample_block) = 1" "bd_height sample_block = 1"
  "block_hash sample_block = 77"
  by (simp_all add: sample_block_def)

lemma sample_block_honest: "honest sample_externals sample_block"
  by (simp add: honest_def sample_block_def)

theorem apply_block_refines_witness:
  "\<exists>S S' r. init_genesis sample_externals (rocks_backend mem_rocks) sample_coins 5 sample_store = (Inr r, S)
     \<and> snd (apply_block sample_externals (rocks_backend mem_rocks) sample_block S) = S'
     \<and> fst (apply_block sample_externals (rocks_backend mem_rocks) sample_block S) =
         Inr \<lparr>abr_state_root = merkle_root sample_externals (leaf_table sample_externals
                (block_table sample_externals sample_block (genesis_table sample_externals 5 sample_coins))),
              coins_created = 3, coins_spent = 1, abr_height = 1\<rparr>
     \<and> height S' = 1 \<and> tip_hash S' = 77"
proof -
  obtain S where S: "init_genesis sample_externals (rocks_backend mem_rocks) sample_coins 5 sample_store =
      (Inr (merkle_root sample_externals (leaf_table sample_externals (genesis_table sample_externals 5 sample_coins))), S)"
    "store_ok sample_externals (rocks_view mem_rocks mem_tab) mem_ok S (genesis_table sample_externals 5 sample_coins) {}"
    "initialized S" "height S = 0" "tip_hash S = 0" by (rule sample_chain)
  have "height S \<noteq> - 1" using S(4) by simp
  note block = apply_block_refines [OF mem_rocks.rocks.reliable_backend_axioms, OF bincode_ok_sample,
      OF S(2) sample_block_honest this]
  show ?thesis
    using block S(1,4) sample_block_accepted [OF S(3-5)]
    by (auto simp: root_expected_def sample_block_sel Let_def split: prod.splits)
qed

text \<open>
  C12. Reopening. Opening a store on the backend state that any store has left behind rebuilds the same
  height, tip, timestamp, unspent set and Merkle root from the rows, and represents the same table
  and hints, whichever configuration is given.
\<close>

theorem reopen_store:
  assumes "reliable_backend B view ok" "bincode_ok X" "store_ok X view ok S tbl Hs"
  shows "\<exists>S'. open_store X B config (backend S) = Inr S' \<and> store_ok X view ok S' tbl Hs
    \<and> height S' = height S \<and> tip_hash S' = tip_hash S \<and> cs_timestamp S' = cs_timestamp S
    \<and> initialized S' = initialized S \<and> unspent_ids S' = unspent_ids S
    \<and> fst (state_root X S') = fst (state_root X S)"
proof (rule reliable_backend.reopen [OF assms, of config])
  fix S'
  assume S': "open_store X B config (backend S) = Inr S'" "store_ok X view ok S' tbl Hs"
    "height S' = height S" "tip_hash S' = tip_hash S" "cs_timestamp S' = cs_timestamp S"
    "initialized S' = initialized S" "unspent_ids S' = unspent_ids S"
  have "fst (state_root X Q) = merkle_root X (leaf_table X tbl)" if "store_ok X view ok Q tbl Hs" for Q
    using that smt_root_eq(1) [of X "merkle_tree Q"]
    by (auto simp: state_root_def store_ok_def split: prod.splits)
  with S' assms(3) show ?thesis by auto
qed

theorem reopen_store_witness:
  "\<exists>S S' r. init_genesis sample_externals (rocks_backend mem_rocks) sample_coins 5 sample_store = (Inr r, S)
     \<and> open_store sample_externals (rocks_backend mem_rocks) (cs_config S) (backend S) = Inr S'
     \<and> initialized S' \<and> unspent_ids S' = unspent_ids S"
proof (rule sample_chain)
  fix S
  assume S: "init_genesis sample_externals (rocks_backend mem_rocks) sample_coins 5 sample_store =
      (Inr (merkle_root sample_externals (leaf_table sample_externals (genesis_table sample_externals 5 sample_coins))), S)"
    "store_ok sample_externals (rocks_view mem_rocks mem_tab) mem_ok S (genesis_table sample_externals 5 sample_coins) {}"
    "initialized S"
  show ?thesis
    using reopen_store [OF mem_rocks.rocks.reliable_backend_axioms, OF bincode_ok_sample, OF S(2), of "cs_config S"]
      S(1,3) by auto
qed

end
