(* ===== verification/Rollback_Doc.thy ===== *)
theory Rollback_Doc
  imports Genesis
begin

text \<open>
  The rollback that the repository documents (\<open>SPEC.md\<close> 3.3, 6.1 and 6.2 and the requirements RBK-001 to
  RBK-004), as an effect on the table of coins. The theorems on rollback say where the code agrees with it and
  where it does not.
\<close>

section \<open>The documented effect\<close>

text \<open>
  The target is a signed height: coins confirmed above it are deleted, so that a negative target leaves
  nothing (RBK-001, RBK-002), and coins spent above it are unspent again (RBK-003).
\<close>

definition cut_record :: "int \<Rightarrow> coin_record \<Rightarrow> coin_record" where
  "cut_record t r =
     (case spent_height r of
        None \<Rightarrow> r
      | Some h \<Rightarrow> if t < uint h then r\<lparr>spent_height := None\<rparr> else r)"

definition cut_table :: "int \<Rightarrow> coin_table \<Rightarrow> coin_table" where
  "cut_table t tbl i =
     (case tbl i of
        None \<Rightarrow> None
      | Some r \<Rightarrow> if t < uint (confirmed_height r) then None else Some (cut_record t r))"

text \<open>
  RBK-004: a coin that becomes unspent is eligible for fast forward when it is no reward and its parent is there
  after the rollback, with the same puzzle hash and amount, and is spent.
\<close>

definition lineage_flag :: "coin_table \<Rightarrow> coin_record \<Rightarrow> bool" where
  "lineage_flag tbl r \<longleftrightarrow> \<not> coinbase r
     \<and> (case tbl (parent_coin_info (cr_coin r)) of
          None \<Rightarrow> False
        | Some p \<Rightarrow> coin_puzzle_hash (cr_coin p) = coin_puzzle_hash (cr_coin r)
            \<and> amount (cr_coin p) = amount (cr_coin r) \<and> is_spent p)"

definition documented_rollback :: "int \<Rightarrow> coin_table \<Rightarrow> coin_table" where
  "documented_rollback t tbl i =
     (case cut_table t tbl i of
        None \<Rightarrow> None
      | Some r \<Rightarrow> if is_spent (the (tbl i)) \<and> \<not> is_spent r
                 then Some (r\<lparr>ff_eligible := lineage_flag (cut_table t tbl) r\<rparr>) else Some r)"

text \<open>
  Two tables that agree in everything but the fast-forward flags of the coins in a set, which the first may
  set too often.
\<close>

definition agrees_but_flags :: "coin_id set \<Rightarrow> coin_table \<Rightarrow> coin_table \<Rightarrow> bool" where
  "agrees_but_flags A T D \<longleftrightarrow>
     (\<forall>i. case (T i, D i) of
            (None, None) \<Rightarrow> True
          | (Some r, Some d) \<Rightarrow> r\<lparr>ff_eligible := ff_eligible d\<rparr> = d \<and> (ff_eligible d \<longrightarrow> ff_eligible r) \<and> (i \<notin> A \<longrightarrow> r = d)
          | _ \<Rightarrow> False)"

lemma documented_negative:
  assumes "t < 0"
  shows "documented_rollback t tbl = Map.empty"
proof -
  have "t < uint h" for h :: u64 using assms uint_ge_0 [of h] by linarith
  then show ?thesis by (auto simp: fun_eq_iff documented_rollback_def cut_table_def split: option.split)
qed

end
