(* ===== verification/Rollback.thy ===== *)
theory Rollback
  imports Rollback_Doc
begin

text \<open>
  Rollback refines the cut of the table at a height: records confirmed above it disappear with
  their hints, records spent above it become unspent again. The scans of the two height indices
  are turned into lists of coin ids, each loop into one list of writes over these ids.
\<close>

section \<open>Specification\<close>

definition spent_after :: "u64 \<Rightarrow> coin_record \<Rightarrow> bool" where
  "spent_after t r \<longleftrightarrow> (case spent_height r of None \<Rightarrow> False | Some sh \<Rightarrow> t < sh)"

definition unspend :: "coin_table \<Rightarrow> coin_record \<Rightarrow> coin_record" where
  "unspend tbl r = r\<lparr>spent_height := None, ff_eligible := (tbl (parent_coin_info (cr_coin r)) \<noteq> None)\<rparr>"

definition rolled_back :: "u64 \<Rightarrow> coin_table \<Rightarrow> coin_table" where
  "rolled_back t tbl i =
     (case tbl i of
        None \<Rightarrow> None
      | Some r \<Rightarrow> if t < confirmed_height r then None
                 else if spent_after t r then Some (unspend tbl r) else Some r)"

definition deleted_ids :: "u64 \<Rightarrow> coin_table \<Rightarrow> coin_id set" where
  "deleted_ids t tbl = {i. \<exists>r. tbl i = Some r \<and> t < confirmed_height r}"

definition respent_ids :: "u64 \<Rightarrow> coin_table \<Rightarrow> coin_id set" where
  "respent_ids t tbl = {i. \<exists>r. tbl i = Some r \<and> confirmed_height r \<le> t \<and> spent_after t r}"

definition kept_hints :: "u64 \<Rightarrow> coin_table \<Rightarrow> (coin_id \<times> bytes) set \<Rightarrow> (coin_id \<times> bytes) set" where
  "kept_hints t tbl Hs = {(i, h) \<in> Hs. i \<notin> deleted_ids t tbl}"

section \<open>Height indices\<close>

lemma unspend_sel [simp]:
  "cr_coin (unspend tbl r) = cr_coin r" "confirmed_height (unspend tbl r) = confirmed_height r"
  "spent_height (unspend tbl r) = None" "record_coin_id X (unspend tbl r) = record_coin_id X r"
  by (simp_all add: unspend_def record_coin_id_def)

definition ids_at :: "(coin_record \<Rightarrow> u64 option) \<Rightarrow> coin_table \<Rightarrow> u64 \<Rightarrow> coin_id list" where
  "ids_at hf tbl h = sorted_list_of_set {i. \<exists>r. tbl i = Some r \<and> hf r = Some h}"

definition ids_in :: "(coin_record \<Rightarrow> u64 option) \<Rightarrow> coin_table \<Rightarrow> u64 list \<Rightarrow> coin_id list" where
  "ids_in hf tbl hs = concat (map (ids_at hf tbl) hs)"

lemma set_ids_at:
  assumes "finite (dom tbl)"
  shows "set (ids_at hf tbl h) = {i. \<exists>r. tbl i = Some r \<and> hf r = Some h}"
proof -
  have "finite {i. \<exists>r. tbl i = Some r \<and> hf r = Some h}"
    by (rule finite_subset [OF _ assms]) auto
  then show ?thesis by (simp add: ids_at_def)
qed

lemma set_ids_in:
  "finite (dom tbl) \<Longrightarrow> set (ids_in hf tbl hs) = {i. \<exists>r h. tbl i = Some r \<and> hf r = Some h \<and> h \<in> set hs}"
  by (auto simp: ids_in_def set_ids_at)

lemma distinct_ids_in:
  "finite (dom tbl) \<Longrightarrow> distinct hs \<Longrightarrow> distinct (ids_in hf tbl hs)"
  by (induction hs) (auto simp: ids_in_def set_ids_at ids_at_def)

lemma heights_above_props:
  "set (heights_above t h) = {x. t < x \<and> x \<le> h}" "distinct (heights_above t h)"
proof -
  have less: "n < 2 ^ 64" if "n \<in> set [unat t + 1..<unat h + 1]" for n
    using that unsigned_less [of h, where ?'a = nat] by auto
  show "set (heights_above t h) = {x. t < x \<and> x \<le> h}"
  proof (intro set_eqI iffI)
    fix x
    assume "x \<in> set (heights_above t h)"
    then obtain n where n: "x = of_nat n" "n \<in> set [unat t + 1..<unat h + 1]"
      by (auto simp: heights_above_def)
    with less [OF n(2)] show "x \<in> {x. t < x \<and> x \<le> h}"
      by (auto simp: word_less_nat_alt word_le_nat_alt unat_of_nat)
  next
    fix x
    assume "x \<in> {x. t < x \<and> x \<le> h}"
    then have "unat x \<in> set [unat t + 1..<unat h + 1]" by (auto simp: word_less_nat_alt word_le_nat_alt)
    then show "x \<in> set (heights_above t h)" unfolding heights_above_def set_map
      by (intro image_eqI [where x = "unat x"]) simp_all
  qed
  have "inj_on (of_nat :: nat \<Rightarrow> u64) (set [unat t + 1..<unat h + 1])"
    by (rule inj_on_inverseI [of _ unat]) (use less in \<open>simp add: unat_of_nat\<close>)
  then show "distinct (heights_above t h)" by (simp add: heights_above_def distinct_map)
qed

text \<open>A scan of a height index at one height lists the coins of that height.\<close>

lemma scan_height_index:
  assumes "index_is m tbl (\<lambda>r. hf r \<noteq> None) (\<lambda>i r. height_coin_key (the (hf r)) i) (\<lambda>i _. as_ref i)"
    and "finite (dom tbl)"
  shows "scan_entries m (u64_to_be_bytes h) = map (\<lambda>i. (height_coin_key h i, as_ref i)) (ids_at hf tbl h)"
proof (rule sym, rule scan_entries_eqI)
  let ?es = "map (\<lambda>i. (height_coin_key h i, as_ref i)) (ids_at hf tbl h)"
  have keys: "map fst ?es = map (height_coin_key h) (ids_at hf tbl h)" by (simp add: comp_def)
  have "sorted_wrt (<) (map (height_coin_key h) (ids_at hf tbl h))"
    unfolding sorted_wrt_map by (simp add: ids_at_def height_coin_key_less strict_sorted_list_of_set)
  then show "sorted (map fst ?es)" "distinct (map fst ?es)"
    by (simp_all only: keys strict_sorted_iff)
  have "m k = Some v \<and> prefix (u64_to_be_bytes h) k \<longleftrightarrow>
      (\<exists>i r. tbl i = Some r \<and> hf r = Some h \<and> k = height_coin_key h i \<and> v = as_ref i)" for k v
    using assms(1) by (auto simp: index_is_def index_entry_def split: option.splits)
  then show "set ?es = {(k, v). m k = Some v \<and> prefix (u64_to_be_bytes h) k}"
    by (auto simp: set_ids_at [OF assms(2)])
qed

text \<open>The entries that the two loops over the heights visit.\<close>

definition index_entries :: "(coin_record \<Rightarrow> u64 option) \<Rightarrow> coin_table \<Rightarrow> coin_id list \<Rightarrow> kv_pair list" where
  "index_entries hf tbl is = map (\<lambda>i. (height_coin_key (the (hf (the (tbl i)))) i, as_ref i)) is"

lemma try_fold_concat:
  "try_fold (\<lambda>x. try_fold f (g x)) xs st = try_fold f (concat (map g xs)) st"
  by (induction xs arbitrary: st) (auto simp: try_fold_append split: sum.splits)

lemma try_fold_cong:
  "(\<And>x st. x \<in> set xs \<Longrightarrow> f x st = g x st) \<Longrightarrow> try_fold f xs st = try_fold g xs st"
  by (induction xs arbitrary: st) (auto split: sum.splits)

lemma key_tail_height [simp]: "key_tail_id (height_coin_key h i) = i"
  by (simp add: key_tail_id_def height_coin_key_def slice_def)

context reliable_backend
begin

lemma scan_heights:
  assumes "ok (backend S)" "finite (dom tbl)" "cf \<in> set ALL_COLUMN_FAMILIES"
    and "index_is (view (backend S) cf) tbl (\<lambda>r. hf r \<noteq> None) (\<lambda>i r. height_coin_key (the (hf r)) i) (\<lambda>i _. as_ref i)"
  shows "try_fold (rollback_scan B S cf f) hs acc = try_fold f (index_entries hf tbl (ids_in hf tbl hs)) acc"
proof -
  let ?es = "\<lambda>h. map (\<lambda>i. (height_coin_key h i, as_ref i)) (ids_at hf tbl h)"
  have "prefix_ok (u64_to_be_bytes h)" for h by (simp add: prefix_ok_def)
  then have "rollback_scan B S cf f h acc = try_fold f (?es h) acc" for h acc
    using assms scan_height_index [OF assms(4,2)] by (simp add: rollback_scan_def scan_eq)
  then have "try_fold (rollback_scan B S cf f) hs acc = try_fold f (concat (map ?es hs)) acc"
    by (simp add: try_fold_concat [symmetric] cong: try_fold_cong)
  moreover have "?es h = index_entries hf tbl (ids_at hf tbl h)" for h
    using set_ids_at [OF assms(2), of hf h] by (auto simp: index_entries_def)
  ultimately show ?thesis by (simp add: ids_in_def index_entries_def map_concat comp_def)
qed

end

section \<open>The loops\<close>

lemma delete_rows_ops: "delete_coin_rows i r b = b @ delete_ops i r"
  by (simp add: delete_coin_rows_def delete_ops_def Let_def batch_delete_def ph_key_def parent_key_def
      confirmed_key_def spent_key_def split: option.splits)

definition hint_delete_ops :: "disk \<Rightarrow> coin_id \<Rightarrow> write_op list" where
  "hint_delete_ops D i = concat (map (\<lambda>(k, _). [Delete CF_HINTS_BY_VALUE (drop 32 k @ as_ref i), Delete CF_HINTS k])
     (scan_entries (D CF_HINTS) (as_ref i)))"

definition respend_ops :: "externals \<Rightarrow> coin_table \<Rightarrow> coin_id set \<Rightarrow> coin_id \<Rightarrow> write_op list" where
  "respend_ops X tbl Dl i =
     (let r = the (tbl i)
      in if i \<in> Dl then [Delete CF_COIN_BY_SPENT_HEIGHT (spent_key i r)] else unspend_ops X i r (unspend tbl r))"

context reliable_backend
begin

lemma delete_loop:
  assumes "bincode_ok X" "ok (backend S)" "disk_ok X (view (backend S)) tbl" "table_ok X h tbl" "set is \<subseteq> dom tbl"
  shows "try_fold (rollback_delete_entry X B S) (index_entries hf tbl is) acc =
    Inr (acc\<lparr>ra_modified := fold (\<lambda>i. hm_insert i (the (tbl i))) is (ra_modified acc),
             ra_batch := ra_batch acc @ concat (map (\<lambda>i. delete_ops i (the (tbl i))) is),
             ra_removals := ra_removals acc @ is, ra_deleted := ra_deleted acc + length is\<rparr>)"
  using assms(5)
proof (induction "is" arbitrary: acc)
  case Nil
  then show ?case by (simp add: index_entries_def)
next
  case (Cons i "is")
  then obtain r where "tbl i = Some r" by auto
  then show ?case
    using Cons read_record [OF assms(1-4), of i]
    by (simp add: index_entries_def rollback_delete_entry_def delete_rows_ops)
qed

lemma hints_loop:
  assumes "ok (backend S)" "hints_ok (view (backend S)) Hs"
  shows "try_fold (rollback_hints B S) is b = Inr (b @ concat (map (hint_delete_ops (view (backend S))) is))"
proof (induction "is" arbitrary: b)
  case Nil
  then show ?case by simp
next
  case (Cons i "is")
  let ?es = "scan_entries (view (backend S) CF_HINTS) (as_ref i)"
  have "length k > 32" if "(k, v) \<in> set ?es" for k v
  proof -
    have "view (backend S) CF_HINTS k = Some v"
      using that set_scan_entries [OF view_finite [OF assms(1)]] by auto
    then show ?thesis using assms(2) by (auto simp: hints_ok_def)
  qed
  then have "fold (rollback_hint_entry i) es b = b @ concat (map (\<lambda>(k, _). [Delete CF_HINTS_BY_VALUE (drop 32 k @ as_ref i), Delete CF_HINTS k]) es)"
    if "set es \<subseteq> set ?es" for es using that
    by (induction es arbitrary: b) (auto simp: rollback_hint_entry_def batch_delete_def Let_def split: prod.splits)
  then have "rollback_hints B S i b = Inr (b @ hint_delete_ops (view (backend S)) i)"
    using assms by (simp add: rollback_hints_def scan_eq prefix_ok_def hint_delete_ops_def)
  then show ?case using Cons by simp
qed

lemma unspend_loop:
  assumes "bincode_ok X" "ok (backend S)" "disk_ok X (view (backend S)) tbl" "table_ok X h tbl" "set is \<subseteq> dom tbl"
    and "distinct is" "\<And>i. i \<in> set is \<Longrightarrow> hm_contains_key (ra_modified acc) i \<longleftrightarrow> i \<in> Dl"
  shows "try_fold (rollback_unspend_entry X B S) (index_entries spent_height tbl is) acc =
    (let js = filter (\<lambda>i. i \<notin> Dl) is
     in Inr (acc\<lparr>ra_modified := fold (\<lambda>i. hm_insert i (the (tbl i))) js (ra_modified acc),
             ra_batch := ra_batch acc @ concat (map (respend_ops X tbl Dl) is),
             ra_updates := ra_updates acc @ map (\<lambda>i. (i, merkle_leaf_hash X (row X (unspend tbl (the (tbl i)))))) js,
             ra_unspent := ra_unspent acc + length js\<rparr>))"
  using assms(5-7)
proof (induction "is" arbitrary: acc)
  case Nil
  then show ?case by (simp add: index_entries_def)
next
  case (Cons i "is")
  then obtain r where r: "tbl i = Some r" by auto
  let ?r = "unspend tbl r"
  let ?key = "height_coin_key (the (spent_height r)) i"
  let ?acc = "if i \<in> Dl then acc\<lparr>ra_batch := ra_batch acc @ respend_ops X tbl Dl i\<rparr>
    else acc\<lparr>ra_modified := hm_insert i r (ra_modified acc), ra_batch := ra_batch acc @ respend_ops X tbl Dl i,
      ra_updates := ra_updates acc @ [(i, merkle_leaf_hash X (row X ?r))], ra_unspent := ra_unspent acc + 1\<rparr>"
  have step: "rollback_unspend_entry X B S (?key, as_ref i) acc = Inr ?acc"
    using r read_record [OF assms(1-4)] Cons.prems(3) [of i] serialize_row [OF assms(1)]
    by (simp add: rollback_unspend_entry_def respend_ops_def unspend_ops_def batch_put_def batch_delete_def
        unspend_def ph_key_def spent_key_def Let_def)
  have "hm_contains_key (ra_modified ?acc) j \<longleftrightarrow> j \<in> Dl" if "j \<in> set is" for j
    using Cons.prems(2) Cons.prems(3) [of j] that by (auto simp: hm_contains_key_def)
  from Cons.IH [OF _ _ this] Cons.prems step r show ?case
    by (simp add: index_entries_def Let_def)
qed

end

section \<open>Effect on the disk\<close>

lemma disk_ok_deletes:
  assumes "disk_ok X D tbl" "distinct is" "set is \<subseteq> dom tbl"
  shows "disk_ok X (apply_ops (concat (map (\<lambda>i. delete_ops i (the (tbl i))) is)) D) (tbl |` (- set is))"
  using assms
proof (induction "is" arbitrary: D tbl)
  case Nil
  then show ?case by simp
next
  case (Cons i "is")
  then obtain r where r: "tbl i = Some r" by auto
  let ?tbl = "tbl(i := None)"
  have D: "disk_ok X (apply_ops (delete_ops i r) D) ?tbl" by (rule disk_ok_delete_ops [OF Cons.prems(1) r])
  have "distinct is" "set is \<subseteq> dom ?tbl" using Cons.prems(2,3) by auto
  then have "disk_ok X (apply_ops (concat (map (\<lambda>i. delete_ops i (the (?tbl i))) is)) (apply_ops (delete_ops i r) D))
      (?tbl |` (- set is))"
    by (rule Cons.IH [OF D])
  moreover have eq: "map (\<lambda>i. delete_ops i (the (?tbl i))) is = map (\<lambda>i. delete_ops i (the (tbl i))) is"
    using Cons.prems(2) by auto
  moreover have "?tbl |` (- set is) = tbl |` (- set (i # is))" by (auto simp: fun_eq_iff restrict_map_def)
  ultimately have "disk_ok X (apply_ops (concat (map (\<lambda>i. delete_ops i (the (tbl i))) is)) (apply_ops (delete_ops i r) D))
      (tbl |` (- set (i # is)))" by (simp only: eq)
  then show ?case using r by simp
qed

lemma disk_ok_no_spent:
  assumes "disk_ok X D tbl" "tbl i = None"
  shows "disk_ok X (apply_ops [Delete CF_COIN_BY_SPENT_HEIGHT (spent_key i r)] D) tbl"
proof -
  have "D CF_COIN_BY_SPENT_HEIGHT (spent_key i r) \<noteq> Some v" for v
    using assms unfolding disk_ok_def index_is_def
    by (auto simp: index_entry_def spent_key_def split: option.splits)
  then have "(D CF_COIN_BY_SPENT_HEIGHT)(spent_key i r := None) = D CF_COIN_BY_SPENT_HEIGHT"
    by (metis fun_upd_triv not_Some_eq)
  with assms show ?thesis by (simp add: disk_ok_def)
qed

lemma disk_ok_respends:
  assumes "disk_ok X D cur" "distinct is"
    and "\<And>i. i \<in> set is \<Longrightarrow> (if i \<in> Dl then cur i = None
           else \<exists>r. tbl i = Some r \<and> cur i = Some r \<and> spent_height r \<noteq> None)"
  shows "disk_ok X (apply_ops (concat (map (respend_ops X tbl Dl) is)) D)
     (\<lambda>j. if j \<in> set is - Dl then Some (unspend tbl (the (tbl j))) else cur j)"
  using assms
proof (induction "is" arbitrary: D cur)
  case Nil
  then show ?case by simp
next
  case (Cons i "is")
  let ?cur = "if i \<in> Dl then cur else cur(i \<mapsto> unspend tbl (the (tbl i)))"
  have D: "disk_ok X (apply_ops (respend_ops X tbl Dl i) D) ?cur"
  proof (cases "i \<in> Dl")
    case True
    with disk_ok_no_spent [OF Cons.prems(1)] Cons.prems(3) [of i] show ?thesis
      by (simp add: respend_ops_def)
  next
    case False
    then obtain r where "tbl i = Some r" "cur i = Some r" "spent_height r \<noteq> None"
      using Cons.prems(3) [of i] by auto
    with disk_ok_unspend_ops [OF Cons.prems(1), of i r "unspend tbl r"] False show ?thesis
      by (simp add: respend_ops_def)
  qed
  have "disk_ok X (apply_ops (concat (map (respend_ops X tbl Dl) is)) (apply_ops (respend_ops X tbl Dl i) D))
      (\<lambda>j. if j \<in> set is - Dl then Some (unspend tbl (the (tbl j))) else ?cur j)"
  proof (rule Cons.IH [OF D])
    show "distinct is" using Cons.prems(2) by simp
    fix j
    assume "j \<in> set is"
    then show "if j \<in> Dl then ?cur j = None else \<exists>r. tbl j = Some r \<and> ?cur j = Some r \<and> spent_height r \<noteq> None"
      using Cons.prems(2) Cons.prems(3) [of j] by (cases "j = i") auto
  qed
  moreover have "(\<lambda>j. if j \<in> set is - Dl then Some (unspend tbl (the (tbl j))) else ?cur j)
      = (\<lambda>j. if j \<in> set (i # is) - Dl then Some (unspend tbl (the (tbl j))) else cur j)" by auto
  ultimately show ?case by simp
qed

lemma apply_deletes:
  assumes "\<forall>op \<in> set b. \<exists>cf k. op = Delete cf k"
  shows "apply_ops b D cf k = (if Delete cf k \<in> set b then None else D cf k)"
  using assms
proof (induction b arbitrary: D)
  case Nil
  then show ?case by simp
next
  case (Cons op b)
  then show ?case by (cases op) auto
qed

lemma set_hint_scan:
  assumes "hints_ok D Hs" "finite (dom (D CF_HINTS))"
  shows "set (scan_entries (D CF_HINTS) (as_ref i)) = (\<lambda>h. (as_ref i @ h, [])) ` {h. (i, h) \<in> Hs}"
proof -
  have "(k, v) \<in> set (scan_entries (D CF_HINTS) (as_ref i)) \<longleftrightarrow> (k, v) \<in> (\<lambda>h. (as_ref i @ h, [])) ` {h. (i, h) \<in> Hs}" for k v
    using assms by (auto simp: set_scan_entries hints_ok_def)
  then show ?thesis by auto
qed

lemma set_hint_delete_ops:
  assumes "hints_ok D Hs" "finite (dom (D CF_HINTS))"
  shows "set (hint_delete_ops D i) =
    (\<Union>h \<in> {h. (i, h) \<in> Hs}. {Delete CF_HINTS_BY_VALUE (h @ as_ref i), Delete CF_HINTS (as_ref i @ h)})"
  using set_hint_scan [OF assms, of i] by (auto simp: hint_delete_ops_def)

lemma hints_ok_deletes:
  assumes "hints_ok D Hs" "finite (dom (D CF_HINTS))"
  shows "hints_ok (apply_ops (concat (map (hint_delete_ops D) is)) D) {(i, h) \<in> Hs. i \<notin> set is}"
proof -
  let ?b = "concat (map (hint_delete_ops D) is)"
  have del: "\<forall>op \<in> set ?b. \<exists>cf k. op = Delete cf k"
    by (auto simp: set_hint_delete_ops [OF assms])
  have mem: "Delete CF_HINTS k \<in> set ?b \<longleftrightarrow> (\<exists>(i, h) \<in> Hs. i \<in> set is \<and> k = as_ref i @ h)"
    "Delete CF_HINTS_BY_VALUE k \<in> set ?b \<longleftrightarrow> (\<exists>(i, h) \<in> Hs. i \<in> set is \<and> k = h @ as_ref i)" for k
    by (auto simp: set_hint_delete_ops [OF assms])
  have inj: "as_ref i @ h = as_ref j @ g \<longleftrightarrow> i = j \<and> h = g" "h @ as_ref i = g @ as_ref j \<longleftrightarrow> i = j \<and> h = g"
    for i j :: coin_id and h g by auto
  have "apply_ops ?b D CF_HINTS k = Some v \<longleftrightarrow> v = [] \<and> (\<exists>(i, h) \<in> {(i, h) \<in> Hs. i \<notin> set is}. k = as_ref i @ h)"
    for k v
    using assms(1) unfolding hints_ok_def apply_deletes [OF del] mem by (auto simp: inj(1) split: if_splits)
  moreover have "apply_ops ?b D CF_HINTS_BY_VALUE k = Some v \<longleftrightarrow>
      v = [] \<and> (\<exists>(i, h) \<in> {(i, h) \<in> Hs. i \<notin> set is}. k = h @ as_ref i)" for k v
    using assms(1) unfolding hints_ok_def apply_deletes [OF del] mem by (auto simp: inj(2) split: if_splits)
  ultimately show ?thesis
    using assms(1) by (auto simp: hints_ok_def)
qed

section \<open>Collection\<close>

definition confirmed_above :: "u64 \<Rightarrow> u64 \<Rightarrow> coin_table \<Rightarrow> coin_id list" where
  "confirmed_above t h tbl = ids_in (\<lambda>r. Some (confirmed_height r)) tbl (heights_above t h)"

definition spent_above :: "u64 \<Rightarrow> u64 \<Rightarrow> coin_table \<Rightarrow> coin_id list" where
  "spent_above t h tbl = ids_in spent_height tbl (heights_above t h)"

lemma above_props:
  assumes "finite (dom tbl)" "table_ok X h tbl"
  shows "set (confirmed_above t h tbl) = deleted_ids t tbl" "distinct (confirmed_above t h tbl)"
    and "set (spent_above t h tbl) = {i. \<exists>r. tbl i = Some r \<and> spent_after t r}" "distinct (spent_above t h tbl)"
proof -
  have "confirmed_height r \<le> h" "spent_height r = Some sh \<Longrightarrow> sh \<le> h" if "tbl i = Some r" for i r sh
    using assms(2) that unfolding table_ok_def by fastforce+
  then show "set (confirmed_above t h tbl) = deleted_ids t tbl"
    "set (spent_above t h tbl) = {i. \<exists>r. tbl i = Some r \<and> spent_after t r}"
    unfolding confirmed_above_def spent_above_def set_ids_in [OF assms(1)] heights_above_props deleted_ids_def
      spent_after_def by (auto split: option.splits)
  show "distinct (confirmed_above t h tbl)" "distinct (spent_above t h tbl)"
    by (simp_all add: confirmed_above_def spent_above_def distinct_ids_in assms(1) heights_above_props)
qed

lemma respent_above:
  assumes "finite (dom tbl)" "table_ok X h tbl"
  shows "set (filter (\<lambda>i. i \<notin> deleted_ids t tbl) (spent_above t h tbl)) = respent_ids t tbl"
  unfolding set_filter above_props(3) [OF assms]
  by (auto simp: deleted_ids_def respent_ids_def not_less)

lemma map_of_snapshots:
  "set is \<subseteq> dom tbl \<Longrightarrow> map_of (fold (\<lambda>i. hm_insert i (the (tbl i))) is m) = map_of m ++ tbl |` set is"
proof (induction "is" arbitrary: m)
  case Nil
  then show ?case by simp
next
  case (Cons i "is")
  then obtain r where "tbl i = Some r" by auto
  with Cons show ?case by (auto simp: fun_eq_iff map_add_def restrict_map_def split: option.splits)
qed

lemma hm_ok_snapshots: "hm_ok m \<Longrightarrow> hm_ok (fold (\<lambda>i. hm_insert i (the (tbl i))) is m)"
  by (induction "is" arbitrary: m) auto

lemma snapshot_ids:
  assumes "hm_ok m" "map_of m = tbl |` {i. \<exists>r. tbl i = Some r \<and> P r}"
  shows "set (map fst (filter (\<lambda>(_, r). P r) m)) = {i. \<exists>r. tbl i = Some r \<and> P r}"
proof -
  have "(i, r) \<in> set m \<longleftrightarrow> tbl i = Some r \<and> P r" for i r
    unfolding map_of_eq_Some_iff [OF assms(1) [unfolded hm_ok_def], symmetric] assms(2)
    by (auto simp: restrict_map_def)
  then show ?thesis by (force simp: image_iff)
qed

definition rollback_ops :: "externals \<Rightarrow> disk \<Rightarrow> coin_table \<Rightarrow> u64 \<Rightarrow> u64 \<Rightarrow> coin_id list \<Rightarrow> write_op list" where
  "rollback_ops X D tbl t h ds =
     concat (map (\<lambda>i. delete_ops i (the (tbl i))) (confirmed_above t h tbl))
     @ concat (map (hint_delete_ops D) ds)
     @ concat (map (respend_ops X tbl (deleted_ids t tbl)) (spent_above t h tbl))"

definition collected ::
  "externals \<Rightarrow> disk \<Rightarrow> coin_table \<Rightarrow> u64 \<Rightarrow> u64 \<Rightarrow> rollback_acc \<Rightarrow> bool" where
  "collected X D tbl t h acc \<longleftrightarrow>
     (let js = filter (\<lambda>i. i \<notin> deleted_ids t tbl) (spent_above t h tbl)
      in map_of (ra_modified acc) = tbl |` (deleted_ids t tbl \<union> respent_ids t tbl) \<and> hm_ok (ra_modified acc)
         \<and> ra_deleted acc = card (deleted_ids t tbl) \<and> ra_unspent acc = card (respent_ids t tbl)
         \<and> ra_removals acc = confirmed_above t h tbl
         \<and> ra_updates acc = map (\<lambda>i. (i, merkle_leaf_hash X (row X (unspend tbl (the (tbl i)))))) js
         \<and> (\<exists>ds. set ds = deleted_ids t tbl \<and> ra_batch acc = rollback_ops X D tbl t h ds))"

context reliable_backend
begin

lemma confirmed_loop:
  assumes rd: "bincode_ok X" "ok (backend S)" "disk_ok X (view (backend S)) tbl" "table_ok X (height S) tbl"
  shows "try_fold (rollback_scan B S CF_COIN_BY_CONFIRMED_HEIGHT (rollback_delete_entry X B S))
      (heights_above t (height S)) rollback_acc_new =
    (let is = confirmed_above t (height S) tbl
     in Inr (rollback_acc_new\<lparr>ra_modified := fold (\<lambda>i. hm_insert i (the (tbl i))) is [],
          ra_batch := concat (map (\<lambda>i. delete_ops i (the (tbl i))) is), ra_removals := is, ra_deleted := length is\<rparr>))"
proof -
  have fin: "finite (dom tbl)" using finite_table [OF rd(3) view_finite [OF rd(2)]] .
  have index: "index_is (view (backend S) CF_COIN_BY_CONFIRMED_HEIGHT) tbl (\<lambda>r. Some (confirmed_height r) \<noteq> None)
      (\<lambda>i r. height_coin_key (the (Some (confirmed_height r))) i) (\<lambda>i _. as_ref i)"
    using rd(3) by (simp add: disk_ok_def confirmed_key_def [abs_def])
  have sub: "set (confirmed_above t (height S) tbl) \<subseteq> dom tbl"
    using above_props(1) [OF fin rd(4)] by (auto simp: deleted_ids_def)
  show ?thesis
    using scan_heights [OF rd(2) fin _ index, of "rollback_delete_entry X B S" "heights_above t (height S)"]
      delete_loop [OF rd sub, of "\<lambda>r. Some (confirmed_height r)" rollback_acc_new]
    by (simp add: confirmed_above_def [symmetric] rollback_acc_new_def batch_new_def Let_def)
qed

lemma spent_scan:
  assumes rd: "ok (backend S)" "disk_ok X (view (backend S)) tbl"
  shows "try_fold (rollback_scan B S CF_COIN_BY_SPENT_HEIGHT f) (heights_above t (height S)) acc =
    try_fold f (index_entries spent_height tbl (spent_above t (height S) tbl)) acc"
proof -
  have fin: "finite (dom tbl)" using finite_table [OF rd(2) view_finite [OF rd(1)]] .
  have index: "index_is (view (backend S) CF_COIN_BY_SPENT_HEIGHT) tbl (\<lambda>r. spent_height r \<noteq> None)
      (\<lambda>i r. height_coin_key (the (spent_height r)) i) (\<lambda>i _. as_ref i)"
    using rd(2) by (simp add: disk_ok_def spent_key_def [abs_def])
  show ?thesis
    using scan_heights [OF rd(1) fin _ index] by (simp add: spent_above_def)
qed

lemma rollback_collected:
  assumes X: "bincode_ok X" and S: "store_ok X view ok S tbl Hs"
  obtains acc where "rollback_collect X B S t = Inr acc"
    "collected X (view (backend S)) tbl t (height S) acc"
proof -
  note ok = S [unfolded store_ok_def]
  have rd: "bincode_ok X" "ok (backend S)" "disk_ok X (view (backend S)) tbl" "table_ok X (height S) tbl"
    using X ok by simp_all
  have fin: "finite (dom tbl)" using finite_table [OF rd(3) view_finite [OF rd(2)]] .
  note above = above_props [OF fin rd(4), of t]
  let ?L1 = "confirmed_above t (height S) tbl" and ?L2 = "spent_above t (height S) tbl"
  let ?Dl = "deleted_ids t tbl"
  let ?js = "filter (\<lambda>i. i \<notin> ?Dl) ?L2"
  have sub: "set ?L1 \<subseteq> dom tbl" "set ?L2 \<subseteq> dom tbl" "set ?js \<subseteq> dom tbl"
    using above(1,3) by (auto simp: deleted_ids_def)
  let ?m1 = "fold (\<lambda>i. hm_insert i (the (tbl i))) ?L1 []"
  let ?ds = "map fst (filter (\<lambda>(_, r). confirmed_height r > t) ?m1)"
  let ?acc1 = "rollback_acc_new\<lparr>ra_modified := ?m1, ra_batch := concat (map (\<lambda>i. delete_ops i (the (tbl i))) ?L1),
      ra_removals := ?L1, ra_deleted := length ?L1\<rparr>"
  have loop1: "try_fold (rollback_scan B S CF_COIN_BY_CONFIRMED_HEIGHT (rollback_delete_entry X B S))
      (heights_above t (height S)) rollback_acc_new = Inr ?acc1"
    using confirmed_loop [OF rd, of t] by (simp add: Let_def)
  have m1: "map_of ?m1 = tbl |` ?Dl" "hm_ok ?m1"
    using map_of_snapshots [OF sub(1), of "[]"] above(1) hm_ok_snapshots [of "[]"] by simp_all
  have ds: "set ?ds = ?Dl" 
    using snapshot_ids [OF m1(2) m1(1) [unfolded deleted_ids_def]] unfolding deleted_ids_def .
  let ?acc2 = "?acc1\<lparr>ra_batch := ra_batch ?acc1 @ concat (map (hint_delete_ops (view (backend S))) ?ds)\<rparr>"
  have mem: "hm_contains_key (ra_modified ?acc2) i \<longleftrightarrow> i \<in> ?Dl" for i
    using m1(1) by (auto simp: hm_contains_key_def restrict_map_def deleted_ids_def)
  let ?acc3 = "?acc2\<lparr>ra_modified := fold (\<lambda>i. hm_insert i (the (tbl i))) ?js ?m1,
      ra_batch := ra_batch ?acc2 @ concat (map (respend_ops X tbl ?Dl) ?L2),
      ra_updates := map (\<lambda>i. (i, merkle_leaf_hash X (row X (unspend tbl (the (tbl i)))))) ?js,
      ra_unspent := length ?js\<rparr>"
  have "try_fold (rollback_unspend_entry X B S) (index_entries spent_height tbl ?L2) ?acc2 = Inr ?acc3"
    using unspend_loop [OF rd sub(2) above(4) mem] by (simp add: Let_def rollback_acc_new_def)
  then have "rollback_collect X B S t = Inr ?acc3"
    using spent_scan [OF rd(2,3), of "rollback_unspend_entry X B S"] hints_loop [OF rd(2), of Hs ?ds] ok
    by (simp add: rollback_collect_def loop1)
  moreover have "map_of (ra_modified ?acc3) = tbl |` (?Dl \<union> respent_ids t tbl)"
    using map_of_snapshots [OF sub(3), of ?m1] m1 respent_above [OF fin rd(4), of t]
    by (auto simp: fun_eq_iff map_add_def restrict_map_def split: option.splits)
  moreover have "length ?L1 = card ?Dl" "length ?js = card (respent_ids t tbl)"
    using above(1,2,4) respent_above [OF fin rd(4), of t] distinct_card [of ?L1] distinct_card [of ?js] by simp_all
  moreover have "ra_batch ?acc3 = rollback_ops X (view (backend S)) tbl t (height S) ?ds"
    by (simp add: rollback_ops_def)
  then have "\<exists>ds. set ds = ?Dl \<and> ra_batch ?acc3 = rollback_ops X (view (backend S)) tbl t (height S) ds"
    using ds by blast
  moreover have "hm_ok (ra_modified ?acc3)" using hm_ok_snapshots [OF m1(2)] by simp
  ultimately show thesis using that [of ?acc3] by (simp add: collected_def Let_def)
qed

end

section \<open>The rolled back table\<close>

lemma rolled_back_eq:
  "rolled_back t tbl = (\<lambda>j. if j \<in> {i. \<exists>r. tbl i = Some r \<and> spent_after t r} - deleted_ids t tbl
     then Some (unspend tbl (the (tbl j))) else (tbl |` (- deleted_ids t tbl)) j)"
proof
  fix j
  show "rolled_back t tbl j = (if j \<in> {i. \<exists>r. tbl i = Some r \<and> spent_after t r} - deleted_ids t tbl
     then Some (unspend tbl (the (tbl j))) else (tbl |` (- deleted_ids t tbl)) j)"
    by (cases "tbl j") (auto simp: rolled_back_def deleted_ids_def restrict_map_def)
qed

lemma rolled_back_ok:
  assumes "table_ok X h tbl"
  shows "table_ok X t (rolled_back t tbl)"
  unfolding table_ok_def
proof (intro allI impI)
  fix i r
  assume r: "rolled_back t tbl i = Some r"
  then obtain r0 where r0: "tbl i = Some r0" by (auto simp: rolled_back_def split: option.splits)
  then have "record_coin_id X r0 = i \<and> pred_option (\<lambda>sh. confirmed_height r0 < sh \<and> sh \<le> h) (spent_height r0)"
    using assms by (auto simp: table_ok_def)
  with r r0 show "record_coin_id X r = i \<and> confirmed_height r \<le> t
      \<and> pred_option (\<lambda>sh. confirmed_height r < sh \<and> sh \<le> t) (spent_height r)"
    by (auto simp: rolled_back_def spent_after_def not_less split: if_splits option.splits)
qed

lemma unspent_of_rolled_back:
  "unspent_of (rolled_back t tbl) = (unspent_of tbl - deleted_ids t tbl) \<union> respent_ids t tbl"
proof -
  have "i \<in> unspent_of (rolled_back t tbl) \<longleftrightarrow> i \<in> (unspent_of tbl - deleted_ids t tbl) \<union> respent_ids t tbl" for i
    by (cases "tbl i")
      (auto simp: unspent_of_def rolled_back_def deleted_ids_def respent_ids_def spent_after_def
        split: if_splits option.splits)
  then show ?thesis by blast
qed

definition rollback_meta :: "u64 \<Rightarrow> u64 \<Rightarrow> write_op list" where
  "rollback_meta t ts = [Put CF_METADATA META_HEIGHT (u64_to_le_bytes t),
     Put CF_METADATA META_TIP_HASH (as_ref 0), Put CF_METADATA META_TIMESTAMP (u64_to_le_bytes ts)]"

lemma rollback_cfs:
  assumes "hints_ok D Hs" "finite (dom (D CF_HINTS))"
  shows "op_cf ` set (respend_ops X tbl Dl i) \<subseteq> index_cfs" "list_all op_ok (respend_ops X tbl Dl i)"
    and "op_cf ` set (hint_delete_ops D i) \<subseteq> hint_cfs" "list_all op_ok (hint_delete_ops D i)"
proof -
  show "op_cf ` set (respend_ops X tbl Dl i) \<subseteq> index_cfs" "list_all op_ok (respend_ops X tbl Dl i)"
    using ops_cfs ops_ok by (auto simp: respend_ops_def Let_def index_cfs_def op_ok_def key_ok_def spent_key_def)
  show "op_cf ` set (hint_delete_ops D i) \<subseteq> hint_cfs" "list_all op_ok (hint_delete_ops D i)"
    using assms(1) unfolding list_all_iff set_hint_delete_ops [OF assms]
    by (auto simp: hint_cfs_def op_ok_def key_ok_def hints_ok_def)
qed

lemma rollback_ops_ok:
  "hints_ok D Hs \<Longrightarrow> finite (dom (D CF_HINTS)) \<Longrightarrow>
   list_all op_ok (rollback_ops X D tbl t h ds @ rollback_meta t' ts)"
  by (simp add: rollback_ops_def rollback_meta_def list_all_concat_map ops_ok rollback_cfs op_ok_def)

lemma rollback_ops_cfs:
  assumes "hints_ok D Hs" "finite (dom (D CF_HINTS))"
  shows "op_cf ` set (rollback_ops X D tbl t h ds @ rollback_meta t' ts) \<subseteq> state_cfs"
proof -
  have "op_cf ` set (concat (map (\<lambda>i. delete_ops i (the (tbl i))) (confirmed_above t h tbl))) \<subseteq> index_cfs"
    "op_cf ` set (concat (map (respend_ops X tbl (deleted_ids t tbl)) (spent_above t h tbl))) \<subseteq> index_cfs"
    "op_cf ` set (concat (map (hint_delete_ops D) ds)) \<subseteq> hint_cfs"
    by (intro cfs_concat_map ops_cfs(3) rollback_cfs(1) [OF assms] rollback_cfs(3) [OF assms])+
  then show ?thesis
    unfolding rollback_ops_def set_append image_Un by (intro Un_least) (simp_all add: state_cfsI rollback_meta_def)
qed

lemma rollback_ops_typed:
  assumes "hints_ok D Hs" "finite (dom (D CF_HINTS))"
  shows "list_all op_typed (rollback_ops X D tbl t h ds @ rollback_meta t' ts)"
proof -
  have "list_all op_typed (concat (map (\<lambda>i. delete_ops i (the (tbl i))) (confirmed_above t h tbl)))"
    "list_all op_typed (concat (map (respend_ops X tbl (deleted_ids t tbl)) (spent_above t h tbl)))"
    "list_all op_typed (concat (map (hint_delete_ops D) ds))"
    by (rule op_typed_cfs(1) op_typed_cfs(2), rule cfs_concat_map,
        rule ops_cfs(3) rollback_cfs(1) [OF assms] rollback_cfs(3) [OF assms])+
  then show ?thesis by (simp add: rollback_ops_def rollback_meta_def op_typed_def)
qed

lemma apply_ops_local: "D cf = D' cf \<Longrightarrow> apply_ops b D cf = apply_ops b D' cf"
proof (induction b arbitrary: D D')
  case Nil
  then show ?case by simp
next
  case (Cons op b)
  have "apply_op op D cf = apply_op op D' cf" using Cons.prems by (cases op) auto
  then show ?case by (simp add: Cons.IH [of "apply_op op D" "apply_op op D'"])
qed

lemma rollback_disk:
  fixes ts t :: u64
  assumes D: "disk_ok X D tbl" "hints_ok D Hs" "\<And>cf. finite (dom (D cf))" and tbl: "table_ok X h tbl"
    and ds: "set ds = deleted_ids t tbl"
  defines "D' \<equiv> apply_ops (rollback_ops X D tbl t h ds @ rollback_meta t ts) D"
  shows "disk_ok X D' (rolled_back t tbl)" "hints_ok D' (kept_hints t tbl Hs)"
    and "D' CF_METADATA = (D CF_METADATA)(META_HEIGHT \<mapsto> u64_to_le_bytes t, META_TIP_HASH \<mapsto> as_ref 0,
           META_TIMESTAMP \<mapsto> u64_to_le_bytes ts)"
proof -
  have fin: "finite (dom tbl)" using finite_table [OF D(1,3)] .
  note above = above_props [OF fin tbl, of t]
  let ?del = "concat (map (\<lambda>i. delete_ops i (the (tbl i))) (confirmed_above t h tbl))"
  let ?hint = "concat (map (hint_delete_ops D) ds)"
  let ?re = "concat (map (respend_ops X tbl (deleted_ids t tbl)) (spent_above t h tbl))"
  let ?D1 = "apply_ops ?del D"
  have cfs: "op_cf ` set ?del \<subseteq> index_cfs" "op_cf ` set ?re \<subseteq> index_cfs" "op_cf ` set ?hint \<subseteq> hint_cfs"
    by (intro cfs_concat_map ops_cfs(3) rollback_cfs(1) [OF D(2,3)] rollback_cfs(3) [OF D(2,3)])+
  have D': "D' = apply_ops (rollback_meta t ts) (apply_ops ?re (apply_ops ?hint ?D1))"
    by (simp add: D'_def rollback_ops_def)
  have meta: "D' cf = apply_ops ?re (apply_ops ?hint ?D1) cf" if "cf \<noteq> CF_METADATA" for cf
    unfolding D' rollback_meta_def using that by simp
  have "disk_ok X ?D1 (tbl |` (- deleted_ids t tbl))"
    using disk_ok_deletes [OF D(1) above(2)] above(1) by (auto simp: deleted_ids_def)
  then have "disk_ok X (apply_ops ?hint ?D1) (tbl |` (- deleted_ids t tbl))"
    using disk_ok_cong [of "apply_ops ?hint ?D1" ?D1] apply_ops_outside [OF cfs(3)] cf_classes(5) by blast
  then have "disk_ok X (apply_ops ?re (apply_ops ?hint ?D1)) (rolled_back t tbl)"
    unfolding rolled_back_eq above(3) [symmetric]
  proof (rule disk_ok_respends [OF _ above(4)])
    fix i
    assume "i \<in> set (spent_above t h tbl)"
    then obtain r where "tbl i = Some r" "spent_after t r" using above(3) by blast
    then show "if i \<in> deleted_ids t tbl then (tbl |` (- deleted_ids t tbl)) i = None
        else \<exists>r. tbl i = Some r \<and> (tbl |` (- deleted_ids t tbl)) i = Some r \<and> spent_height r \<noteq> None"
      by (auto simp: spent_after_def split: option.splits)
  qed
  moreover have "D' cf = apply_ops ?re (apply_ops ?hint ?D1) cf" if "cf \<in> index_cfs" for cf
    using that by (intro meta) (auto simp: index_cfs_def)
  ultimately show "disk_ok X D' (rolled_back t tbl)"
    using disk_ok_cong [of D' "apply_ops ?re (apply_ops ?hint ?D1)"] by blast
  have keep: "apply_ops ?re D0 cf = D0 cf" "?D1 cf = D cf" if "cf \<notin> index_cfs" for cf D0
    using apply_ops_outside [OF cfs(1) that] apply_ops_outside [OF cfs(2) that] by simp_all
  have eq: "D' cf = apply_ops ?hint D cf" if "cf \<in> hint_cfs" for cf
  proof -
    have cf: "cf \<notin> index_cfs" "cf \<noteq> CF_METADATA" using that by (auto simp: index_cfs_def hint_cfs_def)
    have "apply_ops ?hint ?D1 cf = apply_ops ?hint D cf"
      using keep(2) [OF cf(1)] by (rule apply_ops_local)
    then show ?thesis using meta [OF cf(2)] keep(1) [OF cf(1)] by simp
  qed
  show "hints_ok D' (kept_hints t tbl Hs)"
    using hints_ok_deletes [OF D(2,3), of ds] hints_ok_cong [of D' "apply_ops ?hint D"] eq
    unfolding kept_hints_def ds by blast
  have "apply_ops ?re (apply_ops ?hint ?D1) CF_METADATA = D CF_METADATA"
    using keep apply_ops_outside [OF cfs(3)] by simp
  then show "D' CF_METADATA = (D CF_METADATA)(META_HEIGHT \<mapsto> u64_to_le_bytes t, META_TIP_HASH \<mapsto> as_ref 0,
           META_TIMESTAMP \<mapsto> u64_to_le_bytes ts)"
    unfolding D' rollback_meta_def by simp
qed

lemma rolled_back_leaves:
  assumes "map_of (leaves t0) = leaf_table X tbl" "set rs = deleted_ids t tbl" "set js = respent_ids t tbl"
  obtains t1 t2 where "batch_remove rs t0 = Inr t1"
    "batch_update (map (\<lambda>i. (i, merkle_leaf_hash X (row X (unspend tbl (the (tbl i)))))) js) t1 = Inr t2"
    "map_of (leaves t2) = leaf_table X (rolled_back t tbl)"
proof -
  have "set rs \<subseteq> dom (map_of (leaves t0))" unfolding assms(1,2) by (auto simp: deleted_ids_def)
  then obtain t1 where t1: "batch_remove rs t0 = Inr t1"
    "map_of (leaves t1) = leaf_table X tbl |` (- deleted_ids t tbl)"
    using assms(2) by (auto simp: batch_remove_Inr map_of_hm_remove_all assms(1))
  let ?es = "map (\<lambda>i. (i, merkle_leaf_hash X (row X (unspend tbl (the (tbl i)))))) js"
  have "fst ` set ?es \<subseteq> dom (map_of (leaves t1))"
    unfolding t1(2) using assms(3) by (auto simp: respent_ids_def deleted_ids_def leaf_table_def)
  then obtain t2 where t2: "batch_update ?es t1 = Inr t2"
    "map_of (leaves t2) = map_of (leaves t1) ++ map_of (rev ?es)"
    by (auto simp: batch_update_Inr map_of_smt_insert_all)
  have "map_of (rev ?es) = (Some \<circ> (\<lambda>i. merkle_leaf_hash X (row X (unspend tbl (the (tbl i)))))) |` respent_ids t tbl"
    unfolding rev_map map_of_map_restrict using assms(3) by simp
  moreover have "(leaf_table X tbl |` (- deleted_ids t tbl)
      ++ ((Some \<circ> (\<lambda>i. merkle_leaf_hash X (row X (unspend tbl (the (tbl i)))))) |` respent_ids t tbl)) j
      = leaf_table X (rolled_back t tbl) j" for j
    by (cases "tbl j")
      (auto simp: leaf_table_def rolled_back_def respent_ids_def deleted_ids_def map_add_def restrict_map_def not_less)
  ultimately have "map_of (leaves t2) = leaf_table X (rolled_back t tbl)"
    unfolding t2(2) t1(2) by presburger
  with that t1 t2 show thesis by blast
qed

section \<open>Refinement\<close>

text \<open>The result of a rollback to height \<open>t\<close> and the store it leaves.\<close>

definition rolled_back_to ::
  "externals \<Rightarrow> ('s \<Rightarrow> disk) \<Rightarrow> ('s \<Rightarrow> bool) \<Rightarrow> u64 \<Rightarrow> 's coin_store \<Rightarrow> coin_table \<Rightarrow> (coin_id \<times> bytes) set
    \<Rightarrow> rollback_result \<Rightarrow> 's coin_store \<Rightarrow> bool" where
  "rolled_back_to X view ok t S tbl Hs R S' \<longleftrightarrow>
     map_of (modified_coins R) = tbl |` (deleted_ids t tbl \<union> respent_ids t tbl)
     \<and> coins_deleted R = card (deleted_ids t tbl) \<and> coins_unspent R = card (respent_ids t tbl)
     \<and> new_height R = t
     \<and> store_ok X view ok S' (rolled_back t tbl) (kept_hints t tbl Hs)
     \<and> initialized S' \<and> height S' = t \<and> tip_hash S' = 0 \<and> cs_timestamp S' = cs_timestamp S
     \<and> kept (view (backend S)) (view (backend S'))"

context reliable_backend
begin

lemma rollback_committed:
  assumes S: "store_ok X view ok S tbl Hs" "initialized S"
    and acc: "collected X (view (backend S)) tbl t (height S) acc"
  obtains R S' where "rollback_commit X B t acc S = (Inr R, S')" "rolled_back_to X view ok t S tbl Hs R S'"
proof -
  note ok = S(1) [unfolded store_ok_def]
  note c = acc [unfolded collected_def Let_def]
  let ?D = "view (backend S)"
  have fin: "finite (dom tbl)" using finite_table ok view_finite by blast
  have tbl: "table_ok X (height S) tbl" using ok by simp
  obtain ds where ds: "set ds = deleted_ids t tbl" "ra_batch acc = rollback_ops X ?D tbl t (height S) ds"
    using c by blast
  obtain t1 t2 where t12: "batch_remove (ra_removals acc) (merkle_tree S) = Inr t1"
    "batch_update (ra_updates acc) t1 = Inr t2" "map_of (leaves t2) = leaf_table X (rolled_back t tbl)"
  proof (rule rolled_back_leaves)
    show "map_of (leaves (merkle_tree S)) = leaf_table X tbl" using ok by blast
    show "set (ra_removals acc) = deleted_ids t tbl" using c above_props(1) [OF fin tbl] by simp
    show "set (filter (\<lambda>i. i \<notin> deleted_ids t tbl) (spent_above t (height S) tbl)) = respent_ids t tbl"
      by (rule respent_above [OF fin tbl])
  qed (use c in auto)
  have t2_ok: "tree_ok X t2" using tree_ok_batch(3) [OF _ t12(1)] tree_ok_batch(2) [OF _ t12(2)] ok by blast
  obtain r t3 where t3: "smt_root X t2 = (r, t3)" by fastforce
  note root = smt_root_eq [OF t2_ok t3]
  let ?b = "ra_batch acc @ rollback_meta t (cs_timestamp S)"
  have b_ok: "list_all op_ok ?b" using rollback_ops_ok ds(2) ok view_finite by metis
  then obtain s' where s': "kv_batch_write B (backend S) ?b = Inr s'" "ok s'" "view s' = apply_ops ?b ?D"
    using batch_ok ok by metis
  have "op_cf ` set ?b \<subseteq> state_cfs"
    unfolding ds(2) by (rule rollback_ops_cfs) (use ok view_finite in blast)+
  moreover have "list_all op_typed ?b"
    unfolding ds(2) by (rule rollback_ops_typed) (use ok view_finite in blast)+
  ultimately have kept: "kept ?D (view s')" unfolding s'(3) by (rule keptI [OF b_ok])
  note D = rollback_disk [of X ?D tbl Hs "height S" ds t "cs_timestamp S", OF _ _ _ tbl ds(1), folded ds(2), folded s'(3)]
  let ?R = "\<lparr>modified_coins = ra_modified acc, coins_deleted = ra_deleted acc,
      coins_unspent = ra_unspent acc, new_height = t\<rparr>"
  let ?S = "S\<lparr>backend := s', height := t, tip_hash := 0, merkle_tree := t3,
      unspent_ids := (unspent_ids S - set (ra_removals acc)) \<union> fst ` set (ra_updates acc)\<rparr>"
  have "(if ra_removals acc \<noteq> [] then batch_remove (ra_removals acc) (merkle_tree S) else Inr (merkle_tree S)) = Inr t1"
    "(if ra_updates acc \<noteq> [] then batch_update (ra_updates acc) t1 else Inr t1) = Inr t2"
    using t12(1,2) by (auto simp: batch_remove_Inr batch_update_Inr smt_insert_all_def)
  then have "rollback_commit X B t acc S = (Inr ?R, ?S)"
    using s'(1) by (simp add: rollback_commit_def t3 Let_def batch_put_def rollback_meta_def)
  moreover have "meta_ok (view s') ?S" using D(3) ok S(2) view_finite by (simp add: meta_ok_def)
  moreover have "unspent_ids ?S = unspent_of (rolled_back t tbl)"
  proof -
    have "fst ` set (ra_updates acc) = respent_ids t tbl"
      using c respent_above [OF fin tbl, of t] by (simp add: image_image)
    then show ?thesis using c ok above_props(1) [OF fin tbl] by (simp add: unspent_of_rolled_back)
  qed
  ultimately show thesis
    using that [of ?R ?S] root t12(3) s'(2) D(1,2) ok c S(2) view_finite kept rolled_back_ok [OF tbl]
    by (simp add: rolled_back_to_def store_ok_def)
qed

lemma rollback_done:
  assumes "bincode_ok X" "store_ok X view ok S tbl Hs" "initialized S"
  obtains R S' where
    "(case rollback_collect X B S t of Inl e \<Rightarrow> (Inl e, S) | Inr acc \<Rightarrow> rollback_commit X B t acc S) = (Inr R, S')"
    "rolled_back_to X view ok t S tbl Hs R S'"
proof -
  obtain acc where "rollback_collect X B S t = Inr acc" "collected X (view (backend S)) tbl t (height S) acc"
    using rollback_collected [OF assms(1,2)] by metis
  with rollback_committed [OF assms(2,3)] that show thesis by (metis sum.case(2))
qed

end

lemma sint_nonneg:
  fixes w :: u64
  assumes "0 \<le> sint w"
  shows "sint w = uint w"
  using assms sint_lt [of w] uint_sint [of w] by (simp add: take_bit_int_eq_self)

lemma signed_noop:
  fixes x y :: u64
  assumes "0 \<le> sint x" "sint x \<le> sint y"
  shows "y \<le> x \<longleftrightarrow> x = y"
  using assms sint_nonneg [of x] sint_nonneg [of y] by (auto simp: word_le_def intro: word_uint_eqI)

section \<open>The documented rollback\<close>

text \<open>
  At a target that is not negative the table is the documented one up to the fast-forward flags of the coins
  that are unspent: the code sets the flag whenever the record of the parent exists before the rollback.
\<close>

lemma rolled_back_documented: "agrees_but_flags (respent_ids t tbl) (rolled_back t tbl) (documented_rollback (uint t) tbl)"
proof -
  have "case (rolled_back t tbl i, documented_rollback (uint t) tbl i) of
            (None, None) \<Rightarrow> True
          | (Some r, Some d) \<Rightarrow> r\<lparr>ff_eligible := ff_eligible d\<rparr> = d \<and> (ff_eligible d \<longrightarrow> ff_eligible r)
              \<and> (i \<notin> respent_ids t tbl \<longrightarrow> r = d)
          | _ \<Rightarrow> False" for i
    by (cases "tbl i") (auto simp: rolled_back_def documented_rollback_def cut_table_def cut_record_def lineage_flag_def
        unspend_def spent_after_def is_spent_def word_less_def word_le_def not_less respent_ids_def split: option.splits if_splits)
  then show ?thesis unfolding agrees_but_flags_def by blast
qed

lemma dom_rolled_back: "dom (rolled_back t tbl) = {i. \<exists>r. tbl i = Some r \<and> confirmed_height r \<le> t}"
  by (auto simp: rolled_back_def not_less split: option.splits if_splits)

text \<open>
  The flags differ for every unspent coin whose parent is there and does not meet the documented conditions: for
  a reward, another puzzle hash or amount, or a parent that is unspent after the rollback.
\<close>

lemma flag_differs:
  assumes "tbl i = Some r" "confirmed_height r \<le> t" "spent_after t r" "tbl (parent_coin_info (cr_coin r)) \<noteq> None"
    and "\<not> lineage_flag (cut_table (uint t) tbl) (r\<lparr>spent_height := None\<rparr>)"
  shows "ff_eligible (the (rolled_back t tbl i))" "\<not> ff_eligible (the (documented_rollback (uint t) tbl i))"
  using assms by (auto simp: rolled_back_def unspend_def documented_rollback_def cut_table_def cut_record_def spent_after_def
      is_spent_def word_le_def word_less_def split: option.splits)

lemma sint_max: "uint (if sint (x :: i64) < 0 then 0 else x) = max 0 (sint x)"
  using sint_nonneg [of x] by (auto simp: not_less)

section \<open>Properties\<close>

lemma rollback_unfolds:
  assumes "initialized S" "sint target \<le> sint (height S)" "\<not> (0 \<le> sint target \<and> target = height S)"
  shows "rollback_to_block X B target S =
      (case rollback_collect X B S (if sint target < 0 then 0 else target) of
         Inl e \<Rightarrow> (Inl e, S)
       | Inr acc \<Rightarrow> rollback_commit X B (if sint target < 0 then 0 else target) acc S)"
proof -
  have "\<not> (height S \<le> (if sint target < 0 then 0 else target) \<and> sint target \<ge> 0)"
    using assms(2,3) signed_noop [of target "height S"] by auto
  then show ?thesis
    using assms(1) leD [OF assms(2)] unfolding rollback_to_block_def Let_def by (simp only: if_False simp_thms)
qed

lemma rollback_cases:
  assumes "reliable_backend B view ok" "bincode_ok X" "store_ok X view ok S tbl Hs" "initialized S"
    and "sint target \<le> sint (height S)" "\<not> (0 \<le> sint target \<and> target = height S)"
  obtains R S' where "rollback_to_block X B target S = (Inr R, S')"
    "rolled_back_to X view ok (if sint target < 0 then 0 else target) S tbl Hs R S'"
  using rollback_unfolds [OF assms(4-6)] that
    reliable_backend.rollback_done [OF assms(1-4), of "if sint target < 0 then 0 else target"] by metis

text \<open>
  C4. Rollback. On an initialised store that represents a table, \<open>rollback_to_block\<close> refuses a target
  above the tip, does nothing when the target is the tip, and otherwise never fails: it leaves a store that
  represents the table cut at the target, in all column families, the Merkle tree and the unspent set, with
  every coin confirmed above it and its hints gone and every coin spent above it unspent again. The result
  carries the records as they were before and the number of deleted and of unspent coins; the tip hash becomes
  zero. No row outside the families of coins, hints and metadata changes.

  This is the documented rollback with two exceptions. A negative target acts as 0: the coins of genesis stay,
  where the documentation asks for an empty store. And the fast-forward flag of an unspent coin is set whenever
  the record of its parent exists, so it is set where the documentation says so but also where it does not
  (\<open>flag_differs\<close>).
\<close>

theorem rollback_refines:
  assumes "reliable_backend B view ok" "bincode_ok X" "store_ok X view ok S tbl Hs" "initialized S"
  shows "case rollback_to_block X B target S of (result, S') \<Rightarrow>
    if sint target > sint (height S) then result = Inl (RollbackAboveTip target (height S)) \<and> S' = S
    else if 0 \<le> sint target \<and> target = height S then
      result = Inr \<lparr>modified_coins = [], coins_deleted = 0, coins_unspent = 0, new_height = height S\<rparr> \<and> S' = S
    else let t = (if sint target < 0 then 0 else target)
      in \<exists>R. result = Inr R
        \<and> map_of (modified_coins R) = tbl |` (deleted_ids t tbl \<union> respent_ids t tbl)
        \<and> coins_deleted R = card (deleted_ids t tbl) \<and> coins_unspent R = card (respent_ids t tbl)
        \<and> new_height R = t
        \<and> store_ok X view ok S' (rolled_back t tbl) (kept_hints t tbl Hs)
        \<and> height S' = t \<and> tip_hash S' = 0 \<and> cs_timestamp S' = cs_timestamp S
        \<and> kept (view (backend S)) (view (backend S'))
        \<and> agrees_but_flags (respent_ids t tbl) (rolled_back t tbl) (documented_rollback (max 0 (sint target)) tbl)
        \<and> (sint target < 0 \<longrightarrow> documented_rollback (sint target) tbl = Map.empty
             \<and> dom (rolled_back t tbl) = {i. \<exists>r. tbl i = Some r \<and> confirmed_height r = 0})"
proof -
  let ?t = "if sint target < 0 then 0 else target"
  have doc: "agrees_but_flags (respent_ids ?t tbl) (rolled_back ?t tbl) (documented_rollback (max 0 (sint target)) tbl)"
    using rolled_back_documented [of ?t tbl] unfolding sint_max .
  have neg: "documented_rollback (sint target) tbl = Map.empty
      \<and> dom (rolled_back ?t tbl) = {i. \<exists>r. tbl i = Some r \<and> confirmed_height r = 0}" if "sint target < 0"
    using that documented_negative [OF that] by (simp add: dom_rolled_back)
  consider (above) "sint target > sint (height S)" | (noop) "0 \<le> sint target" "target = height S"
    | (cut) "sint target \<le> sint (height S)" "\<not> (0 \<le> sint target \<and> target = height S)" by linarith
  then show ?thesis
  proof cases
    case above
    then show ?thesis using assms(4) by (simp add: rollback_to_block_def)
  next
    case noop
    then show ?thesis using assms(4) by (simp add: rollback_to_block_def Let_def)
  next
    case cut
    obtain R S' where "rollback_to_block X B target S = (Inr R, S')" "rolled_back_to X view ok ?t S tbl Hs R S'"
      by (rule rollback_cases [OF assms cut]) (rule that)
    then show ?thesis using cut doc neg unfolding rolled_back_to_def Let_def by (simp only: prod.case) auto
  qed
qed

lemma sample_chain_block:
  obtains S where
    "store_ok sample_externals (rocks_view mem_rocks mem_tab) mem_ok S
       (block_table sample_externals sample_block (genesis_table sample_externals 5 sample_coins))
       (block_hints sample_block)"
    "initialized S" "height S = 1" "tip_hash S = 77"
proof -
  obtain S where S: "store_ok sample_externals (rocks_view mem_rocks mem_tab) mem_ok S
      (genesis_table sample_externals 5 sample_coins) {}" "initialized S" "height S = 0" "tip_hash S = 0"
    by (rule sample_chain)
  have "height S \<noteq> - 1" using S(3) by simp
  note block = reliable_backend.block_refines [OF mem_rocks.rocks.reliable_backend_axioms, OF bincode_ok_sample
      S(1) sample_block_honest this]
  have "snd (apply_block sample_externals (rocks_backend mem_rocks) sample_block S) = S' \<Longrightarrow>
      store_ok sample_externals (rocks_view mem_rocks mem_tab) mem_ok S'
        (block_table sample_externals sample_block (genesis_table sample_externals 5 sample_coins))
        (block_hints sample_block) \<and> initialized S' \<and> height S' = 1 \<and> tip_hash S' = 77" for S'
    using block S(3) sample_block_accepted [OF S(2-4)]
    by (auto simp: block_applied_def root_expected_def sample_block_sel Let_def)
  with that show thesis by blast
qed

theorem rollback_refines_witness:
  "\<exists>S R S' tbl. initialized S \<and> height S = 1
     \<and> rollback_to_block sample_externals (rocks_backend mem_rocks) (- 1) S = (Inr R, S')
     \<and> new_height R = 0 \<and> height S' = 0
     \<and> store_ok sample_externals (rocks_view mem_rocks mem_tab) mem_ok S' (rolled_back 0 tbl)
         (kept_hints 0 tbl (block_hints sample_block))
     \<and> documented_rollback (- 1) tbl = Map.empty \<and> 10 \<in> dom (rolled_back 0 tbl)"
proof (rule sample_chain_block)
  fix S
  let ?tbl = "block_table sample_externals sample_block (genesis_table sample_externals 5 sample_coins)"
  assume S: "store_ok sample_externals (rocks_view mem_rocks mem_tab) mem_ok S ?tbl (block_hints sample_block)"
    "initialized S" "height S = 1"
  obtain result S' where out: "rollback_to_block sample_externals (rocks_backend mem_rocks) (- 1) S = (result, S')"
    by fastforce
  have "\<exists>r. ?tbl 10 = Some r \<and> confirmed_height r = 0"
    by (simp add: block_table_def sample_block_def genesis_table_def genesis_records_def sample_coins_def record_map_def)
  then have ten: "10 \<in> {i. \<exists>r. ?tbl i = Some r \<and> confirmed_height r = 0}" by simp
  obtain R where "result = Inr R" "new_height R = 0" "height S' = 0" "documented_rollback (- 1) ?tbl = Map.empty"
    "store_ok sample_externals (rocks_view mem_rocks mem_tab) mem_ok S' (rolled_back 0 ?tbl)
       (kept_hints 0 ?tbl (block_hints sample_block))"
    "dom (rolled_back 0 ?tbl) = {i. \<exists>r. ?tbl i = Some r \<and> confirmed_height r = 0}"
    using rollback_refines [OF mem_rocks.rocks.reliable_backend_axioms, OF bincode_ok_sample S(1,2), of "- 1"] S(2,3)
    by (auto simp: out Let_def)
  with S(2,3) out ten show ?thesis
    by (intro exI [of _ S] exI [of _ R] exI [of _ S'] exI [of _ ?tbl]) simp
qed

end
