(* ===== verification/Chain.thy ===== *)
theory Chain
  imports Rollback
begin

text \<open>
  How block application and rollback compose: undoing a block, applying one again, going back by a
  number of blocks.
\<close>

section \<open>State root\<close>

lemma state_root_ok:
  assumes "store_ok X view ok S tbl Hs" "state_root X S = (r, S')"
  shows "r = merkle_root X (leaf_table X tbl)" "store_ok X view ok S' tbl Hs"
proof -
  obtain t where t: "smt_root X (merkle_tree S) = (r, t)" "S' = S\<lparr>merkle_tree := t\<rparr>"
    using assms(2) by (auto simp: state_root_def split: prod.splits)
  note root = smt_root_eq [OF _ t(1)]
  show "r = merkle_root X (leaf_table X tbl)" "store_ok X view ok S' tbl Hs"
    using root assms(1) t(2) by (simp_all add: store_ok_def meta_ok_def)
qed

section \<open>Rollback after a block\<close>

lemma undo_table:
  assumes tbl: "table_ok X (height S) tbl" and acc: "block_error X S tbl block = None" "honest X block" "height S \<noteq> - 1"
  shows "rolled_back (height S) (block_table X block tbl) = (\<lambda>i. if i \<in> set (removals block)
    then Some ((the (tbl i))\<lparr>ff_eligible := (block_table X block tbl (parent_coin_info (cr_coin (the (tbl i)))) \<noteq> None)\<rparr>)
    else tbl i)"
proof
  fix i
  note a = accepted_block [OF acc(1,2)]
  have up: "height S < bd_height block" using a(2) u64_less_Suc [OF acc(3)] by simp
  have keep: "\<not> height S < confirmed_height r \<and> \<not> spent_after (height S) r" if "tbl i = Some r" for r
    using tbl that unfolding table_ok_def spent_after_def by (cases "spent_height r") (fastforce simp: not_less)+
  consider (removed) r where "i \<in> set (removals block)" "tbl i = Some r" "spent_height r = None"
    | (old) r where "i \<notin> set (removals block)" "tbl i = Some r" "record_map X (new_records block) i = None"
    | (none) "i \<notin> set (removals block)" "tbl i = None" "record_map X (new_records block) i = None"
    | (new) r where "i \<notin> set (removals block)" "tbl i = None" "record_map X (new_records block) i = Some r"
    using a(3) [of i] a(5) dom_record_map [of X "new_records block"]
    by (cases "tbl i"; cases "record_map X (new_records block) i") blast+
  then show "rolled_back (height S) (block_table X block tbl) i = (if i \<in> set (removals block)
    then Some ((the (tbl i))\<lparr>ff_eligible := (block_table X block tbl (parent_coin_info (cr_coin (the (tbl i)))) \<noteq> None)\<rparr>)
    else tbl i)"
  proof cases
    case removed
    then have "block_table X block tbl i = Some (spend (bd_height block) r)" by (simp add: block_table_def)
    moreover have "spent_after (height S) (spend (bd_height block) r)" using up by (simp add: spent_after_def)
    moreover have "unspend T (spend (bd_height block) r) = r\<lparr>ff_eligible := (T (parent_coin_info (cr_coin r)) \<noteq> None)\<rparr>" for T
      using removed(3) by (cases r) (simp add: unspend_def spend_def)
    ultimately show ?thesis using keep [OF removed(2)] removed by (simp add: rolled_back_def)
  next
    case old
    then have "block_table X block tbl i = Some r" by (simp add: block_table_def map_add_def)
    then show ?thesis using keep old(1,2) by (simp add: rolled_back_def)
  next
    case none
    then show ?thesis by (simp add: rolled_back_def block_table_def map_add_def)
  next
    case new
    then have "confirmed_height r = bd_height block" using record_map_SomeD new_records_sel by blast
    with new up show ?thesis by (simp add: rolled_back_def block_table_def map_add_def)
  qed
qed

lemma sint_small: "w < 2 ^ 63 \<Longrightarrow> sint (w :: u64) = uint w"
  unfolding sint_uint by (rule signed_take_bit_int_eq_self) (simp_all add: word_less_def order_trans [OF _ uint_ge_0])

lemma sint_next:
  assumes "(h :: u64) < 2 ^ 63 - 1"
  shows "0 \<le> sint h" "sint h < sint (h + 1)" "h \<noteq> h + 1" "h \<noteq> - 1"
proof -
  have "h \<noteq> - 1" using assms by auto
  then have less: "h < h + 1" by (rule u64_less_Suc)
  have "unat h < 2 ^ 63 - 1" using assms by (simp add: word_less_nat_alt)
  moreover have "unat (h + 1) = Suc (unat h)"
    using less by (metis add.commute unatSuc word_not_simps(1))
  ultimately have "h + 1 < 2 ^ 63" "h < 2 ^ 63" by (simp_all add: word_less_nat_alt)
  then show "0 \<le> sint h" "sint h < sint (h + 1)"
    using less by (simp_all add: sint_small word_less_def)
  show "h \<noteq> h + 1" "h \<noteq> - 1" using less \<open>h \<noteq> - 1\<close> by auto
qed

text \<open>
  Rolling back the block just applied. The rollback succeeds, returns to the previous height and
  the same unspent set, and gives back the previous table except for one field: the fast-forward
  flag of every coin the block had spent is recomputed as the existence of its parent's record.
  Where this is the flag the coin had, the state root is the previous one.
\<close>

theorem rollback_undoes_block:
  assumes "reliable_backend B view ok" "bincode_ok X" "store_ok X view ok S tbl Hs" "honest X block"
    and "height S < 2 ^ 63 - 1" "apply_block X B block S = (Inr R, S1)"
  shows "\<exists>R' S2. rollback_to_block X B (height S) S1 = (Inr R', S2)
    \<and> store_ok X view ok S2
        (\<lambda>i. if i \<in> set (removals block)
           then Some ((the (tbl i))\<lparr>ff_eligible :=
                  (block_table X block tbl (parent_coin_info (cr_coin (the (tbl i)))) \<noteq> None)\<rparr>)
           else tbl i)
        (kept_hints (height S) (block_table X block tbl) (Hs \<union> block_hints block))
    \<and> height S2 = height S \<and> unspent_ids S2 = unspent_ids S
    \<and> ((\<forall>i \<in> set (removals block). ff_eligible (the (tbl i)) \<longleftrightarrow>
           block_table X block tbl (parent_coin_info (cr_coin (the (tbl i)))) \<noteq> None)
         \<longrightarrow> fst (state_root X S2) = fst (state_root X S))"
proof -
  note bound = sint_next [OF assms(5)]
  let ?tbl = "block_table X block tbl" and ?h = "height S"
  let ?tbl2 = "\<lambda>i. if i \<in> set (removals block)
     then Some ((the (tbl i))\<lparr>ff_eligible := (?tbl (parent_coin_info (cr_coin (the (tbl i)))) \<noteq> None)\<rparr>) else tbl i"
  have acc: "block_error X S tbl block = None"
    "store_ok X view ok S1 ?tbl (Hs \<union> block_hints block)" "height S1 = ?h + 1" "initialized S1"
    using reliable_backend.block_refines [OF assms(1-4) bound(4)] assms(6)
    by (auto simp: block_applied_def Let_def split: option.splits if_splits)
  obtain R' S2 where S2: "rollback_to_block X B ?h S1 = (Inr R', S2)"
    "rolled_back_to X view ok ?h S1 ?tbl (Hs \<union> block_hints block) R' S2"
    using rollback_cases [OF assms(1,2) acc(2,4), of ?h] bound acc(3) by (simp add: not_less) metis
  have "rolled_back ?h ?tbl = ?tbl2"
    using undo_table [OF _ acc(1) assms(4) bound(4)] assms(3) by (simp add: store_ok_def)
  with S2(2) have S2_ok: "store_ok X view ok S2 ?tbl2 (kept_hints ?h ?tbl (Hs \<union> block_hints block))" "height S2 = ?h"
    by (simp_all add: rolled_back_to_def)
  have "unspent_of ?tbl2 = unspent_of tbl"
  proof -
    have "i \<in> unspent_of ?tbl2 \<longleftrightarrow> i \<in> unspent_of tbl" for i
      using accepted_block(3) [OF acc(1) assms(4), of i] by (auto simp: unspent_of_def)
    then show ?thesis by blast
  qed
  moreover have "?tbl2 = tbl" if "\<forall>i \<in> set (removals block). ff_eligible (the (tbl i)) \<longleftrightarrow>
           ?tbl (parent_coin_info (cr_coin (the (tbl i)))) \<noteq> None"
  proof
    fix i
    show "?tbl2 i = tbl i"
      using that accepted_block(3) [OF acc(1) assms(4), of i] by (cases "tbl i") auto
  qed
  moreover have "fst (state_root X Q) = merkle_root X (leaf_table X T)" if "store_ok X view ok Q T H" for Q T H
    using state_root_ok(1) [OF that] by (metis prod.collapse)
  ultimately show ?thesis
    using S2(1) S2_ok assms(3) by (metis (no_types, lifting) store_ok_def)
qed

lemma sample_applied:
  obtains S R S1 where "store_ok sample_externals (rocks_view mem_rocks mem_tab) mem_ok S
      (genesis_table sample_externals 5 sample_coins) {}" "height S = 0"
    "apply_block sample_externals (rocks_backend mem_rocks) sample_block S = (Inr R, S1)"
    "store_ok sample_externals (rocks_view mem_rocks mem_tab) mem_ok S1
      (block_table sample_externals sample_block (genesis_table sample_externals 5 sample_coins))
      (block_hints sample_block)" "initialized S1" "height S1 = 1"
proof (rule sample_chain)
  fix S
  assume S: "store_ok sample_externals (rocks_view mem_rocks mem_tab) mem_ok S
      (genesis_table sample_externals 5 sample_coins) {}" "initialized S" "height S = 0" "tip_hash S = 0"
  have "height S \<noteq> - 1" using S(3) by simp
  note block = reliable_backend.block_refines [OF mem_rocks.rocks.reliable_backend_axioms, OF bincode_ok_sample
      S(1) sample_block_honest this]
  show thesis
    using that [OF S(1,3)] block S(3) sample_block_accepted [OF S(2-4)]
    by (cases "apply_block sample_externals (rocks_backend mem_rocks) sample_block S")
      (auto simp: block_applied_def root_expected_def sample_block_sel Let_def)
qed

theorem rollback_undoes_block_witness:
  "\<exists>S R S1 R' S2. apply_block sample_externals (rocks_backend mem_rocks) sample_block S = (Inr R, S1)
     \<and> rollback_to_block sample_externals (rocks_backend mem_rocks) 0 S1 = (Inr R', S2)
     \<and> height S2 = 0 \<and> unspent_ids S2 = unspent_ids S"
proof (rule sample_applied)
  fix S R S1
  assume S: "store_ok sample_externals (rocks_view mem_rocks mem_tab) mem_ok S
      (genesis_table sample_externals 5 sample_coins) {}" "height S = 0"
    "apply_block sample_externals (rocks_backend mem_rocks) sample_block S = (Inr R, S1)"
  have "height S < 2 ^ 63 - 1" using S(2) by simp
  from rollback_undoes_block [OF mem_rocks.rocks.reliable_backend_axioms, OF bincode_ok_sample S(1)
      sample_block_honest this S(3)] S(2,3) show ?thesis
    by (intro exI [of _ S] exI [of _ R] exI [of _ S1]) auto
qed

text \<open>
  C40. After a rollback that changed the height, the tip hash is zero: the block that followed the
  restored height before, or any other block of the next height whose parent hash is not zero, is
  refused with a parent hash mismatch and leaves the store as it is.
\<close>

theorem reapply_after_rollback:
  assumes "reliable_backend B view ok" "bincode_ok X" "store_ok X view ok S tbl Hs" "initialized S"
    and "0 \<le> sint target" "sint target < sint (height S)"
    and "rollback_to_block X B target S = (result, S')"
    and "bd_height block = target + 1" "parent_hash block \<noteq> 0"
  shows "apply_block X B block S' = (Inl (ParentHashMismatch 0 (parent_hash block)), S')"
proof -
  have "sint target \<le> sint (height S)" "\<not> (0 \<le> sint target \<and> target = height S)" using assms(6) by auto
  then obtain R where "rolled_back_to X view ok (if sint target < 0 then 0 else target) S tbl Hs R S'"
    using assms(7) by (auto elim!: rollback_cases [OF assms(1-4)])
  then have "initialized S'" "height S' = target" "tip_hash S' = 0"
    using assms(5) by (auto simp: rolled_back_to_def)
  with assms(8,9) show ?thesis by (simp add: apply_block_def validate_block_def)
qed

theorem reapply_after_rollback_witness:
  "\<exists>S1 result S2. rollback_to_block sample_externals (rocks_backend mem_rocks) 0 S1 = (result, S2)
     \<and> apply_block sample_externals (rocks_backend mem_rocks) (sample_block\<lparr>parent_hash := 76\<rparr>) S2
         = (Inl (ParentHashMismatch 0 76), S2)"
proof (rule sample_applied)
  fix S1
  assume S: "store_ok sample_externals (rocks_view mem_rocks mem_tab) mem_ok S1
      (block_table sample_externals sample_block (genesis_table sample_externals 5 sample_coins))
      (block_hints sample_block)" "initialized S1" "height S1 = 1"
  obtain result S2 where out: "rollback_to_block sample_externals (rocks_backend mem_rocks) 0 S1 = (result, S2)"
    by fastforce
  have "sint (0 :: u64) < sint (height S1)" using S(3) by simp
  from reapply_after_rollback [OF mem_rocks.rocks.reliable_backend_axioms, OF bincode_ok_sample S(1,2) _ this out,
      of "sample_block\<lparr>parent_hash := 76\<rparr>"] out show ?thesis
    by (auto simp: sample_block_sel)
qed

lemma sint_back:
  assumes "(h :: u64) < 2 ^ 63" "n < 2 ^ 63"
  shows "sint (h - n) = uint h - uint n"
proof -
  have "uint h < 2 ^ 63" "uint n < 2 ^ 63" using assms by (simp_all add: word_less_def)
  then have "signed_take_bit 63 (uint h - uint n) = uint h - uint n"
    using uint_ge_0 [of h] uint_ge_0 [of n] by (intro signed_take_bit_int_eq_self) linarith+
  then show ?thesis unfolding sint_word_diff sint_small [OF assms(1)] sint_small [OF assms(2)] by simp
qed

text \<open>
  C39. Rolling back a number of blocks. Below \<open>2 ^ 63\<close> the subtraction of the two casts does not wrap:
  the call rolls back to the height less \<open>n\<close>, or to height 0 where \<open>n\<close> exceeds the height. Up to the
  fast-forward flags of the coins it makes unspent this is the documented rollback to the height less \<open>n\<close>, as long
  as \<open>n\<close> is at most the height. Where \<open>n\<close> exceeds it, the documentation asks for an empty store, and the code
  keeps the coins of genesis. For \<open>n = 2 ^ 64 - 1\<close> the cast makes the target the height after the tip and the
  call fails, where the documentation asks for an empty store as well.
\<close>

theorem rollback_n_blocks_refines:
  assumes "reliable_backend B view ok" "bincode_ok X" "store_ok X view ok S tbl Hs" "initialized S"
    and "height S < 2 ^ 63 - 1" "0 < n" "n < 2 ^ 63"
  shows "(\<exists>R S'. rollback_n_blocks X B n S = (Inr R, S')
      \<and> new_height R = (if n \<le> height S then height S - n else 0) \<and> height S' = new_height R
      \<and> store_ok X view ok S' (rolled_back (new_height R) tbl) (kept_hints (new_height R) tbl Hs)
      \<and> (n \<le> height S \<longrightarrow> agrees_but_flags (respent_ids (new_height R) tbl) (rolled_back (new_height R) tbl)
            (documented_rollback (uint (height S) - uint n) tbl))
      \<and> (height S < n \<longrightarrow> documented_rollback (uint (height S) - uint n) tbl = Map.empty
            \<and> dom (rolled_back (new_height R) tbl) = {i. \<exists>r. tbl i = Some r \<and> confirmed_height r = 0}))
    \<and> rollback_n_blocks X B (- 1) S = (Inl (RollbackAboveTip (height S + 1) (height S)), S)
    \<and> documented_rollback (uint (height S) - uint (- 1 :: u64)) tbl = Map.empty"
proof -
  have h: "height S < 2 ^ 63" using assms(5) by (simp add: word_less_def)
  note back_eq = sint_back [OF h assms(7)]
  have n: "0 < uint n" using assms(6) by (simp add: word_less_def)
  have "sint (height S - n) \<le> sint (height S)" "\<not> (0 \<le> sint (height S - n) \<and> height S - n = height S)"
    using back_eq sint_small [OF h] n by auto
  then obtain R S' where R: "rollback_to_block X B (height S - n) S = (Inr R, S')"
    "rolled_back_to X view ok (if sint (height S - n) < 0 then 0 else height S - n) S tbl Hs R S'"
    by (rule rollback_cases [OF assms(1-4)])
  moreover have "sint (height S - n) < 0 \<longleftrightarrow> \<not> n \<le> height S" using back_eq by (auto simp: word_le_def)
  ultimately have R': "rollback_n_blocks X B n S = (Inr R, S')" "new_height R = (if n \<le> height S then height S - n else 0)"
    "height S' = new_height R" "store_ok X view ok S' (rolled_back (new_height R) tbl) (kept_hints (new_height R) tbl Hs)"
    using assms(4) by (auto simp: rollback_n_blocks_def rolled_back_to_def)
  have "agrees_but_flags (respent_ids (new_height R) tbl) (rolled_back (new_height R) tbl)
      (documented_rollback (uint (height S) - uint n) tbl)" if "n \<le> height S"
    using that R'(2) rolled_back_documented [of "height S - n" tbl] by (simp add: uint_minus_simple_alt)
  moreover have "documented_rollback (uint (height S) - uint n) tbl = Map.empty
      \<and> dom (rolled_back (new_height R) tbl) = {i. \<exists>r. tbl i = Some r \<and> confirmed_height r = 0}" if "height S < n"
  proof -
    have "uint (height S) - uint n < 0" "new_height R = 0" using that R'(2) by (simp add: word_less_def, simp add: not_le [symmetric])
    then show ?thesis using documented_negative by (simp add: dom_rolled_back)
  qed
  moreover have "sint (height S + 1) > sint (height S)"
    by (rule sint_next(2) [OF assms(5)])
  moreover have "documented_rollback (uint (height S) - uint (- 1 :: u64)) tbl = Map.empty"
  proof (rule documented_negative)
    have "uint (- 1 :: u64) = 2 ^ 64 - 1" by (simp add: unsigned_minus_1_eq_mask mask_eq_exp_minus_1)
    moreover have "uint (height S) < 2 ^ 63" using h by (simp add: word_less_def)
    ultimately show "uint (height S) - uint (- 1 :: u64) < 0" by simp
  qed
  ultimately show ?thesis using R' assms(4) by (simp add: rollback_n_blocks_def rollback_to_block_def)
qed

theorem rollback_n_blocks_refines_witness:
  "\<exists>S R S' tbl. height S = 1 \<and> rollback_n_blocks sample_externals (rocks_backend mem_rocks) 2 S = (Inr R, S')
     \<and> new_height R = 0 \<and> height S' = 0 \<and> documented_rollback (- 1) tbl = Map.empty
     \<and> dom (rolled_back 0 tbl) = {i. \<exists>r. tbl i = Some r \<and> confirmed_height r = 0}"
proof (rule sample_applied)
  fix S1
  assume S: "store_ok sample_externals (rocks_view mem_rocks mem_tab) mem_ok S1
      (block_table sample_externals sample_block (genesis_table sample_externals 5 sample_coins))
      (block_hints sample_block)" "initialized S1" "height S1 = 1"
  have "height S1 < 2 ^ 63 - 1" "0 < (2 :: u64)" "(2 :: u64) < 2 ^ 63" using S(3) by simp_all
  moreover have "\<not> (2 :: u64) \<le> 1" "(1 :: u64) < 2" by (simp_all add: word_le_nat_alt word_less_nat_alt)
  ultimately show ?thesis
    using rollback_n_blocks_refines [OF mem_rocks.rocks.reliable_backend_axioms, OF bincode_ok_sample S(1,2), of 2] S(3)
    by (intro exI [of _ S1]) auto
qed

end
