(* ===== verification/Queries.thy ===== *)
theory Queries
  imports Chain "HOL-Library.Product_Lexorder"
begin

text \<open>
  The query methods of \<open>src/src/queries.rs\<close> (\<open>get_coin_record\<close> is in the theory of the store). A
  loop that pushes records is a \<open>try_fold\<close> over its inputs with the vector of results as its
  state; a \<open>break\<close> once the vector is full is a body that does nothing from then on. Sums wrap as
  in a release build.
\<close>

section \<open>Loop bodies\<close>

definition record_filter :: "bool \<Rightarrow> u64 \<Rightarrow> u64 \<Rightarrow> coin_record \<Rightarrow> bool" where
  "record_filter include_spent start_height end_height rec \<longleftrightarrow>
     \<not> (\<not> include_spent \<and> is_spent rec)
     \<and> \<not> (confirmed_height rec < start_height \<or> confirmed_height rec > end_height)"

definition push_record ::
  "externals \<Rightarrow> 's storage_ops \<Rightarrow> 's coin_store \<Rightarrow> (coin_record \<Rightarrow> bool) \<Rightarrow> coin_id \<Rightarrow> coin_record list
    \<Rightarrow> coin_store_error + coin_record list" where
  "push_record X B S accept coin_id results =
     (case get_coin_record X B S coin_id of
        Inl e \<Rightarrow> Inl e
      | Inr None \<Rightarrow> Inr results
      | Inr (Some rec) \<Rightarrow> Inr (if accept rec then results @ [rec] else results))"

text \<open>An index entry whose key ends in the coin id after \<open>lo\<close> bytes.\<close>

definition push_indexed ::
  "externals \<Rightarrow> 's storage_ops \<Rightarrow> 's coin_store \<Rightarrow> nat \<Rightarrow> (coin_record \<Rightarrow> bool) \<Rightarrow> kv_pair \<Rightarrow> coin_record list
    \<Rightarrow> coin_store_error + coin_record list" where
  "push_indexed X B S lo accept = (\<lambda>(key, _) results.
     if length key < lo + 32 then Inr results
     else push_record X B S accept (bytes32_from (slice lo (lo + 32) key)) results)"

definition scan_records_into ::
  "externals \<Rightarrow> 's storage_ops \<Rightarrow> 's coin_store \<Rightarrow> string \<Rightarrow> bytes \<Rightarrow> nat \<Rightarrow> (coin_record \<Rightarrow> bool) \<Rightarrow> coin_record list
    \<Rightarrow> coin_store_error + coin_record list" where
  "scan_records_into X B S cf p lo accept results =
     (case lift_storage (kv_prefix_scan B (backend S) cf p) of
        Inl e \<Rightarrow> Inl e
      | Inr entries \<Rightarrow> try_fold (push_indexed X B S lo accept) entries results)"

section \<open>Records\<close>

definition get_coin_records ::
  "externals \<Rightarrow> 's storage_ops \<Rightarrow> 's coin_store \<Rightarrow> coin_id list \<Rightarrow> coin_store_error + coin_record list" where
  "get_coin_records X B S coin_ids = try_fold (push_record X B S (\<lambda>_. True)) coin_ids []"

definition get_coin_records_by_puzzle_hash ::
  "externals \<Rightarrow> 's storage_ops \<Rightarrow> 's coin_store \<Rightarrow> bool \<Rightarrow> bytes32 \<Rightarrow> u64 \<Rightarrow> u64
    \<Rightarrow> coin_store_error + coin_record list" where
  "get_coin_records_by_puzzle_hash X B S include_spent puzzle_hash start_height end_height =
     scan_records_into X B S CF_COIN_BY_PUZZLE_HASH (as_ref puzzle_hash) 32
       (record_filter include_spent start_height end_height) []"

definition get_coin_records_by_puzzle_hashes ::
  "externals \<Rightarrow> 's storage_ops \<Rightarrow> 's coin_store \<Rightarrow> bool \<Rightarrow> bytes32 list \<Rightarrow> u64 \<Rightarrow> u64
    \<Rightarrow> coin_store_error + coin_record list" where
  "get_coin_records_by_puzzle_hashes X B S include_spent puzzle_hashes start_height end_height =
     try_fold (\<lambda>ph results.
         case get_coin_records_by_puzzle_hash X B S include_spent ph start_height end_height of
           Inl e \<Rightarrow> Inl e
         | Inr batch \<Rightarrow> Inr (results @ batch))
       puzzle_hashes []"

definition get_coins_added_at_height ::
  "externals \<Rightarrow> 's storage_ops \<Rightarrow> 's coin_store \<Rightarrow> u64 \<Rightarrow> coin_store_error + coin_record list" where
  "get_coins_added_at_height X B S h =
     scan_records_into X B S CF_COIN_BY_CONFIRMED_HEIGHT (u64_to_be_bytes h) 8 (\<lambda>_. True) []"

definition get_coins_removed_at_height ::
  "externals \<Rightarrow> 's storage_ops \<Rightarrow> 's coin_store \<Rightarrow> u64 \<Rightarrow> coin_store_error + coin_record list" where
  "get_coins_removed_at_height X B S h =
     (if h = 0 then Inr []
      else scan_records_into X B S CF_COIN_BY_SPENT_HEIGHT (u64_to_be_bytes h) 8 (\<lambda>_. True) [])"

definition get_coin_records_by_parent_ids ::
  "externals \<Rightarrow> 's storage_ops \<Rightarrow> 's coin_store \<Rightarrow> bool \<Rightarrow> coin_id list \<Rightarrow> u64 \<Rightarrow> u64
    \<Rightarrow> coin_store_error + coin_record list" where
  "get_coin_records_by_parent_ids X B S include_spent parent_ids start_height end_height =
     try_fold (\<lambda>parent_id. scan_records_into X B S CF_COIN_BY_PARENT (as_ref parent_id) 32
                 (record_filter include_spent start_height end_height))
       parent_ids []"

definition get_coin_records_by_names ::
  "externals \<Rightarrow> 's storage_ops \<Rightarrow> 's coin_store \<Rightarrow> bool \<Rightarrow> coin_id list \<Rightarrow> u64 \<Rightarrow> u64
    \<Rightarrow> coin_store_error + coin_record list" where
  "get_coin_records_by_names X B S include_spent names start_height end_height =
     try_fold (push_record X B S (record_filter include_spent start_height end_height)) names []"

section \<open>Coin states\<close>

definition get_coin_states_by_ids ::
  "externals \<Rightarrow> 's storage_ops \<Rightarrow> 's coin_store \<Rightarrow> bool \<Rightarrow> coin_id list \<Rightarrow> u64 \<Rightarrow> u64 \<Rightarrow> nat
    \<Rightarrow> coin_store_error + coin_state list" where
  "get_coin_states_by_ids X B S include_spent coin_ids min_height max_height max_items =
     try_fold (\<lambda>coin_id results.
         if length results \<ge> max_items then Inr results
         else case get_coin_record X B S coin_id of
             Inl e \<Rightarrow> Inl e
           | Inr None \<Rightarrow> Inr results
           | Inr (Some rec) \<Rightarrow>
               Inr (if record_filter include_spent min_height max_height rec
                    then results @ [to_coin_state rec] else results))
       coin_ids []"

definition get_coin_states_by_puzzle_hashes ::
  "externals \<Rightarrow> 's storage_ops \<Rightarrow> 's coin_store \<Rightarrow> bool \<Rightarrow> bytes32 list \<Rightarrow> u64 \<Rightarrow> nat
    \<Rightarrow> coin_store_error + coin_state list" where
  "get_coin_states_by_puzzle_hashes X B S include_spent puzzle_hashes min_height max_items =
     try_fold (\<lambda>ph results.
         if length results \<ge> max_items then Inr results
         else case get_coin_records_by_puzzle_hash X B S include_spent ph min_height (- 1) of
             Inl e \<Rightarrow> Inl e
           | Inr recs \<Rightarrow>
               Inr (fold (\<lambda>rec results. if length results \<ge> max_items then results
                                       else results @ [to_coin_state rec]) recs results))
       puzzle_hashes []"

section \<open>Aggregates\<close>

definition fold_unspent_rows ::
  "externals \<Rightarrow> 's storage_ops \<Rightarrow> 's coin_store \<Rightarrow> (coin_record \<Rightarrow> 'acc \<Rightarrow> 'acc) \<Rightarrow> 'acc
    \<Rightarrow> coin_store_error + 'acc" where
  "fold_unspent_rows X B S f acc =
     (case lift_storage (kv_prefix_scan B (backend S) CF_COIN_RECORDS []) of
        Inl e \<Rightarrow> Inl e
      | Inr entries \<Rightarrow>
          Inr (fold (\<lambda>(_, val) acc.
                 case decode_coin_record_bytes X val of
                   None \<Rightarrow> acc
                 | Some rec \<Rightarrow> if \<not> is_spent rec then f rec acc else acc)
               entries acc))"

definition num_unspent ::
  "externals \<Rightarrow> 's storage_ops \<Rightarrow> 's coin_store \<Rightarrow> coin_store_error + u64" where
  "num_unspent X B S = fold_unspent_rows X B S (\<lambda>_ count. count + 1) 0"

definition total_unspent_value ::
  "externals \<Rightarrow> 's storage_ops \<Rightarrow> 's coin_store \<Rightarrow> coin_store_error + 128 word" where
  "total_unspent_value X B S = fold_unspent_rows X B S (\<lambda>rec total. total + ucast (amount (cr_coin rec))) 0"

definition aggregate_unspent_by_puzzle_hash ::
  "externals \<Rightarrow> 's storage_ops \<Rightarrow> 's coin_store \<Rightarrow> coin_store_error + (bytes32, u64 \<times> nat) hash_map" where
  "aggregate_unspent_by_puzzle_hash X B S =
     fold_unspent_rows X B S (\<lambda>rec agg.
         let ph = coin_puzzle_hash (cr_coin rec);
             (total, count) = (case map_of agg ph of None \<Rightarrow> (0, 0) | Some entry \<Rightarrow> entry)
         in hm_insert ph (total + amount (cr_coin rec), count + 1) agg) []"

definition num_total :: "'s storage_ops \<Rightarrow> 's coin_store \<Rightarrow> coin_store_error + u64" where
  "num_total B S =
     (case lift_storage (kv_prefix_scan B (backend S) CF_COIN_RECORDS []) of
        Inl e \<Rightarrow> Inl e
      | Inr entries \<Rightarrow> Inr (of_nat (length entries)))"

section \<open>Pagination\<close>

definition MAX_PUZZLE_HASH_BATCH_SIZE :: nat where "MAX_PUZZLE_HASH_BATCH_SIZE = 990"

definition add_candidate ::
  "externals \<Rightarrow> 's storage_ops \<Rightarrow> 's coin_store \<Rightarrow> kv_pair \<Rightarrow> coin_id set \<times> coin_record list
    \<Rightarrow> coin_store_error + coin_id set \<times> coin_record list" where
  "add_candidate X B S = (\<lambda>(key, _) (seen, candidates).
     if length key < 64 then Inr (seen, candidates)
     else
       let coin_id = bytes32_from (slice 32 64 key)
       in if coin_id \<in> seen then Inr (seen, candidates)
          else case get_coin_record X B S coin_id of
              Inl e \<Rightarrow> Inl e
            | Inr None \<Rightarrow> Inr (insert coin_id seen, candidates)
            | Inr (Some rec) \<Rightarrow> Inr (insert coin_id seen, candidates @ [rec]))"

definition add_candidates ::
  "externals \<Rightarrow> 's storage_ops \<Rightarrow> 's coin_store \<Rightarrow> string \<Rightarrow> bytes32 \<Rightarrow> coin_id set \<times> coin_record list
    \<Rightarrow> coin_store_error + coin_id set \<times> coin_record list" where
  "add_candidates X B S cf ph acc =
     (case lift_storage (kv_prefix_scan B (backend S) cf (as_ref ph)) of
        Inl e \<Rightarrow> Inl e
      | Inr entries \<Rightarrow> try_fold (add_candidate X B S) entries acc)"

definition state_filter :: "coin_state_filters \<Rightarrow> u64 \<Rightarrow> coin_record \<Rightarrow> bool" where
  "state_filter filters min_height rec \<longleftrightarrow>
     \<not> (is_spent rec \<and> \<not> csf_include_spent filters)
     \<and> \<not> (\<not> is_spent rec \<and> \<not> csf_include_unspent filters)
     \<and> \<not> confirmed_height rec < min_height
     \<and> \<not> amount (cr_coin rec) < csf_min_amount filters"

definition event_height :: "coin_record \<Rightarrow> u64" where
  "event_height rec = max (confirmed_height rec) (case spent_height rec of None \<Rightarrow> 0 | Some h \<Rightarrow> h)"

text \<open>The loop that moves \<open>end\<close> back to the last record below the overflow height.\<close>

fun page_end :: "coin_record list \<Rightarrow> u64 \<Rightarrow> nat \<Rightarrow> nat" where
  "page_end candidates overflow_height 0 = 0"
| "page_end candidates overflow_height (Suc n) =
     (if event_height (candidates ! n) < overflow_height then Suc n else page_end candidates overflow_height n)"

definition batch_candidates ::
  "externals \<Rightarrow> 's storage_ops \<Rightarrow> 's coin_store \<Rightarrow> bytes32 list \<Rightarrow> u64 \<Rightarrow> coin_state_filters
    \<Rightarrow> coin_store_error + coin_record list" where
  "batch_candidates X B S puzzle_hashes min_height filters =
     (case try_fold (add_candidates X B S CF_COIN_BY_PUZZLE_HASH) puzzle_hashes ({}, []) of
        Inl e \<Rightarrow> Inl e
      | Inr acc \<Rightarrow>
          (case (if csf_include_hinted filters
                 then try_fold (add_candidates X B S CF_HINTS_BY_VALUE) puzzle_hashes acc else Inr acc) of
             Inl e \<Rightarrow> Inl e
           | Inr (_, candidates) \<Rightarrow>
               Inr (sort_key (\<lambda>rec. (event_height rec, record_coin_id X rec))
                      (filter (state_filter filters min_height) candidates))))"

definition batch_page :: "coin_record list \<Rightarrow> nat \<Rightarrow> coin_record list \<times> u64 option" where
  "batch_page candidates max_items =
     (if length candidates \<le> max_items then (candidates, None)
      else
        let overflow_height = event_height (candidates ! max_items)
        in (take (page_end candidates overflow_height max_items) candidates, Some overflow_height))"

definition batch_coin_states_by_puzzle_hashes ::
  "externals \<Rightarrow> 's storage_ops \<Rightarrow> 's coin_store \<Rightarrow> bytes32 list \<Rightarrow> u64 \<Rightarrow> coin_state_filters \<Rightarrow> nat
    \<Rightarrow> coin_store_error + coin_state list \<times> u64 option" where
  "batch_coin_states_by_puzzle_hashes X B S puzzle_hashes min_height filters max_items =
     (if length puzzle_hashes > MAX_PUZZLE_HASH_BATCH_SIZE
      then Inl (PuzzleHashBatchTooLarge (length puzzle_hashes) MAX_PUZZLE_HASH_BATCH_SIZE)
      else case batch_candidates X B S puzzle_hashes min_height filters of
          Inl e \<Rightarrow> Inl e
        | Inr candidates \<Rightarrow>
            let (page, next) = batch_page candidates max_items
            in Inr (map to_coin_state page, next))"

section \<open>Lineage\<close>

definition get_unspent_lineage_info_for_puzzle_hash ::
  "externals \<Rightarrow> 's storage_ops \<Rightarrow> 's coin_store \<Rightarrow> bytes32 \<Rightarrow> coin_store_error + unspent_lineage_info option" where
  "get_unspent_lineage_info_for_puzzle_hash X B S puzzle_hash =
     (case lift_storage (kv_prefix_scan B (backend S) CF_UNSPENT_BY_PUZZLE_HASH (as_ref puzzle_hash)) of
        Inl e \<Rightarrow> Inl e
      | Inr entries \<Rightarrow>
          if length entries \<noteq> 1 then Inr None
          else
            let key = fst (entries ! 0)
            in if length key < 64 then Inr None
               else
                 let coin_id = bytes32_from (slice 32 64 key)
                 in case get_coin_record X B S coin_id of
                      Inl e \<Rightarrow> Inl e
                    | Inr None \<Rightarrow> Inr None
                    | Inr (Some rec) \<Rightarrow>
                        let parent_id = parent_coin_info (cr_coin rec)
                        in case get_coin_record X B S parent_id of
                             Inl e \<Rightarrow> Inl e
                           | Inr parent \<Rightarrow>
                               Inr (Some \<lparr>li_coin_id = coin_id, li_parent_id = parent_id,
                                 li_parent_parent_id =
                                   (case parent of None \<Rightarrow> 0 | Some p \<Rightarrow> parent_coin_info (cr_coin p))\<rparr>))"

end
