(* ===== verification/Query_Props.thy ===== *)
theory Query_Props
  imports Queries
begin

text \<open>
  What the queries return on a store that represents a table: scans of an index list the coins of
  one key in id order, the loops filter their records, aggregates fold over the unspent rows.
\<close>

section \<open>Index scans\<close>

definition ids_where :: "(coin_record \<Rightarrow> bool) \<Rightarrow> coin_table \<Rightarrow> coin_id list" where
  "ids_where P tbl = sorted_list_of_set {i. \<exists>r. tbl i = Some r \<and> P r}"

lemma set_ids_where: "finite (dom tbl) \<Longrightarrow> set (ids_where P tbl) = {i. \<exists>r. tbl i = Some r \<and> P r}"
  by (simp add: ids_where_def finite_subset [of _ "dom tbl"] subset_iff domIff)

lemma sorted_ids_where [simp]: "sorted_wrt (<) (ids_where P tbl)"
  by (simp add: ids_where_def strict_sorted_list_of_set)

lemma ids_at_where: "ids_at hf tbl h = ids_where (\<lambda>r. hf r = Some h) tbl"
  by (simp add: ids_at_def ids_where_def)

lemma scan_keyed_index:
  assumes "index_is m tbl P (\<lambda>i r. as_ref (g r) @ as_ref i) val" "finite (dom tbl)"
  shows "scan_entries m (as_ref p) =
    map (\<lambda>i. (as_ref p @ as_ref i, val i (the (tbl i)))) (ids_where (\<lambda>r. P r \<and> g r = p) tbl)"
proof (rule sym, rule scan_entries_eqI)
  let ?es = "map (\<lambda>i. (as_ref p @ as_ref i, val i (the (tbl i)))) (ids_where (\<lambda>r. P r \<and> g r = p) tbl)"
  have keys: "map fst ?es = map (\<lambda>i. as_ref p @ as_ref i) (ids_where (\<lambda>r. P r \<and> g r = p) tbl)"
    by (simp add: comp_def)
  have "sorted_wrt (<) (map (\<lambda>i. as_ref p @ as_ref i) (ids_where (\<lambda>r. P r \<and> g r = p) tbl))"
    unfolding sorted_wrt_map by (simp add: append_less_iff as_ref_less)
  then show "sorted (map fst ?es)" "distinct (map fst ?es)"
    by (simp_all only: keys strict_sorted_iff)
  have "m k = Some v \<and> prefix (as_ref p) k \<longleftrightarrow>
      (\<exists>i r. tbl i = Some r \<and> P r \<and> g r = p \<and> k = as_ref p @ as_ref i \<and> v = val i r)" for k v
    using assms(1) by (auto simp: index_is_def index_entry_def split: option.splits)
  then show "set ?es = {(k, v). m k = Some v \<and> prefix (as_ref p) k}"
    by (auto simp: set_ids_where [OF assms(2)] image_iff)
qed

section \<open>Loops over records\<close>

definition records_of :: "coin_table \<Rightarrow> coin_id list \<Rightarrow> coin_record list" where
  "records_of tbl is = map (\<lambda>i. the (tbl i)) (filter (\<lambda>i. tbl i \<noteq> None) is)"

lemma records_of_simps [simp]:
  "records_of tbl [] = []"
  "records_of tbl (i # is) = (case tbl i of None \<Rightarrow> records_of tbl is | Some r \<Rightarrow> r # records_of tbl is)"
  by (auto simp: records_of_def split: option.splits)

lemma records_of_append [simp]: "records_of tbl (is @ js) = records_of tbl is @ records_of tbl js"
  by (simp add: records_of_def)

lemma filter_records_of:
  "finite (dom tbl) \<Longrightarrow> filter Q (records_of tbl (ids_where P tbl)) = map (\<lambda>i. the (tbl i)) (ids_where (\<lambda>r. P r \<and> Q r) tbl)"
proof -
  assume fin: "finite (dom tbl)"
  have "filter (\<lambda>i. tbl i \<noteq> None \<and> Q (the (tbl i))) (ids_where P tbl) = ids_where (\<lambda>r. P r \<and> Q r) tbl"
  proof (rule sorted_distinct_set_unique)
    have s: "sorted_wrt (<) (filter (\<lambda>i. tbl i \<noteq> None \<and> Q (the (tbl i))) (ids_where P tbl))"
      by (rule sorted_wrt_filter) simp
    then show "sorted (filter (\<lambda>i. tbl i \<noteq> None \<and> Q (the (tbl i))) (ids_where P tbl))"
      "distinct (filter (\<lambda>i. tbl i \<noteq> None \<and> Q (the (tbl i))) (ids_where P tbl))"
      by (simp_all only: strict_sorted_iff)
    show "sorted (ids_where (\<lambda>r. P r \<and> Q r) tbl)" "distinct (ids_where (\<lambda>r. P r \<and> Q r) tbl)"
      by (simp_all add: ids_where_def)
    show "set (filter (\<lambda>i. tbl i \<noteq> None \<and> Q (the (tbl i))) (ids_where P tbl)) = set (ids_where (\<lambda>r. P r \<and> Q r) tbl)"
      using set_ids_where [OF fin] by auto
  qed
  moreover have "filter Q (records_of tbl (ids_where P tbl)) =
      map (\<lambda>i. the (tbl i)) (filter (\<lambda>i. tbl i \<noteq> None \<and> Q (the (tbl i))) (ids_where P tbl))"
    by (simp add: records_of_def filter_map comp_def conj_commute)
  ultimately show ?thesis by simp
qed

lemma records_of_where: "finite (dom tbl) \<Longrightarrow> records_of tbl (ids_where P tbl) = map (\<lambda>i. the (tbl i)) (ids_where P tbl)"
  using filter_records_of [of tbl "\<lambda>_. True" P] by simp

context reliable_backend
begin

lemma push_records:
  assumes "\<And>i. get_coin_record X B S i = Inr (tbl i)"
  shows "try_fold (push_record X B S accept) is rs = Inr (rs @ filter accept (records_of tbl is))"
  by (induction "is" arbitrary: rs) (auto simp: push_record_def assms split: option.splits)

lemma push_indexed_entries:
  assumes "\<And>i. get_coin_record X B S i = Inr (tbl i)" "length p = lo"
  shows "try_fold (push_indexed X B S lo accept) (map (\<lambda>i. (p @ as_ref i, v i)) is) rs
    = Inr (rs @ filter accept (records_of tbl is))"
proof -
  have "push_indexed X B S lo accept (p @ as_ref i, v i) = push_record X B S accept i" for i
    using assms(2) by (auto simp: fun_eq_iff push_indexed_def slice_def)
  then show ?thesis using push_records [OF assms(1)] by (simp add: try_fold_map)
qed

lemma scan_into:
  assumes "\<And>i. get_coin_record X B S i = Inr (tbl i)" "ok (backend S)" "cf \<in> set ALL_COLUMN_FAMILIES" "prefix_ok p"
    and "scan_entries (view (backend S) cf) p = map (\<lambda>i. (p @ as_ref i, v i)) is" "length p = lo"
  shows "scan_records_into X B S cf p lo accept rs = Inr (rs @ filter accept (records_of tbl is))"
  using assms push_indexed_entries [OF assms(1,6)] by (simp add: scan_records_into_def scan_eq)

end

section \<open>Queries by index\<close>

definition records_where :: "(coin_record \<Rightarrow> bool) \<Rightarrow> coin_table \<Rightarrow> coin_record list" where
  "records_where P tbl = map (\<lambda>i. the (tbl i)) (ids_where P tbl)"

lemma set_records_where: "finite (dom tbl) \<Longrightarrow> set (records_where P tbl) = {r \<in> ran tbl. P r}"
  by (force simp: records_where_def set_ids_where ran_def)

context reliable_backend
begin

lemma represented:
  assumes "bincode_ok X" "store_ok X view ok S tbl Hs"
  shows "\<And>i. get_coin_record X B S i = Inr (tbl i)" "finite (dom tbl)" "ok (backend S)"
    "disk_ok X (view (backend S)) tbl" "hints_ok (view (backend S)) Hs" "table_ok X (height S) tbl"
proof -
  show "ok (backend S)" "disk_ok X (view (backend S)) tbl" "hints_ok (view (backend S)) Hs" "table_ok X (height S) tbl"
    using assms(2) by (simp_all add: store_ok_def)
  then show "get_coin_record X B S i = Inr (tbl i)" "finite (dom tbl)" for i
    using read_record [OF assms(1)] finite_table view_finite by blast+
qed

lemma by_puzzle_hash:
  assumes "bincode_ok X" "store_ok X view ok S tbl Hs"
  shows "get_coin_records_by_puzzle_hash X B S inc ph s e =
    Inr (records_where (\<lambda>r. coin_puzzle_hash (cr_coin r) = ph \<and> record_filter inc s e r) tbl)"
proof -
  note rep = represented [OF assms]
  have "index_is (view (backend S) CF_COIN_BY_PUZZLE_HASH) tbl (\<lambda>_. True)
      (\<lambda>i r. as_ref (coin_puzzle_hash (cr_coin r)) @ as_ref i) (\<lambda>i _. as_ref i)"
    using rep(4) by (simp add: disk_ok_def ph_key_def [abs_def] puzzle_hash_coin_key_def)
  from scan_into [OF rep(1,3) _ _ scan_keyed_index [OF this rep(2)]]
  show ?thesis
    by (simp add: get_coin_records_by_puzzle_hash_def filter_records_of [OF rep(2)] records_where_def)
qed

lemma by_parent:
  assumes "bincode_ok X" "store_ok X view ok S tbl Hs"
  shows "get_coin_records_by_parent_ids X B S inc ps s e =
    Inr (concat (map (\<lambda>p. records_where (\<lambda>r. parent_coin_info (cr_coin r) = p \<and> record_filter inc s e r) tbl) ps))"
proof -
  note rep = represented [OF assms]
  let ?rs = "\<lambda>p. records_where (\<lambda>r. parent_coin_info (cr_coin r) = p \<and> record_filter inc s e r) tbl"
  have "index_is (view (backend S) CF_COIN_BY_PARENT) tbl (\<lambda>_. True)
      (\<lambda>i r. as_ref (parent_coin_info (cr_coin r)) @ as_ref i) (\<lambda>i _. as_ref i)"
    using rep(4) by (simp add: disk_ok_def parent_key_def [abs_def] parent_coin_key_def)
  from scan_into [OF rep(1,3) _ _ scan_keyed_index [OF this rep(2)]]
  have "scan_records_into X B S CF_COIN_BY_PARENT (as_ref p) 32 (record_filter inc s e) rs = Inr (rs @ ?rs p)" for p rs
    by (simp add: filter_records_of [OF rep(2)] records_where_def)
  then have "try_fold (\<lambda>p. scan_records_into X B S CF_COIN_BY_PARENT (as_ref p) 32 (record_filter inc s e)) ps rs
      = Inr (rs @ concat (map ?rs ps))" for rs
    by (induction ps arbitrary: rs) auto
  then show ?thesis by (simp add: get_coin_records_by_parent_ids_def)
qed

lemma by_height:
  assumes "bincode_ok X" "store_ok X view ok S tbl Hs"
  shows "get_coins_added_at_height X B S h = Inr (records_where (\<lambda>r. confirmed_height r = h) tbl)"
    "get_coins_removed_at_height X B S h = Inr (records_where (\<lambda>r. spent_height r = Some h) tbl)"
proof -
  note rep = represented [OF assms]
  have added: "index_is (view (backend S) CF_COIN_BY_CONFIRMED_HEIGHT) tbl (\<lambda>r. Some (confirmed_height r) \<noteq> None)
      (\<lambda>i r. height_coin_key (the (Some (confirmed_height r))) i) (\<lambda>i _. as_ref i)"
    using rep(4) by (simp add: disk_ok_def confirmed_key_def [abs_def])
  have removed: "index_is (view (backend S) CF_COIN_BY_SPENT_HEIGHT) tbl (\<lambda>r. spent_height r \<noteq> None)
      (\<lambda>i r. height_coin_key (the (spent_height r)) i) (\<lambda>i _. as_ref i)"
    using rep(4) by (simp add: disk_ok_def spent_key_def [abs_def])
  note scans = scan_height_index [OF added rep(2), unfolded height_coin_key_def]
    scan_height_index [OF removed rep(2), unfolded height_coin_key_def]
  show "get_coins_added_at_height X B S h = Inr (records_where (\<lambda>r. confirmed_height r = h) tbl)"
    using scan_into [OF rep(1,3) _ _ scans(1)]
    by (simp add: get_coins_added_at_height_def ids_at_where records_of_where [OF rep(2)] records_where_def)
  have "spent_height r \<noteq> Some 0" if "tbl i = Some r" for i r
    using rep(6) that unfolding table_ok_def by fastforce
  then have "set (ids_where (\<lambda>r. spent_height r = Some 0) tbl) = {}"
    unfolding set_ids_where [OF rep(2)] by blast
  then have "records_where (\<lambda>r. spent_height r = Some 0) tbl = []" by (simp add: records_where_def)
  then show "get_coins_removed_at_height X B S h = Inr (records_where (\<lambda>r. spent_height r = Some h) tbl)"
    using scan_into [OF rep(1,3) _ _ scans(2)]
    by (simp add: get_coins_removed_at_height_def ids_at_where records_of_where [OF rep(2)] records_where_def)
qed

end

text \<open>The records whose key is one of several, key by key.\<close>

definition records_by :: "(coin_record \<Rightarrow> 'k) \<Rightarrow> (coin_record \<Rightarrow> bool) \<Rightarrow> coin_table \<Rightarrow> 'k list \<Rightarrow> coin_record list" where
  "records_by key P tbl ks = concat (map (\<lambda>k. records_where (\<lambda>r. key r = k \<and> P r) tbl) ks)"

lemma distinct_records_where:
  assumes "finite (dom tbl)" "table_ok X h tbl"
  shows "distinct (records_where P tbl)"
proof -
  have "distinct (ids_where P tbl)" by (simp add: ids_where_def)
  moreover have "inj_on (\<lambda>i. the (tbl i)) (set (ids_where P tbl))"
  proof (rule inj_onI)
    fix i j
    assume "i \<in> set (ids_where P tbl)" "j \<in> set (ids_where P tbl)" "the (tbl i) = the (tbl j)"
    then obtain r where "tbl i = Some r" "tbl j = Some r" using set_ids_where [OF assms(1)] by force
    then show "i = j" using table_ok_id [OF assms(2)] by blast
  qed
  ultimately show ?thesis by (simp add: records_where_def distinct_map)
qed

lemma count_distinct: "distinct xs \<Longrightarrow> count_list xs x = (if x \<in> set xs then 1 else 0)"
  by (induction xs) auto

lemma count_records_by:
  assumes "finite (dom tbl)" "table_ok X h tbl"
  shows "count_list (records_by key P tbl ks) r = (if r \<in> ran tbl \<and> P r then count_list ks (key r) else 0)"
proof (induction ks)
  case Nil
  then show ?case by (simp add: records_by_def)
next
  case (Cons k ks)
  have "count_list (records_where (\<lambda>r. key r = k \<and> P r) tbl) r = (if r \<in> ran tbl \<and> key r = k \<and> P r then 1 else 0)"
    unfolding count_distinct [OF distinct_records_where [OF assms]] set_records_where [OF assms(1)] by simp
  with Cons show ?case by (simp add: records_by_def)
qed

text \<open>
  C25. Index queries. On a store that represents a table, the queries by puzzle hash, by parents and by
  height return exactly the records of the table that match (the first two filtered by spent state
  and confirmation height), in the order of the requested keys and for each key in that of the coin ids. No
  record is spent at height 0, so the special case of that height loses nothing. A record comes once for every
  occurrence of its key in the request: once when the keys differ, but a puzzle hash that is listed twice gives
  its records twice, where the requirement QRY-002 asks for no duplicates.
\<close>

theorem index_queries_exact:
  assumes "reliable_backend B view ok" "bincode_ok X" "store_ok X view ok S tbl Hs"
  shows "get_coin_records_by_puzzle_hashes X B S inc phs s e =
      Inr (records_by (\<lambda>r. coin_puzzle_hash (cr_coin r)) (record_filter inc s e) tbl phs)
    \<and> get_coin_records_by_parent_ids X B S inc ps s e =
      Inr (records_by (\<lambda>r. parent_coin_info (cr_coin r)) (record_filter inc s e) tbl ps)
    \<and> get_coins_added_at_height X B S h = Inr (records_where (\<lambda>r. confirmed_height r = h) tbl)
    \<and> get_coins_removed_at_height X B S h = Inr (records_where (\<lambda>r. spent_height r = Some h) tbl)
    \<and> set (records_where P tbl) = {r \<in> ran tbl. P r} \<and> distinct (records_where P tbl)
    \<and> count_list (records_by key P tbl ks) r = (if r \<in> ran tbl \<and> P r then count_list ks (key r) else 0)"
proof -
  note rep = reliable_backend.represented [OF assms]
  let ?rs = "\<lambda>ph. records_where (\<lambda>r. coin_puzzle_hash (cr_coin r) = ph \<and> record_filter inc s e r) tbl"
  have "try_fold (\<lambda>ph results. case get_coin_records_by_puzzle_hash X B S inc ph s e of
           Inl e \<Rightarrow> Inl e
         | Inr batch \<Rightarrow> Inr (results @ batch)) phs rs = Inr (rs @ concat (map ?rs phs))" for rs
    by (induction phs arbitrary: rs) (simp_all add: reliable_backend.by_puzzle_hash [OF assms])
  then have "get_coin_records_by_puzzle_hashes X B S inc phs s e = Inr (concat (map ?rs phs))"
    by (simp add: get_coin_records_by_puzzle_hashes_def)
  then have "get_coin_records_by_puzzle_hashes X B S inc phs s e =
      Inr (records_by (\<lambda>r. coin_puzzle_hash (cr_coin r)) (record_filter inc s e) tbl phs)" by (simp only: records_by_def)
  moreover have "get_coin_records_by_parent_ids X B S inc ps s e =
      Inr (records_by (\<lambda>r. parent_coin_info (cr_coin r)) (record_filter inc s e) tbl ps)"
    unfolding reliable_backend.by_parent [OF assms] records_by_def ..
  ultimately show ?thesis
    using reliable_backend.by_height [OF assms] set_records_where [OF rep(2)]
      distinct_records_where [OF rep(2,6)] count_records_by [OF rep(2,6)] by blast
qed

theorem index_queries_exact_witness:
  "\<exists>S rs r. get_coin_records_by_puzzle_hashes sample_externals (rocks_backend mem_rocks) S True
       [coin_puzzle_hash (sample_coin 7), coin_puzzle_hash (sample_coin 7)] 0 0 = Inr rs
     \<and> count_list rs r = 2"
proof (rule sample_chain)
  fix S
  let ?tbl = "genesis_table sample_externals 5 sample_coins" and ?r = "coin_record_new (sample_coin 7) 0 5 False"
  let ?phs = "[coin_puzzle_hash (sample_coin 7), coin_puzzle_hash (sample_coin 7)]"
  assume S: "store_ok sample_externals (rocks_view mem_rocks mem_tab) mem_ok S ?tbl {}"
  have "?tbl 10 = Some ?r"
    by (simp add: genesis_table_def genesis_records_def sample_coins_def record_map_def)
  then have "?r \<in> ran ?tbl" "record_filter True 0 0 ?r" by (auto simp: ran_def record_filter_def)
  note all = index_queries_exact [OF mem_rocks.rocks.reliable_backend_axioms, OF bincode_ok_sample S, where inc = True
      and phs = ?phs and s = 0 and e = 0 and P = "record_filter True 0 0" and key = "\<lambda>r. coin_puzzle_hash (cr_coin r)"
      and ks = ?phs and r = ?r]
  let ?rs = "records_by (\<lambda>r. coin_puzzle_hash (cr_coin r)) (record_filter True 0 0) ?tbl ?phs"
  have "count_list ?rs ?r = 2" using all \<open>?r \<in> ran ?tbl\<close> \<open>record_filter True 0 0 ?r\<close> by (simp add: coin_record_new_def)
  with all show ?thesis by blast
qed

section \<open>Queries by id\<close>

lemma capped_step:
  "(if length (map f (take n xs)) \<ge> n then map f (take n xs) else map f (take n xs) @ [f r])
     = map f (take n (xs @ [r]))"
  by (cases "n \<le> length xs") (auto simp: take_Cons' min_def)

lemma capped_fold:
  "fold (\<lambda>r results. if length results \<ge> n then results else results @ [f r]) rs (map f (take n xs))
     = map f (take n (xs @ rs))"
proof (induction rs arbitrary: xs)
  case Nil
  then show ?case by simp
next
  case (Cons r rs)
  show ?case using Cons [of "xs @ [r]"] by (simp only: fold_simps comp_apply capped_step) simp
qed

context reliable_backend
begin

lemma states_by_ids:
  assumes "\<And>i. get_coin_record X B S i = Inr (tbl i)"
  shows "get_coin_states_by_ids X B S inc is s e n =
    Inr (map to_coin_state (take n (filter (record_filter inc s e) (records_of tbl is))))"
proof -
  let ?f = "\<lambda>coin_id results. if length results \<ge> n then Inr results
      else case get_coin_record X B S coin_id of
          Inl e \<Rightarrow> Inl e
        | Inr None \<Rightarrow> Inr results
        | Inr (Some rec) \<Rightarrow> Inr (if record_filter inc s e rec then results @ [to_coin_state rec] else results)"
  have "try_fold ?f is (map to_coin_state (take n xs)) =
      Inr (map to_coin_state (take n (xs @ filter (record_filter inc s e) (records_of tbl is))))" for xs
  proof (induction "is" arbitrary: xs)
    case Nil
    then show ?case by simp
  next
    case (Cons i "is")
    have step: "?f i (map to_coin_state (take n xs)) =
        Inr (map to_coin_state (take n (xs @ filter (record_filter inc s e) (records_of tbl [i]))))"
      using capped_step [where f = to_coin_state and n = n and xs = xs] by (cases "tbl i") (auto simp: assms)
    have "records_of tbl (i # is) = records_of tbl [i] @ records_of tbl is" by (simp split: option.splits)
    then show ?case
      using Cons [of "xs @ filter (record_filter inc s e) (records_of tbl [i])"]
      by (simp only: try_fold.simps step sum.case filter_append append_assoc)
  qed
  from this [of "[]"] show ?thesis by (simp add: get_coin_states_by_ids_def)
qed

lemma states_by_puzzle_hashes:
  assumes "bincode_ok X" "store_ok X view ok S tbl Hs"
  shows "get_coin_states_by_puzzle_hashes X B S inc phs s n =
    Inr (map to_coin_state (take n (concat (map (\<lambda>ph.
      records_where (\<lambda>r. coin_puzzle_hash (cr_coin r) = ph \<and> record_filter inc s (- 1) r) tbl) phs))))"
proof -
  let ?rs = "\<lambda>ph. records_where (\<lambda>r. coin_puzzle_hash (cr_coin r) = ph \<and> record_filter inc s (- 1) r) tbl"
  let ?f = "\<lambda>ph results. if length results \<ge> n then Inr results
      else case get_coin_records_by_puzzle_hash X B S inc ph s (- 1) of
          Inl e \<Rightarrow> Inl e
        | Inr recs \<Rightarrow> Inr (fold (\<lambda>rec results. if length results \<ge> n then results
                                       else results @ [to_coin_state rec]) recs results)"
  have step: "?f ph (map to_coin_state (take n xs)) = Inr (map to_coin_state (take n (xs @ ?rs ph)))" for ph xs
    using capped_fold [where n = n and f = to_coin_state and xs = xs and rs = "?rs ph"] by (auto simp: by_puzzle_hash [OF assms])
  have "try_fold ?f phs (map to_coin_state (take n xs)) =
      Inr (map to_coin_state (take n (xs @ concat (map ?rs phs))))" for xs
  proof (induction phs arbitrary: xs)
    case Nil
    then show ?case by simp
  next
    case (Cons ph phs)
    show ?case using Cons [of "xs @ ?rs ph"] by (simp only: try_fold.simps step sum.case) simp
  qed
  from this [of "[]"] show ?thesis by (simp add: get_coin_states_by_puzzle_hashes_def)
qed

end

text \<open>
  C26. Lookups by id. The queries by coin ids return the known records in the order asked, once per
  occurrence of an id, unknown ids skipped; the filtered ones keep the records that pass, and the coin
  state queries return the states of the first \<open>max_items\<close> of them.
\<close>

theorem id_queries_exact:
  assumes "reliable_backend B view ok" "bincode_ok X" "store_ok X view ok S tbl Hs"
  shows "get_coin_records X B S is = Inr (records_of tbl is)
    \<and> get_coin_records_by_names X B S inc is s e = Inr (filter (record_filter inc s e) (records_of tbl is))
    \<and> get_coin_states_by_ids X B S inc is s e n =
        Inr (map to_coin_state (take n (filter (record_filter inc s e) (records_of tbl is))))
    \<and> get_coin_states_by_puzzle_hashes X B S inc phs s n =
        Inr (map to_coin_state (take n (concat (map (\<lambda>ph.
          records_where (\<lambda>r. coin_puzzle_hash (cr_coin r) = ph \<and> record_filter inc s (- 1) r) tbl) phs))))"
  using reliable_backend.push_records [OF assms(1) reliable_backend.represented(1) [OF assms]]
    reliable_backend.states_by_ids [OF assms(1) reliable_backend.represented(1) [OF assms]]
    reliable_backend.states_by_puzzle_hashes [OF assms]
  by (simp add: get_coin_records_def get_coin_records_by_names_def)

theorem id_queries_exact_witness:
  "\<exists>S. get_coin_records sample_externals (rocks_backend mem_rocks) S [10, 12, 10] =
     Inr [coin_record_new (sample_coin 7) 0 5 False, coin_record_new (sample_coin 7) 0 5 False]"
proof (rule sample_chain)
  fix S
  assume S: "store_ok sample_externals (rocks_view mem_rocks mem_tab) mem_ok S (genesis_table sample_externals 5 sample_coins) {}"
  show ?thesis
    using id_queries_exact [OF mem_rocks.rocks.reliable_backend_axioms, OF bincode_ok_sample S, of "[10, 12, 10]",
        THEN conjunct1]
    by (auto simp: genesis_table_def genesis_records_def sample_coins_def record_map_def)
qed

section \<open>Aggregates\<close>

definition unspent_records :: "coin_table \<Rightarrow> coin_record list" where
  "unspent_records tbl = records_where (\<lambda>r. \<not> is_spent r) tbl"

lemma length_unspent_records:
  assumes "finite (dom tbl)"
  shows "length (unspent_records tbl) = card (unspent_of tbl)"
proof -
  have "finite {i. \<exists>r. tbl i = Some r \<and> \<not> is_spent r}" by (rule finite_subset [OF _ assms]) auto
  then show ?thesis
    by (simp add: unspent_records_def records_where_def ids_where_def unspent_of_def is_spent_def)
qed

lemma fold_rows:
  assumes "\<forall>(i, r) \<in> set rows. decode_coin_record_bytes X (row X r) = Some r"
  shows "fold (\<lambda>(_, val) acc. case decode_coin_record_bytes X val of
        None \<Rightarrow> acc | Some rec \<Rightarrow> if \<not> is_spent rec then f rec acc else acc)
      (map (\<lambda>(i, r). (coin_key i, row X r)) rows) acc
    = fold f (filter (\<lambda>r. \<not> is_spent r) (map snd rows)) acc"
  using assms by (induction rows arbitrary: acc) (auto split: prod.splits)

lemma table_rows_unspent:
  assumes "finite (dom tbl)"
  shows "filter (\<lambda>r. \<not> is_spent r) (map snd (table_rows tbl)) = unspent_records tbl"
proof -
  have "ids_where (\<lambda>_. True) tbl = sorted_list_of_set (dom tbl)" by (simp add: ids_where_def dom_def)
  then have "map snd (table_rows tbl) = records_of tbl (ids_where (\<lambda>_. True) tbl)"
    using records_of_where [OF assms, of "\<lambda>_. True"] by (simp add: table_rows_def comp_def)
  then show ?thesis using filter_records_of [OF assms] by (simp add: unspent_records_def records_where_def)
qed

lemma fold_count: "fold (\<lambda>_ n. n + 1) rs n = n + (of_nat (length rs) :: u64)"
  by (induction rs arbitrary: n) (simp_all add: algebra_simps)

lemma fold_total: "fold (\<lambda>r n. n + f r) rs n = n + sum_list (map f rs)" for n :: "'a :: comm_monoid_add"
  by (induction rs arbitrary: n) (simp_all add: algebra_simps)

lemma total_no_wrap:
  assumes "length rs \<le> 2 ^ 64"
  shows "unat (sum_list (map (\<lambda>r. ucast (amount (cr_coin r))) rs) :: 128 word)
    = sum_list (map (\<lambda>r. unat (amount (cr_coin r))) rs)"
proof -
  have bound: "sum_list (map (\<lambda>r. unat (amount (cr_coin r))) qs) \<le> length qs * (2 ^ 64 - 1)" for qs
  proof (induction qs)
    case Nil
    then show ?case by simp
  next
    case (Cons r qs)
    have "unat (amount (cr_coin r)) \<le> 2 ^ 64 - 1" using unsigned_less [of "amount (cr_coin r)", where ?'a = nat] by simp
    with Cons show ?case by simp
  qed
  have eq: "(sum_list (map (\<lambda>r. ucast (amount (cr_coin r))) qs) :: 128 word)
      = of_nat (sum_list (map (\<lambda>r. unat (amount (cr_coin r))) qs))" for qs
    by (induction qs) simp_all
  have "length rs * (2 ^ 64 - 1) \<le> 2 ^ 64 * (2 ^ 64 - 1 :: nat)" using assms by (rule mult_le_mono1)
  then have "sum_list (map (\<lambda>r. unat (amount (cr_coin r))) rs) < 2 ^ 128" using bound [of rs] by simp
  then show ?thesis by (simp add: eq unat_of_nat)
qed

lemma fold_aggregate:
  "map_of (fold (\<lambda>rec agg. let ph = coin_puzzle_hash (cr_coin rec);
        (total, count) = (case map_of agg ph of None \<Rightarrow> (0, 0) | Some entry \<Rightarrow> entry)
      in hm_insert ph (total + amount (cr_coin rec), count + 1) agg) rs agg) ph
   = (let qs = filter (\<lambda>r. coin_puzzle_hash (cr_coin r) = ph) rs;
          (total, count) = (case map_of agg ph of None \<Rightarrow> (0, 0) | Some entry \<Rightarrow> entry)
      in if qs = [] then map_of agg ph else Some (total + sum_list (map (\<lambda>r. amount (cr_coin r)) qs), count + length qs))"
proof (induction rs arbitrary: agg)
  case Nil
  then show ?case by (auto simp: Let_def split: option.splits prod.splits)
next
  case (Cons r rs)
  then show ?case
    by (cases "coin_puzzle_hash (cr_coin r) = ph"; cases "map_of agg (coin_puzzle_hash (cr_coin r))")
      (auto simp: Let_def algebra_simps split: prod.splits option.splits if_splits)
qed

context reliable_backend
begin

lemma fold_unspent_eq:
  assumes "bincode_ok X" "store_ok X view ok S tbl Hs"
  shows "fold_unspent_rows X B S f acc = Inr (fold f (unspent_records tbl) acc)"
proof -
  note rep = represented [OF assms]
  have "\<forall>(i, r) \<in> set (table_rows tbl). decode_coin_record_bytes X (row X r) = Some r"
    using set_table_rows [OF rep(2)] decode_row [OF assms(1) table_ok_row [OF rep(6)]] by blast
  from fold_rows [OF this] show ?thesis
    by (simp add: fold_unspent_rows_def read_rows [OF rep(3,4)] table_rows_unspent [OF rep(2)])
qed

end

text \<open>
  C30. Aggregates. On a store that represents a table, \<open>num_unspent\<close> is the number of unspent coins and
  \<open>num_total\<close> that of all coins, both modulo \<open>2 ^ 64\<close>; the 128-bit total value is the exact sum of the
  unspent amounts for up to \<open>2 ^ 64\<close> unspent coins; the aggregation by puzzle hash has an entry for
  exactly the puzzle hashes with unspent coins, their number and the sum of their amounts modulo
  \<open>2 ^ 64\<close>.
\<close>

theorem aggregates_exact:
  assumes "reliable_backend B view ok" "bincode_ok X" "store_ok X view ok S tbl Hs"
  shows "num_unspent X B S = Inr (of_nat (card (unspent_ids S)))
    \<and> num_total B S = Inr (of_nat (card (dom tbl)))
    \<and> (\<exists>total. total_unspent_value X B S = Inr total \<and>
         (card (unspent_ids S) \<le> 2 ^ 64 \<longrightarrow>
            unat total = (\<Sum>i \<in> unspent_ids S. unat (amount (cr_coin (the (tbl i)))))))
    \<and> (\<exists>agg. aggregate_unspent_by_puzzle_hash X B S = Inr agg \<and>
         (\<forall>ph. map_of agg ph =
            (let qs = filter (\<lambda>r. coin_puzzle_hash (cr_coin r) = ph) (unspent_records tbl)
             in if qs = [] then None else Some (sum_list (map (\<lambda>r. amount (cr_coin r)) qs), length qs))))"
proof -
  note rep = reliable_backend.represented [OF assms]
  note fold = reliable_backend.fold_unspent_eq [OF assms]
  have ids: "unspent_ids S = unspent_of tbl" using assms(3) by (simp add: store_ok_def)
  have len: "length (unspent_records tbl) = card (unspent_ids S)"
    using length_unspent_records [OF rep(2)] ids by simp
  have "num_unspent X B S = Inr (of_nat (card (unspent_ids S)))"
    unfolding num_unspent_def fold fold_count by (simp add: len)
  moreover have "num_total B S = Inr (of_nat (card (dom tbl)))"
    using reliable_backend.read_rows [OF assms(1) rep(3,4)] rep(2) by (simp add: num_total_def table_rows_def)
  moreover have "sum_list (map (\<lambda>r. unat (amount (cr_coin r))) (unspent_records tbl))
      = (\<Sum>i \<in> unspent_ids S. unat (amount (cr_coin (the (tbl i)))))"
  proof -
    have "set (ids_where (\<lambda>r. \<not> is_spent r) tbl) = unspent_ids S"
      using set_ids_where [OF rep(2)] ids by (simp add: unspent_of_def is_spent_def)
    moreover have "distinct (ids_where (\<lambda>r. \<not> is_spent r) tbl)" by (simp add: ids_where_def)
    ultimately show ?thesis
      by (simp add: unspent_records_def records_where_def comp_def sum_list_distinct_conv_sum_set)
  qed
  then have "\<exists>total. total_unspent_value X B S = Inr total \<and> (card (unspent_ids S) \<le> 2 ^ 64 \<longrightarrow>
      unat total = (\<Sum>i \<in> unspent_ids S. unat (amount (cr_coin (the (tbl i))))))"
    unfolding total_unspent_value_def fold fold_total using total_no_wrap [of "unspent_records tbl"] len by simp
  moreover have "\<exists>agg. aggregate_unspent_by_puzzle_hash X B S = Inr agg \<and> (\<forall>ph. map_of agg ph =
      (let qs = filter (\<lambda>r. coin_puzzle_hash (cr_coin r) = ph) (unspent_records tbl)
       in if qs = [] then None else Some (sum_list (map (\<lambda>r. amount (cr_coin r)) qs), length qs)))"
    unfolding aggregate_unspent_by_puzzle_hash_def fold
    using fold_aggregate [where rs = "unspent_records tbl" and agg = "[]"]
    by (simp add: Let_def)
  ultimately show ?thesis by blast
qed

theorem aggregates_exact_witness:
  "\<exists>S. num_unspent sample_externals (rocks_backend mem_rocks) S = Inr 1
     \<and> total_unspent_value sample_externals (rocks_backend mem_rocks) S = Inr 7"
proof (rule sample_chain)
  fix S
  assume S: "store_ok sample_externals (rocks_view mem_rocks mem_tab) mem_ok S (genesis_table sample_externals 5 sample_coins) {}"
  have "unspent_ids S = {10}"
    using S unspent_of_genesis [of sample_externals 5 sample_coins] by (simp add: store_ok_def sample_coins_def)
  moreover have "amount (cr_coin (the (genesis_table sample_externals 5 sample_coins 10))) = 7"
    by (simp add: genesis_table_def genesis_records_def sample_coins_def record_map_def)
      (simp add: coin_record_new_def sample_coin_def)
  moreover have "total = 7" if "unat total = 7" for total :: "128 word" 
    using arg_cong [OF that, of "of_nat :: nat \<Rightarrow> 128 word"] by simp
  ultimately show ?thesis
    using aggregates_exact [OF mem_rocks.rocks.reliable_backend_axioms, OF bincode_ok_sample S] by auto
qed

end
