(* ===== verification/Pagination.thy ===== *)
theory Pagination
  imports Query_Props
begin

text \<open>
  The paginated query of coin states and the lineage query. The candidates are a duplicate-free
  sorted list of the matching records; a page is cut where the height of its successor begins.
\<close>

section \<open>Candidates\<close>

text \<open>The ids that the keys of at least 64 bytes carry.\<close>

definition entry_ids :: "kv_pair list \<Rightarrow> coin_id list" where
  "entry_ids es = map (\<lambda>(k, _). bytes32_from (slice 32 64 k)) (filter (\<lambda>(k, _). \<not> length k < 64) es)"

definition candidates_ok :: "coin_table \<Rightarrow> coin_id set \<times> coin_record list \<Rightarrow> bool" where
  "candidates_ok tbl = (\<lambda>(seen, cs). distinct cs \<and> set cs = {r. \<exists>i \<in> seen. tbl i = Some r})"

lemma entry_ids_Cons:
  "entry_ids ((k, v) # es) = (if length k < 64 then entry_ids es else bytes32_from (slice 32 64 k) # entry_ids es)"
  by (simp add: entry_ids_def)

lemma add_candidate_entries:
  assumes "\<And>i. get_coin_record X B S i = Inr (tbl i)" "table_ok X h tbl" "candidates_ok tbl (seen, cs)"
  shows "\<exists>cs'. try_fold (add_candidate X B S) es (seen, cs) = Inr (seen \<union> set (entry_ids es), cs')
    \<and> candidates_ok tbl (seen \<union> set (entry_ids es), cs')"
  using assms(3)
proof (induction es arbitrary: seen cs)
  case Nil
  then show ?case by (auto simp: entry_ids_def)
next
  case (Cons e es)
  obtain k v where e: "e = (k, v)" by fastforce
  let ?i = "bytes32_from (slice 32 64 k)"
  show ?case
  proof (cases "length k < 64 \<or> ?i \<in> seen")
    case True
    then have "add_candidate X B S e (seen, cs) = Inr (seen, cs)" by (auto simp: add_candidate_def e)
    moreover have "seen \<union> set (entry_ids (e # es)) = seen \<union> set (entry_ids es)"
      using True by (auto simp: e entry_ids_Cons)
    ultimately show ?thesis using Cons.IH [OF Cons.prems] by simp
  next
    case False
    let ?cs = "case tbl ?i of None \<Rightarrow> cs | Some r \<Rightarrow> cs @ [r]"
    have "add_candidate X B S e (seen, cs) = Inr (insert ?i seen, ?cs)"
      using False by (auto simp: add_candidate_def e assms(1) split: option.splits)
    moreover have "candidates_ok tbl (insert ?i seen, ?cs)"
    proof (cases "tbl ?i")
      case None
      then show ?thesis using Cons.prems by (auto simp: candidates_ok_def)
    next
      case (Some r)
      then have "r \<notin> set cs"
        using Cons.prems False table_ok_id [OF assms(2)] by (simp add: candidates_ok_def) metis
      then show ?thesis using Cons.prems Some by (auto simp: candidates_ok_def)
    qed
    moreover have "seen \<union> set (entry_ids (e # es)) = insert ?i seen \<union> set (entry_ids es)"
      using False by (auto simp: e entry_ids_Cons)
    ultimately show ?thesis using Cons.IH [of "insert ?i seen" ?cs] by simp
  qed
qed

context reliable_backend
begin

lemma add_candidates_all:
  assumes "\<And>i. get_coin_record X B S i = Inr (tbl i)" "table_ok X h tbl" "ok (backend S)" "cf \<in> set ALL_COLUMN_FAMILIES"
    and "\<And>ph. set (entry_ids (scan_entries (view (backend S) cf) (as_ref ph))) = ids ph"
    and "candidates_ok tbl (seen, cs)"
  shows "\<exists>cs'. try_fold (add_candidates X B S cf) phs (seen, cs) = Inr (seen \<union> (\<Union>ph \<in> set phs. ids ph), cs')
    \<and> candidates_ok tbl (seen \<union> (\<Union>ph \<in> set phs. ids ph), cs')"
  using assms(6)
proof (induction phs arbitrary: seen cs)
  case Nil
  then show ?case by simp
next
  case (Cons ph phs)
  obtain cs1 where cs1: "add_candidates X B S cf ph (seen, cs) = Inr (seen \<union> ids ph, cs1)"
    "candidates_ok tbl (seen \<union> ids ph, cs1)"
    using add_candidate_entries [OF assms(1,2) Cons.prems, of "scan_entries (view (backend S) cf) (as_ref ph)"] assms(3-5)
    by (auto simp: add_candidates_def scan_eq)
  then show ?case using Cons.IH [OF cs1(2)] by (simp add: Un_assoc)
qed

lemma ph_entry_ids:
  assumes "disk_ok X (view (backend S)) tbl" "finite (dom tbl)"
  shows "set (entry_ids (scan_entries (view (backend S) CF_COIN_BY_PUZZLE_HASH) (as_ref ph)))
    = {i. \<exists>r. tbl i = Some r \<and> coin_puzzle_hash (cr_coin r) = ph}"
proof -
  have "index_is (view (backend S) CF_COIN_BY_PUZZLE_HASH) tbl (\<lambda>_. True)
      (\<lambda>i r. as_ref (coin_puzzle_hash (cr_coin r)) @ as_ref i) (\<lambda>i _. as_ref i)"
    using assms(1) by (simp add: disk_ok_def ph_key_def [abs_def] puzzle_hash_coin_key_def)
  note scan = scan_keyed_index [OF this assms(2), of ph]
  have "entry_ids (map (\<lambda>i. (as_ref ph @ as_ref i, v i)) is) = is" for v :: "coin_id \<Rightarrow> bytes" and "is"
    by (induction "is") (simp_all add: entry_ids_def slice_def)
  then show ?thesis unfolding scan by (simp add: set_ids_where [OF assms(2)])
qed

lemma hint_entry_ids:
  assumes "hints_ok (view (backend S)) Hs" "ok (backend S)"
  shows "set (entry_ids (scan_entries (view (backend S) CF_HINTS_BY_VALUE) (as_ref ph))) = {i. (i, as_ref ph) \<in> Hs}"
proof -
  have mem: "(k, v) \<in> set (scan_entries (view (backend S) CF_HINTS_BY_VALUE) (as_ref ph)) \<and> \<not> length k < 64 \<longleftrightarrow>
      v = [] \<and> (\<exists>i. (i, as_ref ph) \<in> Hs \<and> k = as_ref ph @ as_ref i)" (is "?L \<longleftrightarrow> ?R") for k v
  proof
    assume ?L
    then obtain i h where h: "v = []" "(i, h) \<in> Hs" "k = h @ as_ref i" "prefix (as_ref ph) k" "64 \<le> length k"
      using assms(1) set_scan_entries [OF view_finite [OF assms(2)]] by (auto simp: hints_ok_def)
    moreover have "length h = 32" using assms(1) h(2,3,5) by (auto simp: hints_ok_def)
    ultimately show ?R by (auto simp: prefix_def append_eq_append_conv)
  next
    assume ?R
    then show ?L
      using assms(1) set_scan_entries [OF view_finite [OF assms(2)]] by (fastforce simp: hints_ok_def)
  qed
  have "set (entry_ids es) = {bytes32_from (slice 32 64 k) | k v. (k, v) \<in> set es \<and> \<not> length k < 64}" for es
    by (force simp: entry_ids_def)
  then have "set (entry_ids (scan_entries (view (backend S) CF_HINTS_BY_VALUE) (as_ref ph)))
      = {bytes32_from (slice 32 64 k) | k v. v = ([] :: bytes) \<and> (\<exists>i. (i, as_ref ph) \<in> Hs \<and> k = as_ref ph @ as_ref i)}"
    by (simp only: mem)
  also have "\<dots> = {i. (i, as_ref ph) \<in> Hs}" by (auto simp: slice_def) force
  finally show ?thesis .
qed

end

section \<open>Pages\<close>

lemma page_end_le: "page_end cs h n \<le> n"
  by (induction n) auto

lemma page_end_before: "0 < page_end cs h n \<Longrightarrow> event_height (cs ! (page_end cs h n - 1)) < h"
  by (induction n) auto

lemma page_end_after: "page_end cs h n \<le> j \<Longrightarrow> j < n \<Longrightarrow> h \<le> event_height (cs ! j)"
  by (induction n) (auto simp: less_Suc_eq not_less split: if_splits)

lemma page_is_filter:
  assumes "sorted (map event_height cs)" "n < length cs" "h = event_height (cs ! n)"
  shows "take (page_end cs h n) cs = filter (\<lambda>r. event_height r < h) cs"
proof -
  let ?m = "page_end cs h n"
  have mono: "event_height (cs ! i) \<le> event_height (cs ! j)" if "i \<le> j" "j < length cs" for i j
    using sorted_nth_mono [OF assms(1), of i j] that by simp
  have "event_height r < h" if r: "r \<in> set (take ?m cs)" for r
  proof -
    obtain i where i: "i < ?m" "r = cs ! i" using r by (auto simp: in_set_conv_nth)
    then have "event_height r \<le> event_height (cs ! (?m - 1))"
      using mono [of i "?m - 1"] page_end_le [of cs h n] assms(2) by simp
    also have "\<dots> < h" using page_end_before i(1) by (metis gr_zeroI not_less_zero)
    finally show ?thesis .
  qed
  moreover have "\<not> event_height r < h" if r: "r \<in> set (drop ?m cs)" for r
  proof -
    obtain j where j: "?m \<le> j" "j < length cs" "r = cs ! j"
      using r by (auto simp: in_set_conv_nth) (metis add.commute le_add2 less_diff_conv)
    then show ?thesis
      using page_end_after [of cs h n j] mono [of n j] assms(3) by (cases "j < n") (auto simp: not_less)
  qed
  ultimately have "filter (\<lambda>r. event_height r < h) (take ?m cs @ drop ?m cs) = take ?m cs"
    by (simp only: filter_append) simp
  then show ?thesis by simp
qed

section \<open>Properties\<close>

text \<open>The records that a paginated query is about.\<close>

definition matching :: "externals \<Rightarrow> coin_table \<Rightarrow> (coin_id \<times> bytes) set \<Rightarrow> bytes32 list \<Rightarrow> u64 \<Rightarrow> coin_state_filters
    \<Rightarrow> coin_record set" where
  "matching X tbl Hs phs min_height filters =
     {r \<in> ran tbl. state_filter filters min_height r \<and>
        (coin_puzzle_hash (cr_coin r) \<in> set phs
         \<or> csf_include_hinted filters \<and> (\<exists>ph \<in> set phs. (record_coin_id X r, as_ref ph) \<in> Hs))}"

definition page_sorted :: "externals \<Rightarrow> coin_record list \<Rightarrow> bool" where
  "page_sorted X cs \<longleftrightarrow> sorted (map (\<lambda>r. (event_height r, record_coin_id X r)) cs)"

lemma page_sorted_heights:
  assumes "page_sorted X cs"
  shows "sorted (map event_height cs)"
proof -
  have "sorted_wrt (\<lambda>r q. event_height r \<le> event_height q) cs"
    using assms unfolding page_sorted_def sorted_map by (rule sorted_wrt_mono_rel [rotated]) auto
  then show ?thesis by (simp add: sorted_map)
qed

context reliable_backend
begin

lemma candidates_exact:
  assumes "bincode_ok X" "store_ok X view ok S tbl Hs"
  obtains cs where "batch_candidates X B S phs m f = Inr cs" "set cs = matching X tbl Hs phs m f" "distinct cs"
    "page_sorted X cs"
proof -
  note rep = represented [OF assms]
  let ?ids = "\<lambda>ph. {i. \<exists>r. tbl i = Some r \<and> coin_puzzle_hash (cr_coin r) = ph}"
  let ?hinted = "\<lambda>ph. {i. (i, as_ref ph) \<in> Hs}"
  have start: "candidates_ok tbl ({}, [])" by (simp add: candidates_ok_def)
  obtain cs1 where cs1: "try_fold (add_candidates X B S CF_COIN_BY_PUZZLE_HASH) phs ({}, []) = Inr (\<Union> (?ids ` set phs), cs1)"
    "candidates_ok tbl (\<Union> (?ids ` set phs), cs1)"
    using add_candidates_all [OF rep(1,6,3) _ ph_entry_ids [OF rep(4,2)] start, of phs] by auto
  let ?seen = "\<Union> (?ids ` set phs) \<union> (if csf_include_hinted f then \<Union> (?hinted ` set phs) else {})"
  obtain cs2 where cs2: "(if csf_include_hinted f
      then try_fold (add_candidates X B S CF_HINTS_BY_VALUE) phs (\<Union> (?ids ` set phs), cs1)
      else Inr (\<Union> (?ids ` set phs), cs1)) = Inr (?seen, cs2)" "candidates_ok tbl (?seen, cs2)"
    using add_candidates_all [OF rep(1,6,3) _ hint_entry_ids [OF rep(5,3)] cs1(2), of phs] cs1(2)
    by (cases "csf_include_hinted f") auto
  let ?cs = "sort_key (\<lambda>rec. (event_height rec, record_coin_id X rec)) (filter (state_filter f m) cs2)"
  have "batch_candidates X B S phs m f = Inr ?cs"
    unfolding batch_candidates_def cs1(1) by (simp only: sum.case cs2(1) prod.case)
  moreover have "set ?cs = matching X tbl Hs phs m f"
  proof -
    have "i = record_coin_id X r" if "tbl i = Some r" for i r using table_ok_id [OF rep(6) that] by simp
    then have "(\<exists>i \<in> ?seen. tbl i = Some r) \<longleftrightarrow> r \<in> ran tbl \<and> (coin_puzzle_hash (cr_coin r) \<in> set phs
         \<or> csf_include_hinted f \<and> (\<exists>ph \<in> set phs. (record_coin_id X r, as_ref ph) \<in> Hs))" for r
      unfolding ran_def by (cases "csf_include_hinted f") fastforce+
    then show ?thesis using cs2(2) by (auto simp: candidates_ok_def matching_def)
  qed
  moreover have "distinct ?cs" using cs2(2) by (simp add: candidates_ok_def)
  ultimately show thesis using that [of ?cs] by (simp add: page_sorted_def)
qed

end

text \<open>
  C27. Paginated coin states. More than 990 puzzle hashes are refused. Otherwise there is a list of the
  matching records (by puzzle hash or, if asked, by a 32-byte hint, and passing the filters), each
  once, sorted by the height of their last event and then by coin id, such that the query returns the
  states of all of them and no continuation when they fit, and otherwise exactly the states of those
  whose last event is below the height of record number \<open>max_items\<close>, at most \<open>max_items\<close> of them, with
  that height as continuation: no height is split over two pages.
\<close>

theorem batch_pages_exact:
  assumes "reliable_backend B view ok" "bincode_ok X" "store_ok X view ok S tbl Hs"
  shows "if 990 < length phs then
      batch_coin_states_by_puzzle_hashes X B S phs m f n = Inl (PuzzleHashBatchTooLarge (length phs) 990)
    else \<exists>cs. set cs = matching X tbl Hs phs m f \<and> distinct cs \<and> page_sorted X cs
      \<and> (if length cs \<le> n then batch_coin_states_by_puzzle_hashes X B S phs m f n = Inr (map to_coin_state cs, None)
         else let h = event_height (cs ! n); page = filter (\<lambda>r. event_height r < h) cs
              in batch_coin_states_by_puzzle_hashes X B S phs m f n = Inr (map to_coin_state page, Some h)
                 \<and> length page \<le> n)"
proof (cases "990 < length phs")
  case True
  then show ?thesis by (simp add: batch_coin_states_by_puzzle_hashes_def MAX_PUZZLE_HASH_BATCH_SIZE_def)
next
  case False
  obtain cs where cs: "batch_candidates X B S phs m f = Inr cs" "set cs = matching X tbl Hs phs m f" "distinct cs"
    "page_sorted X cs" using reliable_backend.candidates_exact [OF assms] by metis
  have page: "batch_coin_states_by_puzzle_hashes X B S phs m f n =
      (let (page, next_h) = batch_page cs n in Inr (map to_coin_state page, next_h))"
    using False cs(1) by (simp add: batch_coin_states_by_puzzle_hashes_def MAX_PUZZLE_HASH_BATCH_SIZE_def)
  show ?thesis
  proof (cases "length cs \<le> n")
    case True
    then show ?thesis using page cs False by (auto simp: batch_page_def intro!: exI [of _ cs])
  next
    case over: False
    let ?h = "event_height (cs ! n)"
    have take: "take (page_end cs ?h n) cs = filter (\<lambda>r. event_height r < ?h) cs"
      using page_is_filter [OF page_sorted_heights [OF cs(4)]] over by simp
    moreover have "length (take (page_end cs ?h n) cs) \<le> n" using page_end_le [of cs ?h n] by simp
    ultimately show ?thesis
      using page cs False over by (auto simp: batch_page_def Let_def intro!: exI [of _ cs])
  qed
qed

definition sample_table :: coin_table where
  "sample_table = block_table sample_externals sample_block (genesis_table sample_externals 5 sample_coins)"

lemma sample_table_rows:
  "sample_table 10 = Some (spend 1 (coin_record_new (sample_coin 7) 0 5 False))"
  "sample_table 4 = Some (coin_record_new (sample_coin 1) 1 9 True)"
  "r \<in> ran sample_table \<Longrightarrow> event_height r = 1 \<and> coin_puzzle_hash (cr_coin r) = 2"
  by (auto simp: sample_table_def block_table_def sample_block_def genesis_table_def genesis_records_def
      sample_coins_def record_map_def new_records_def addition_record_def ran_def map_add_def event_height_def
      spend_def coin_record_new_def record_coin_id_def sample_externals_def sample_coin_def split: if_splits option.splits)

definition all_states :: coin_state_filters where
  "all_states = \<lparr>csf_include_spent = True, csf_include_unspent = True, csf_include_hinted = False, csf_min_amount = 0\<rparr>"

lemma sample_matching: "matching sample_externals sample_table Hs [2] 0 all_states = ran sample_table"
  using sample_table_rows(3) by (auto simp: matching_def state_filter_def all_states_def)

lemma sample_overflow:
  assumes "set cs = ran sample_table" "distinct cs"
  shows "\<not> length cs \<le> 1" "event_height (cs ! 1) = 1"
proof -
  let ?a = "spend 1 (coin_record_new (sample_coin 7) 0 5 False)" and ?b = "coin_record_new (sample_coin 1) 1 9 True"
  have "{?a, ?b} \<subseteq> set cs" using sample_table_rows(1,2) assms(1) by (auto simp: ran_def)
  then have "card {?a, ?b} \<le> length cs" by (meson List.finite_set card_length card_mono order_trans)
  moreover have "?a \<noteq> ?b" by (simp add: spend_def coin_record_new_def)
  ultimately show "\<not> length cs \<le> 1" by simp
  then show "event_height (cs ! 1) = 1" using assms(1) sample_table_rows(3) by (metis not_le nth_mem)
qed

theorem batch_pages_exact_witness:
  "\<exists>S. batch_coin_states_by_puzzle_hashes sample_externals (rocks_backend mem_rocks) S [2] 0 all_states 1
     = Inr ([], Some 1)"
proof (rule sample_applied)
  fix S
  assume "store_ok sample_externals (rocks_view mem_rocks mem_tab) mem_ok S
      (block_table sample_externals sample_block (genesis_table sample_externals 5 sample_coins))
      (block_hints sample_block)"
  then have S: "store_ok sample_externals (rocks_view mem_rocks mem_tab) mem_ok S sample_table (block_hints sample_block)"
    by (simp add: sample_table_def)
  have "\<exists>cs. set cs = ran sample_table \<and> distinct cs \<and> page_sorted sample_externals cs
      \<and> (if length cs \<le> 1 then batch_coin_states_by_puzzle_hashes sample_externals (rocks_backend mem_rocks) S [2] 0
             all_states 1 = Inr (map to_coin_state cs, None)
         else let h = event_height (cs ! 1); page = filter (\<lambda>r. event_height r < h) cs
              in batch_coin_states_by_puzzle_hashes sample_externals (rocks_backend mem_rocks) S [2] 0 all_states 1
                   = Inr (map to_coin_state page, Some h) \<and> length page \<le> 1)"
    using batch_pages_exact [OF mem_rocks.rocks.reliable_backend_axioms, OF bincode_ok_sample S, of "[2]" 0 all_states 1]
    unfolding sample_matching by simp
  then obtain cs where cs: "set cs = ran sample_table" "distinct cs"
    and page: "\<not> length cs \<le> 1 \<Longrightarrow>
      batch_coin_states_by_puzzle_hashes sample_externals (rocks_backend mem_rocks) S [2] 0 all_states 1
        = Inr (map to_coin_state (filter (\<lambda>r. event_height r < event_height (cs ! 1)) cs), Some (event_height (cs ! 1)))"
    unfolding Let_def by (auto split: if_splits)
  have "filter (\<lambda>r. event_height r < 1) cs = []" using cs(1) sample_table_rows(3) by (auto simp: filter_empty_conv)
  then show ?thesis using page sample_overflow [OF cs] by auto
qed

text \<open>
  C28. Resuming a paginated query at the height it returned loses records: a record confirmed below
  that height whose last event is not below it is on neither the page nor among the candidates of the
  resumed query, whatever the store.
\<close>

theorem batch_resume_loses:
  assumes "batch_candidates X B S phs m f = Inr cs" "batch_page cs n = (page, Some h)"
    and "batch_candidates X B S phs h f = Inr cs'"
    and "r \<in> set cs" "confirmed_height r < h" "h \<le> event_height r"
  shows "r \<notin> set page \<and> r \<notin> set cs'"
proof
  have "page_sorted X cs" using assms(1) by (auto simp: batch_candidates_def page_sorted_def split: sum.splits prod.splits)
  then show "r \<notin> set page"
    using assms(2,6) page_is_filter [OF page_sorted_heights, of X cs n h]
    by (auto simp: batch_page_def Let_def split: if_splits)
  show "r \<notin> set cs'"
    using assms(3,5) by (auto simp: batch_candidates_def state_filter_def split: sum.splits prod.splits)
qed

theorem batch_resume_loses_witness:
  "\<exists>S cs page cs'. batch_candidates sample_externals (rocks_backend mem_rocks) S [2] 0 all_states = Inr cs
     \<and> batch_page cs 1 = (page, Some 1)
     \<and> batch_candidates sample_externals (rocks_backend mem_rocks) S [2] 1 all_states = Inr cs'
     \<and> (\<exists>r \<in> set cs. r \<notin> set page \<and> r \<notin> set cs')"
proof (rule sample_applied)
  fix S
  assume "store_ok sample_externals (rocks_view mem_rocks mem_tab) mem_ok S
      (block_table sample_externals sample_block (genesis_table sample_externals 5 sample_coins))
      (block_hints sample_block)"
  then have S: "store_ok sample_externals (rocks_view mem_rocks mem_tab) mem_ok S sample_table (block_hints sample_block)"
    by (simp add: sample_table_def)
  note exact = reliable_backend.candidates_exact [OF mem_rocks.rocks.reliable_backend_axioms, OF bincode_ok_sample S]
  obtain cs where cs: "batch_candidates sample_externals (rocks_backend mem_rocks) S [2] 0 all_states = Inr cs"
    "set cs = ran sample_table" "distinct cs" using exact [of "[2]" 0 all_states] sample_matching by metis
  obtain cs' where cs': "batch_candidates sample_externals (rocks_backend mem_rocks) S [2] 1 all_states = Inr cs'"
    using exact [of "[2]" 1 all_states] by metis
  obtain page where page: "batch_page cs 1 = (page, Some 1)"
    using sample_overflow [OF cs(2,3)] by (auto simp: batch_page_def Let_def)
  let ?r = "spend 1 (coin_record_new (sample_coin 7) 0 5 False)"
  have r: "?r \<in> set cs" using cs(2) sample_table_rows(1) by (auto simp: ran_def)
  have "confirmed_height ?r < 1" "1 \<le> event_height ?r"
    by (simp_all add: coin_record_new_def event_height_def spend_def)
  from batch_resume_loses [OF cs(1) page cs' r this] r cs(1) page cs' show ?thesis by blast
qed

section \<open>Lineage\<close>

text \<open>
  Lineage. The lineage query answers exactly when one unspent coin of the table has the puzzle
  hash, with that coin's id, its parent and the parent's parent, the last one zero when the parent is
  not in the table.
\<close>

theorem lineage_exact:
  assumes "reliable_backend B view ok" "bincode_ok X" "store_ok X view ok S tbl Hs"
  shows "get_unspent_lineage_info_for_puzzle_hash X B S ph = Inr
    (case ids_where (\<lambda>r. spent_height r = None \<and> coin_puzzle_hash (cr_coin r) = ph) tbl of
       [i] \<Rightarrow> let p = parent_coin_info (cr_coin (the (tbl i)))
              in Some \<lparr>li_coin_id = i, li_parent_id = p,
                   li_parent_parent_id = (case tbl p of None \<Rightarrow> 0 | Some q \<Rightarrow> parent_coin_info (cr_coin q))\<rparr>
     | _ \<Rightarrow> None)"
proof -
  note rep = reliable_backend.represented [OF assms]
  let ?is = "ids_where (\<lambda>r. spent_height r = None \<and> coin_puzzle_hash (cr_coin r) = ph) tbl"
  have index: "index_is (view (backend S) CF_UNSPENT_BY_PUZZLE_HASH) tbl (\<lambda>r. spent_height r = None)
      (\<lambda>i r. as_ref (coin_puzzle_hash (cr_coin r)) @ as_ref i) (\<lambda>_ _. [])"
    using rep(4) by (simp add: disk_ok_def ph_key_def [abs_def] puzzle_hash_coin_key_def)
  have scan: "kv_prefix_scan B (backend S) CF_UNSPENT_BY_PUZZLE_HASH (as_ref ph) =
      Inr (map (\<lambda>i. (as_ref ph @ as_ref i, [])) ?is)"
    using scan_keyed_index [OF index rep(2), of ph] reliable_backend.scan_eq [OF assms(1) rep(3)] by simp
  have "tbl i \<noteq> None" if "?is = [i]" for i
    using set_ids_where [OF rep(2), of "\<lambda>r. spent_height r = None \<and> coin_puzzle_hash (cr_coin r) = ph"] that by auto
  then show ?thesis
    by (auto simp: get_unspent_lineage_info_for_puzzle_hash_def scan rep(1) slice_def Let_def
        split: list.splits option.splits)
qed

theorem lineage_exact_witness:
  "\<exists>S. get_unspent_lineage_info_for_puzzle_hash sample_externals (rocks_backend mem_rocks) S 2
     = Inr (Some \<lparr>li_coin_id = 10, li_parent_id = 1, li_parent_parent_id = 0\<rparr>)"
proof (rule sample_chain)
  fix S
  let ?tbl = "genesis_table sample_externals 5 sample_coins"
  assume S: "store_ok sample_externals (rocks_view mem_rocks mem_tab) mem_ok S ?tbl {}"
  have tbl: "?tbl = [10 \<mapsto> coin_record_new (sample_coin 7) 0 5 False]"
    by (simp add: genesis_table_def genesis_records_def sample_coins_def record_map_def)
  then have "{i. \<exists>r. ?tbl i = Some r \<and> spent_height r = None \<and> coin_puzzle_hash (cr_coin r) = 2} = {10}"
    by (auto simp: coin_record_new_def sample_coin_def)
  then have ids: "ids_where (\<lambda>r. spent_height r = None \<and> coin_puzzle_hash (cr_coin r) = 2) ?tbl = [10]"
    by (simp add: ids_where_def)
  show ?thesis
    using lineage_exact [OF mem_rocks.rocks.reliable_backend_axioms, OF bincode_ok_sample S, of 2]
    unfolding ids by (auto simp: tbl Let_def coin_record_new_def sample_coin_def)
qed

end
