(* ===== verification/Hints.thy ===== *)
theory Hints
  imports Pagination
begin

text \<open>
  \<open>src/src/hints.rs\<close>: validation, insertion, lookup and removal of hints. \<open>add_hint\<close> and
  \<open>remove_hints_for_coins\<close> write with single operations of the backend, so a failure half way leaves
  the writes before it in the state they return.
\<close>

section \<open>Validation\<close>

definition MAX_HINT_LENGTH :: nat where "MAX_HINT_LENGTH = 32"

datatype hint_action = HintSkip | HintStore

definition validate_hint :: "bytes \<Rightarrow> hint_error + hint_action" where
  "validate_hint hint =
     (if hint = [] then Inr HintSkip
      else if length hint > MAX_HINT_LENGTH then Inl (HintErrorTooLong (length hint) MAX_HINT_LENGTH)
      else Inr HintStore)"

section \<open>Insertion and removal\<close>

definition add_hint ::
  "'s storage_ops \<Rightarrow> coin_id \<Rightarrow> bytes \<Rightarrow> 's coin_store \<Rightarrow> (coin_store_error + unit) \<times> 's coin_store" where
  "add_hint B coin_id hint S =
     (case validate_hint hint of
        Inl e \<Rightarrow> (Inl (from_hint_error e), S)
      | Inr HintSkip \<Rightarrow> (Inr (), S)
      | Inr HintStore \<Rightarrow>
          let fwd_key = as_ref coin_id @ hint
          in case lift_storage (kv_get B (backend S) CF_HINTS fwd_key) of
               Inl e \<Rightarrow> (Inl e, S)
             | Inr (Some _) \<Rightarrow> (Inr (), S)
             | Inr None \<Rightarrow>
                 let rev_key = hint @ as_ref coin_id
                 in case lift_storage (kv_put B (backend S) CF_HINTS fwd_key []) of
                      Inl e \<Rightarrow> (Inl e, S)
                    | Inr s1 \<Rightarrow>
                        (case lift_storage (kv_put B s1 CF_HINTS_BY_VALUE rev_key []) of
                           Inl e \<Rightarrow> (Inl e, S\<lparr>backend := s1\<rparr>)
                         | Inr s2 \<Rightarrow> (Inr (), S\<lparr>backend := s2\<rparr>)))"

text \<open>A loop that may fail and keeps the state it had reached.\<close>

fun try_fold_state :: "('a \<Rightarrow> 'b \<Rightarrow> 's \<Rightarrow> ('e + 'b) \<times> 's) \<Rightarrow> 'a list \<Rightarrow> 'b \<Rightarrow> 's \<Rightarrow> ('e + 'b) \<times> 's" where
  "try_fold_state f [] acc s = (Inr acc, s)"
| "try_fold_state f (x # xs) acc s =
     (case f x acc s of
        (Inl e, s') \<Rightarrow> (Inl e, s')
      | (Inr acc', s') \<Rightarrow> try_fold_state f xs acc' s')"

definition remove_hint_entry ::
  "'s storage_ops \<Rightarrow> coin_id \<Rightarrow> kv_pair \<Rightarrow> u64 \<Rightarrow> 's \<Rightarrow> (coin_store_error + u64) \<times> 's" where
  "remove_hint_entry B coin_id = (\<lambda>(fwd_key, _) removed s.
     if length fwd_key \<le> 32 then (Inr removed, s)
     else
       let rev_key = drop 32 fwd_key @ as_ref coin_id
       in case lift_storage (kv_delete B s CF_HINTS_BY_VALUE rev_key) of
            Inl e \<Rightarrow> (Inl e, s)
          | Inr s1 \<Rightarrow>
              (case lift_storage (kv_delete B s1 CF_HINTS fwd_key) of
                 Inl e \<Rightarrow> (Inl e, s1)
               | Inr s2 \<Rightarrow> (Inr (removed + 1), s2)))"

definition remove_hints_for_coin ::
  "'s storage_ops \<Rightarrow> coin_id \<Rightarrow> u64 \<Rightarrow> 's \<Rightarrow> (coin_store_error + u64) \<times> 's" where
  "remove_hints_for_coin B coin_id removed s =
     (case lift_storage (kv_prefix_scan B s CF_HINTS (as_ref coin_id)) of
        Inl e \<Rightarrow> (Inl e, s)
      | Inr entries \<Rightarrow> try_fold_state (remove_hint_entry B coin_id) entries removed s)"

definition remove_hints_for_coins ::
  "'s storage_ops \<Rightarrow> coin_id list \<Rightarrow> 's coin_store \<Rightarrow> (coin_store_error + u64) \<times> 's coin_store" where
  "remove_hints_for_coins B coin_ids S =
     (let (result, s') = try_fold_state (remove_hints_for_coin B) coin_ids 0 (backend S)
      in (result, S\<lparr>backend := s'\<rparr>))"

section \<open>Lookup\<close>

definition push_hint_id :: "nat \<Rightarrow> kv_pair \<Rightarrow> coin_id list \<Rightarrow> coin_id list" where
  "push_hint_id max_items = (\<lambda>(key, _) result.
     if length result \<ge> max_items then result
     else if length key \<ge> 64 then result @ [bytes32_from (slice 32 64 key)] else result)"

definition get_coin_ids_by_hint ::
  "'s storage_ops \<Rightarrow> 's coin_store \<Rightarrow> bytes32 \<Rightarrow> nat \<Rightarrow> coin_store_error + coin_id list" where
  "get_coin_ids_by_hint B S hint max_items =
     (case lift_storage (kv_prefix_scan B (backend S) CF_HINTS_BY_VALUE (as_ref hint)) of
        Inl e \<Rightarrow> Inl e
      | Inr entries \<Rightarrow> Inr (fold (push_hint_id max_items) entries []))"

text \<open>The third component is set once the result is returned early.\<close>

type_synonym hint_ids_acc = "coin_id set \<times> coin_id list \<times> bool"

definition push_new_id :: "nat \<Rightarrow> coin_id \<Rightarrow> hint_ids_acc \<Rightarrow> hint_ids_acc" where
  "push_new_id max_items cid = (\<lambda>(seen, result, returned).
     if returned then (seen, result, returned)
     else if length result \<ge> max_items then (seen, result, True)
     else if cid \<in> seen then (seen, result, False)
     else (insert cid seen, result @ [cid], False))"

definition get_coin_ids_by_hints ::
  "'s storage_ops \<Rightarrow> 's coin_store \<Rightarrow> bytes32 list \<Rightarrow> nat \<Rightarrow> coin_store_error + coin_id list" where
  "get_coin_ids_by_hints B S hints max_items =
     (case try_fold (\<lambda>hint (seen, result, returned).
         if returned then Inr (seen, result, returned)
         else case get_coin_ids_by_hint B S hint max_items of
             Inl e \<Rightarrow> Inl e
           | Inr coin_ids \<Rightarrow> Inr (fold (push_new_id max_items) coin_ids (seen, result, returned)))
         hints ({}, [], False) of
        Inl e \<Rightarrow> Inl e
      | Inr (_, result, _) \<Rightarrow> Inr result)"

definition get_hints_for_coin_ids ::
  "'s storage_ops \<Rightarrow> 's coin_store \<Rightarrow> coin_id list \<Rightarrow> coin_store_error + (coin_id, bytes32 list) hash_map" where
  "get_hints_for_coin_ids B S coin_ids =
     try_fold (\<lambda>coin_id result.
         case lift_storage (kv_prefix_scan B (backend S) CF_HINTS (as_ref coin_id)) of
           Inl e \<Rightarrow> Inl e
         | Inr entries \<Rightarrow>
             let hints_for_coin = map (\<lambda>(key, _). bytes32_from (slice 32 64 key))
                                    (filter (\<lambda>(key, _). length key \<ge> 64) entries)
             in Inr (if hints_for_coin \<noteq> [] then hm_insert coin_id hints_for_coin result else result))
       coin_ids []"

definition count_hints :: "'s storage_ops \<Rightarrow> 's coin_store \<Rightarrow> coin_store_error + u64" where
  "count_hints B S =
     (case lift_storage (kv_prefix_scan B (backend S) CF_HINTS []) of
        Inl e \<Rightarrow> Inl e
      | Inr entries \<Rightarrow> Inr (of_nat (length entries)))"

definition push_exact_id :: "bytes \<Rightarrow> nat \<Rightarrow> kv_pair \<Rightarrow> coin_id list \<Rightarrow> coin_id list" where
  "push_exact_id hint max_items = (\<lambda>(key, _) result.
     if length result \<ge> max_items then result
     else if length key = length hint + 32
       then result @ [bytes32_from (slice (length hint) (length hint + 32) key)] else result)"

definition get_coin_ids_by_hint_bytes ::
  "'s storage_ops \<Rightarrow> 's coin_store \<Rightarrow> bytes \<Rightarrow> nat \<Rightarrow> coin_store_error + coin_id list" where
  "get_coin_ids_by_hint_bytes B S hint max_items =
     (case lift_storage (kv_prefix_scan B (backend S) CF_HINTS_BY_VALUE hint) of
        Inl e \<Rightarrow> Inl e
      | Inr entries \<Rightarrow> Inr (fold (push_exact_id hint max_items) entries []))"

end
