(* ===== verification/Hint_Props.thy ===== *)
theory Hint_Props
  imports Hints
begin

text \<open>
  The hint operations on a store that represents a table and a set of hints: insertion adds one
  hint, removal takes away those of the given coins, lookups list the hints in key order.
\<close>

section \<open>Writes to the hint families\<close>

lemma store_ok_hints:
  assumes "store_ok X view ok S tbl Hs" "ok s'" "\<And>cf. cf \<notin> hint_cfs \<Longrightarrow> view s' cf = view (backend S) cf"
    and "hints_ok (view s') Hs'"
  shows "store_ok X view ok (S\<lparr>backend := s'\<rparr>) tbl Hs'"
proof -
  have "cf \<notin> hint_cfs" if "cf \<in> index_cfs" for cf using that cf_classes(5) by blast
  then have "disk_ok X (view s') tbl \<longleftrightarrow> disk_ok X (view (backend S)) tbl" using assms(3) by (intro disk_ok_cong) blast
  with assms show ?thesis by (simp add: store_ok_def meta_ok_def)
qed

lemma hints_ok_add:
  assumes "hints_ok D Hs" "0 < length h" "length h \<le> 32"
  shows "hints_ok (apply_ops [Put CF_HINTS (as_ref i @ h) [], Put CF_HINTS_BY_VALUE (h @ as_ref i) []] D)
    (insert (i, h) Hs)"
  using assms by (auto simp: hints_ok_def)

lemma hints_ok_lookup: "hints_ok D Hs \<Longrightarrow> D CF_HINTS (as_ref i @ h) = (if (i, h) \<in> Hs then Some [] else None)"
proof -
  assume "hints_ok D Hs"
  then have "D CF_HINTS (as_ref i @ h) = Some v \<longleftrightarrow> v = [] \<and> (i, h) \<in> Hs" for v
    by (auto simp: hints_ok_def)
  then show ?thesis by (metis not_None_eq)
qed

lemma hint_dom:
  assumes "hints_ok D Hs"
  shows "k \<in> dom (D CF_HINTS) \<longleftrightarrow> (\<exists>i h. (i, h) \<in> Hs \<and> k = as_ref i @ h)"
    "k \<in> dom (D CF_HINTS_BY_VALUE) \<longleftrightarrow> (\<exists>i h. (i, h) \<in> Hs \<and> k = h @ as_ref i)"
proof -
  have "D CF_HINTS k = Some v \<longleftrightarrow> v = [] \<and> (\<exists>i h. (i, h) \<in> Hs \<and> k = as_ref i @ h)"
    "D CF_HINTS_BY_VALUE k = Some v \<longleftrightarrow> v = [] \<and> (\<exists>i h. (i, h) \<in> Hs \<and> k = h @ as_ref i)" for v
    using assms by (simp_all add: hints_ok_def Bex_def split_paired_Ex)
  then show "k \<in> dom (D CF_HINTS) \<longleftrightarrow> (\<exists>i h. (i, h) \<in> Hs \<and> k = as_ref i @ h)"
    "k \<in> dom (D CF_HINTS_BY_VALUE) \<longleftrightarrow> (\<exists>i h. (i, h) \<in> Hs \<and> k = h @ as_ref i)"
    by (simp_all add: dom_def)
qed

lemma hint_length: "hints_ok D Hs \<Longrightarrow> (i, h) \<in> Hs \<Longrightarrow> 0 < length h \<and> length h \<le> 32"
  by (auto simp: hints_ok_def)

lemma finite_hints:
  assumes "hints_ok D Hs" "finite (dom (D CF_HINTS))"
  shows "finite Hs"
proof -
  have "(\<lambda>(i, h). as_ref i @ h) ` Hs \<subseteq> dom (D CF_HINTS)" using hints_ok_lookup [OF assms(1)] by auto
  then have "finite ((\<lambda>(i, h). as_ref i @ h) ` Hs)" using assms(2) by (rule finite_subset)
  then show ?thesis by (rule finite_imageD) (auto simp: inj_on_def)
qed

lemma length_hint_scan:
  assumes "hints_ok D Hs" "finite (dom (D CF_HINTS))"
  shows "length (scan_entries (D CF_HINTS) (as_ref i)) = card {h. (i, h) \<in> Hs}"
proof -
  let ?es = "scan_entries (D CF_HINTS) (as_ref i)"
  have "set (map fst ?es) = (\<lambda>h. as_ref i @ h) ` {h. (i, h) \<in> Hs}"
    by (simp add: set_hint_scan [OF assms] image_image)
  then have "card (set (map fst ?es)) = card {h. (i, h) \<in> Hs}" by (simp add: card_image inj_on_def)
  then show ?thesis using distinct_card [OF distinct_scan_entries, of "D CF_HINTS" "as_ref i"] by simp
qed

lemma hint_keys:
  assumes "hints_ok D Hs" "finite (dom (D CF_HINTS))" "(k, v) \<in> set (scan_entries (D CF_HINTS) (as_ref i))"
  shows "32 < length k" "length k \<le> 64"
  using assms(1,3) unfolding set_hint_scan [OF assms(1,2)] by (auto simp: hints_ok_def)

context reliable_backend
begin

lemma put_ok:
  assumes "ok s" "cf \<in> set ALL_COLUMN_FAMILIES" "key_ok k"
  obtains s' where "kv_put B s cf k v = Inr s'" "ok s'" "view s' = apply_op (Put cf k v) (view s)"
  using put_total [OF assms] put_view [OF assms(1)] by blast

lemma delete_ok:
  assumes "ok s" "cf \<in> set ALL_COLUMN_FAMILIES" "key_ok k"
  obtains s' where "kv_delete B s cf k = Inr s'" "ok s'" "view s' = apply_op (Delete cf k) (view s)"
  using delete_total [OF assms] delete_view [OF assms(1)] by blast

lemma hint_added:
  assumes "store_ok X view ok S tbl Hs" "0 < length h" "length h \<le> 32"
  obtains S' where "add_hint B i h S = (Inr (), S')" "store_ok X view ok S' tbl (insert (i, h) Hs)"
    "S' = S\<lparr>backend := backend S'\<rparr>" "(i, h) \<in> Hs \<Longrightarrow> S' = S" "kept (view (backend S)) (view (backend S'))"
proof (cases "(i, h) \<in> Hs")
  case True
  have "ok (backend S)" "hints_ok (view (backend S)) Hs" using assms(1) by (simp_all add: store_ok_def)
  then have "add_hint B i h S = (Inr (), S)"
    using True assms(2,3) by (auto simp: add_hint_def validate_hint_def MAX_HINT_LENGTH_def get_eq hints_ok_lookup key_ok_def Let_def)
  then show thesis using that [of S] True assms(1) by (simp add: insert_absorb)
next
  case False
  have ok: "ok (backend S)" "hints_ok (view (backend S)) Hs" using assms(1) by (simp_all add: store_ok_def)
  have keys: "key_ok (as_ref i @ h)" "key_ok (h @ as_ref i)" using assms(3) by (simp_all add: key_ok_def)
  obtain s1 where s1: "kv_put B (backend S) CF_HINTS (as_ref i @ h) [] = Inr s1" "ok s1"
    "view s1 = apply_op (Put CF_HINTS (as_ref i @ h) []) (view (backend S))"
    by (rule put_ok [OF ok(1) _ keys(1), of CF_HINTS "[]"]) simp_all
  obtain s2 where s2: "kv_put B s1 CF_HINTS_BY_VALUE (h @ as_ref i) [] = Inr s2" "ok s2"
    "view s2 = apply_op (Put CF_HINTS_BY_VALUE (h @ as_ref i) []) (view s1)"
    by (rule put_ok [OF s1(2) _ keys(2), of CF_HINTS_BY_VALUE "[]"]) simp_all
  have "add_hint B i h S = (Inr (), S\<lparr>backend := s2\<rparr>)"
    using False assms(2,3) keys s1(1) s2(1) ok
    by (auto simp: add_hint_def validate_hint_def MAX_HINT_LENGTH_def get_eq hints_ok_lookup Let_def)
  moreover have "store_ok X view ok (S\<lparr>backend := s2\<rparr>) tbl (insert (i, h) Hs)"
    using hints_ok_add [OF ok(2) assms(2,3), of i] s1(3) s2(2,3)
    by (intro store_ok_hints [OF assms(1)]) (auto simp: hint_cfs_def)
  moreover have "kept (view (backend S)) (apply_ops [Put CF_HINTS (as_ref i @ h) [], Put CF_HINTS_BY_VALUE (h @ as_ref i) []] (view (backend S)))"
    using keys by (intro keptI) (simp_all add: op_ok_def op_typed_def state_cfs_def hint_cfs_def)
  then have "kept (view (backend S)) (view s2)" using s1(3) s2(3) by simp
  ultimately show thesis using that [of "S\<lparr>backend := s2\<rparr>"] False by simp
qed

lemma entries_removed:
  assumes "ok s" "\<forall>(k, v) \<in> set es. 32 < length k \<and> length k \<le> 64"
  obtains s' where "try_fold_state (remove_hint_entry B i) es n s = (Inr (n + of_nat (length es)), s')" "ok s'"
    "view s' = apply_ops (concat (map (\<lambda>(k, _). [Delete CF_HINTS_BY_VALUE (drop 32 k @ as_ref i), Delete CF_HINTS k]) es)) (view s)"
  using assms
proof (induction es arbitrary: s n thesis)
  case Nil
  then show ?case by simp
next
  case (Cons e es)
  obtain k v where e: "e = (k, v)" by fastforce
  then have len: "32 < length k" "length k \<le> 64" using Cons.prems(3) by auto
  then have keys: "key_ok (drop 32 k @ as_ref i)" "key_ok k" by (auto simp: key_ok_def)
  obtain s1 where s1: "kv_delete B s CF_HINTS_BY_VALUE (drop 32 k @ as_ref i) = Inr s1" "ok s1"
    "view s1 = apply_op (Delete CF_HINTS_BY_VALUE (drop 32 k @ as_ref i)) (view s)"
    by (rule delete_ok [OF Cons.prems(2) _ keys(1), of CF_HINTS_BY_VALUE]) simp_all
  obtain s2 where s2: "kv_delete B s1 CF_HINTS k = Inr s2" "ok s2" "view s2 = apply_op (Delete CF_HINTS k) (view s1)"
    by (rule delete_ok [OF s1(2) _ keys(2), of CF_HINTS]) simp_all
  have step: "remove_hint_entry B i e n s = (Inr (n + 1), s2)"
    using s1(1) s2(1) len by (simp add: remove_hint_entry_def e)
  obtain s' where s': "try_fold_state (remove_hint_entry B i) es (n + 1) s2 = (Inr (n + 1 + of_nat (length es)), s')" "ok s'"
    "view s' = apply_ops (concat (map (\<lambda>(k, _). [Delete CF_HINTS_BY_VALUE (drop 32 k @ as_ref i), Delete CF_HINTS k]) es)) (view s2)"
    using Cons.IH [OF _ s2(2)] Cons.prems(3) by auto
  show ?case
    by (rule Cons.prems(1) [of s']) (use s' step s1(3) s2(3) in \<open>simp_all add: e algebra_simps\<close>)
qed

lemma coin_hints_removed:
  assumes "ok s" "hints_ok (view s) Hs"
  obtains s' where "remove_hints_for_coin B i n s = (Inr (n + of_nat (card {h. (i, h) \<in> Hs})), s')" "ok s'"
    "hints_ok (view s') {(j, h) \<in> Hs. j \<noteq> i}" "\<And>cf. cf \<notin> hint_cfs \<Longrightarrow> view s' cf = view s cf" "kept (view s) (view s')"
proof -
  let ?es = "scan_entries (view s CF_HINTS) (as_ref i)"
  have fin: "finite (dom (view s CF_HINTS))" by (rule view_finite [OF assms(1)])
  have "\<forall>(k, v) \<in> set ?es. 32 < length k \<and> length k \<le> 64" using hint_keys [OF assms(2) fin, of _ _ i] by blast
  from entries_removed [OF assms(1) this, of i n]
  obtain s' where s': "try_fold_state (remove_hint_entry B i) ?es n s = (Inr (n + of_nat (length ?es)), s')" "ok s'"
    "view s' = apply_ops (hint_delete_ops (view s) i) (view s)" unfolding hint_delete_ops_def by blast
  have "hints_ok (view s') {(j, h) \<in> Hs. j \<noteq> i}"
    using hints_ok_deletes [OF assms(2) fin, of "[i]"] s'(3) by simp
  moreover have "view s' cf = view s cf" if "cf \<notin> hint_cfs" for cf
    using apply_ops_outside [OF rollback_cfs(3) [OF assms(2) fin] that] s'(3) by simp
  moreover have "remove_hints_for_coin B i n s = (Inr (n + of_nat (card {h. (i, h) \<in> Hs})), s')"
    using s'(1) assms(1) length_hint_scan [OF assms(2) fin] by (simp add: remove_hints_for_coin_def scan_eq)
  moreover have "kept (view s) (view s')"
    unfolding s'(3) by (intro keptI state_cfsI(2) op_typed_cfs(2) rollback_cfs(3,4) [OF assms(2) fin])
  ultimately show thesis using that s'(2) by blast
qed

end

section \<open>Removal of the hints of several coins\<close>

lemma card_hints_split:
  assumes "finite Hs"
  shows "card {(j, h) \<in> Hs. j \<in> set (i # is)} = card {h. (i, h) \<in> Hs} + card {(j, h) \<in> Hs. j \<noteq> i \<and> j \<in> set is}"
proof -
  have "{(j, h) \<in> Hs. j \<in> set (i # is)} = Pair i ` {h. (i, h) \<in> Hs} \<union> {(j, h) \<in> Hs. j \<noteq> i \<and> j \<in> set is}" by auto
  moreover have "finite (Pair i ` {h. (i, h) \<in> Hs})" "finite {(j, h) \<in> Hs. j \<noteq> i \<and> j \<in> set is}"
    by (rule finite_subset [OF _ assms]; auto)+
  moreover have "card (Pair i ` {h. (i, h) \<in> Hs}) = card {h. (i, h) \<in> Hs}" by (simp add: card_image inj_on_def)
  ultimately show ?thesis by (simp add: card_Un_disjoint disjoint_iff image_iff)
qed

context reliable_backend
begin

lemma hints_removed:
  assumes "ok s" "hints_ok (view s) Hs"
  obtains s' where
    "try_fold_state (remove_hints_for_coin B) is n s = (Inr (n + of_nat (card {(j, h) \<in> Hs. j \<in> set is})), s')" "ok s'"
    "hints_ok (view s') {(j, h) \<in> Hs. j \<notin> set is}" "\<And>cf. cf \<notin> hint_cfs \<Longrightarrow> view s' cf = view s cf" "kept (view s) (view s')"
  using assms
proof (induction "is" arbitrary: s n Hs thesis)
  case Nil
  then show ?case by simp
next
  case (Cons i "is")
  let ?Hs = "{(j, h) \<in> Hs. j \<noteq> i}"
  have fin: "finite Hs" using finite_hints [OF Cons.prems(3) view_finite [OF Cons.prems(2)]] .
  obtain s1 where s1: "remove_hints_for_coin B i n s = (Inr (n + of_nat (card {h. (i, h) \<in> Hs})), s1)" "ok s1"
    "hints_ok (view s1) ?Hs" "\<And>cf. cf \<notin> hint_cfs \<Longrightarrow> view s1 cf = view s cf" "kept (view s) (view s1)"
    by (rule coin_hints_removed [OF Cons.prems(2,3), of i n]) (rule that)
  obtain s' where s': "try_fold_state (remove_hints_for_coin B) is (n + of_nat (card {h. (i, h) \<in> Hs})) s1 =
      (Inr (n + of_nat (card {h. (i, h) \<in> Hs}) + of_nat (card {(j, h) \<in> ?Hs. j \<in> set is})), s')" "ok s'"
    "hints_ok (view s') {(j, h) \<in> ?Hs. j \<notin> set is}" "\<And>cf. cf \<notin> hint_cfs \<Longrightarrow> view s' cf = view s1 cf" "kept (view s1) (view s')"
    by (rule Cons.IH [OF _ s1(2,3)]) (rule that)
  have eqs: "{(j, h) \<in> ?Hs. j \<in> set is} = {(j, h) \<in> Hs. j \<noteq> i \<and> j \<in> set is}"
    "{(j, h) \<in> ?Hs. j \<notin> set is} = {(j, h) \<in> Hs. j \<notin> set (i # is)}" by auto
  show ?case
  proof (rule Cons.prems(1) [of s'])
    show "try_fold_state (remove_hints_for_coin B) (i # is) n s =
        (Inr (n + of_nat (card {(j, h) \<in> Hs. j \<in> set (i # is)})), s')"
      using s1(1) s'(1) unfolding eqs card_hints_split [OF fin] by (simp add: algebra_simps)
    show "hints_ok (view s') {(j, h) \<in> Hs. j \<notin> set (i # is)}" using s'(3) unfolding eqs .
    show "ok s'" by (rule s'(2))
    show "kept (view s) (view s')" by (rule kept_trans [OF s1(5) s'(5)])
    show "view s' cf = view s cf" if "cf \<notin> hint_cfs" for cf using s'(4) [OF that] s1(4) [OF that] by simp
  qed
qed

end

section \<open>Lookups\<close>

definition ids_of_hint :: "(coin_id \<times> bytes) set \<Rightarrow> bytes \<Rightarrow> coin_id list" where
  "ids_of_hint Hs h = sorted_list_of_set {i. (i, h) \<in> Hs}"

lemma set_ids_of_hint:
  assumes "finite Hs"
  shows "set (ids_of_hint Hs h) = {i. (i, h) \<in> Hs}"
proof -
  have "{i. (i, h) \<in> Hs} \<subseteq> fst ` Hs" by force
  then have "finite {i. (i, h) \<in> Hs}" using assms finite_subset by blast
  then show ?thesis by (simp add: ids_of_hint_def)
qed

text \<open>A scan whose selected keys are the prefix followed by the 32 bytes of each element of a set.\<close>

lemma scan_tails:
  assumes "finite (dom m)" "finite A"
    and "\<And>k. k \<in> dom m \<and> prefix p k \<and> Q k \<longleftrightarrow> k \<in> (\<lambda>x. p @ as_ref x) ` A"
  shows "map (\<lambda>(k, _). bytes32_from (slice (length p) (length p + 32) k)) (filter (\<lambda>(k, _). Q k) (scan_entries m p))
    = sorted_list_of_set A"
proof -
  let ?es = "filter (\<lambda>(k, _). Q k) (scan_entries m p)"
  let ?id = "\<lambda>k. bytes32_from (slice (length p) (length p + 32) k)"
  have keys: "fst ` set ?es = (\<lambda>x. p @ as_ref x) ` A"
  proof -
    have "k \<in> fst ` set ?es \<longleftrightarrow> k \<in> dom m \<and> prefix p k \<and> Q k" for k
      using set_scan_entries [OF assms(1), of p] by (force simp: image_iff)
    then show ?thesis using assms(3) by blast
  qed
  have "sorted_wrt (<) (map fst (scan_entries m p))"
    using sorted_scan_entries distinct_scan_entries by (simp add: strict_sorted_iff)
  then have sorted: "sorted_wrt (\<lambda>e e'. fst e < fst e') ?es" by (simp add: sorted_wrt_map sorted_wrt_filter)
  have mono: "?id (fst e) < ?id (fst e')" if "e \<in> set ?es" "e' \<in> set ?es" "fst e < fst e'" for e e'
  proof -
    have "fst e \<in> (\<lambda>x. p @ as_ref x) ` A" "fst e' \<in> (\<lambda>x. p @ as_ref x) ` A" using that(1,2) keys by blast+
    then show ?thesis using that(3) by (auto simp: slice_def append_less_iff as_ref_less)
  qed
  have "sorted_wrt (<) (map (?id \<circ> fst) ?es)"
    unfolding sorted_wrt_map comp_apply using mono by (intro sorted_wrt_mono_rel [OF _ sorted])
  moreover have "set (map (?id \<circ> fst) ?es) = A"
    unfolding set_map image_comp [symmetric] keys by (simp add: image_image slice_def)
  ultimately have "map (?id \<circ> fst) ?es = sorted_list_of_set A"
    using assms(2) by (intro sorted_distinct_set_unique) (simp_all add: strict_sorted_iff)
  then show ?thesis by (simp add: comp_def split_def)
qed

lemma exact_entries:
  assumes "hints_ok D Hs" "finite (dom (D CF_HINTS_BY_VALUE))" "finite Hs"
  shows "map (\<lambda>(k, _). bytes32_from (slice (length p) (length p + 32) k))
      (filter (\<lambda>(k, _). length k = length p + 32) (scan_entries (D CF_HINTS_BY_VALUE) p)) = ids_of_hint Hs p"
  unfolding ids_of_hint_def
proof (rule scan_tails [OF assms(2)])
  show "finite {i. (i, p) \<in> Hs}" using set_ids_of_hint [OF assms(3), of p] by (metis List.finite_set)
  fix k
  show "k \<in> dom (D CF_HINTS_BY_VALUE) \<and> prefix p k \<and> length k = length p + 32 \<longleftrightarrow>
      k \<in> (\<lambda>x. p @ as_ref x) ` {i. (i, p) \<in> Hs}"
    unfolding hint_dom(2) [OF assms(1)] by (auto simp: prefix_def append_eq_append_conv)
qed

definition full_hints :: "(coin_id \<times> bytes) set \<Rightarrow> coin_id \<Rightarrow> bytes32 list" where
  "full_hints Hs i = sorted_list_of_set {h. (i, as_ref h) \<in> Hs}"

lemma forward_entries:
  assumes "hints_ok D Hs" "finite (dom (D CF_HINTS))" "finite Hs"
  shows "map (\<lambda>(k, _). bytes32_from (slice 32 64 k)) (filter (\<lambda>(k, _). length k \<ge> 64) (scan_entries (D CF_HINTS) (as_ref i)))
    = full_hints Hs i"
proof -
  have "finite (as_ref ` {h :: bytes32. (i, as_ref h) \<in> Hs})"
    by (rule finite_subset [of _ "snd ` Hs"]) (use assms(3) in force)+
  then have "finite {h :: bytes32. (i, as_ref h) \<in> Hs}" by (rule finite_imageD) (simp add: inj_on_def)
  moreover have "k \<in> dom (D CF_HINTS) \<and> prefix (as_ref i) k \<and> length k \<ge> 64 \<longleftrightarrow>
      k \<in> (\<lambda>h. as_ref i @ as_ref h) ` {h. (i, as_ref h) \<in> Hs}" (is "?L \<longleftrightarrow> ?R") for k
  proof
    assume ?L
    then obtain j h where j: "(j, h) \<in> Hs" "k = as_ref j @ h" "prefix (as_ref i) k" "64 \<le> length k"
      using hint_dom(1) [OF assms(1)] by blast
    then have h: "(i, h) \<in> Hs" "k = as_ref i @ h" "64 \<le> length k" by simp_all
    then have "length h = 32" using hint_length [OF assms(1) h(1)] by simp
    then have eq: "as_ref (bytes32_from h) = h" by (rule as_ref_bytes32_from)
    show ?R by (rule image_eqI [of _ _ "bytes32_from h"]) (simp_all add: eq h(1,2))
  next
    assume ?R
    then show ?L unfolding hint_dom(1) [OF assms(1)] by auto
  qed
  ultimately show ?thesis
    using scan_tails [OF assms(2), of "{h. (i, as_ref h) \<in> Hs}" "as_ref i" "\<lambda>k. length k \<ge> 64"]
    by (simp add: full_hints_def)
qed

lemma capped_filter:
  "fold (\<lambda>x res. if length res \<ge> n then res else if P x then res @ [g x] else res) xs (take n ys)
     = take n (ys @ map g (filter P xs))"
proof (induction xs arbitrary: ys)
  case Nil
  then show ?case by simp
next
  case (Cons x xs)
  have step: "(if length (take n ys) \<ge> n then take n ys else if P x then take n ys @ [g x] else take n ys)
      = take n (ys @ map g (filter P [x]))"
    using capped_step [where f = "\<lambda>y. y" and n = n and xs = ys and r = "g x"] by simp
  have "map g (filter P (x # xs)) = map g (filter P [x]) @ map g (filter P xs)" by simp
  then show ?case using Cons [of "ys @ map g (filter P [x])"] by (simp only: fold_simps step append_assoc)
qed

text \<open>The first occurrences of a list.\<close>

definition firsts :: "'a list \<Rightarrow> 'a list" where
  "firsts xs = rev (remdups (rev xs))"

lemma firsts_simps [simp]:
  "firsts [] = []" "set (firsts xs) = set xs" "distinct (firsts xs)"
  "firsts (xs @ [x]) = (if x \<in> set xs then firsts xs else firsts xs @ [x])"
  by (simp_all add: firsts_def)

definition hint_acc_ok :: "nat \<Rightarrow> coin_id list \<Rightarrow> hint_ids_acc \<Rightarrow> bool" where
  "hint_acc_ok n xs = (\<lambda>(seen, result, returned).
     result = take n (firsts xs) \<and> seen = set result \<and> (returned \<longrightarrow> n \<le> length result))"

lemma push_new_id_ok: "hint_acc_ok n xs acc \<Longrightarrow> hint_acc_ok n (xs @ [x]) (push_new_id n x acc)"
  by (cases acc, cases "n \<le> length (firsts xs)") (auto simp: hint_acc_ok_def push_new_id_def)

lemma push_new_ids_ok: "hint_acc_ok n xs acc \<Longrightarrow> hint_acc_ok n (xs @ ys) (fold (push_new_id n) ys acc)"
proof (induction ys arbitrary: xs acc)
  case Nil
  then show ?case by simp
next
  case (Cons y ys)
  show ?case using Cons.IH [OF push_new_id_ok [OF Cons.prems, of y]] by simp
qed

lemma returned_ok:
  assumes "hint_acc_ok n xs (seen, result, True)"
  shows "hint_acc_ok n (xs @ ys) (seen, result, True)"
proof (induction ys rule: rev_induct)
  case Nil
  then show ?case using assms by simp
next
  case (snoc y ys)
  then show ?case using push_new_id_ok [OF snoc, of y] by (simp add: push_new_id_def)
qed

lemma try_fold_insert:
  "\<exists>m'. try_fold (\<lambda>i r. Inr (if P i then hm_insert i (g i) r else r)) xs m = Inr m'
     \<and> (\<forall>i. map_of m' i = (if i \<in> set xs \<and> P i then Some (g i) else map_of m i))"
proof (induction xs arbitrary: m)
  case Nil
  show ?case by simp
next
  case (Cons x xs)
  show ?case using Cons [of "if P x then hm_insert x (g x) m else m"] by (cases "P x") auto
qed

context reliable_backend
begin

lemma hint_represented:
  assumes "store_ok X view ok S tbl Hs"
  shows "ok (backend S)" "hints_ok (view (backend S)) Hs" "finite Hs"
proof -
  show "ok (backend S)" "hints_ok (view (backend S)) Hs" using assms by (simp_all add: store_ok_def)
  then show "finite Hs" using finite_hints view_finite by blast
qed

lemma ids_by_hint_bytes:
  assumes "store_ok X view ok S tbl Hs" "length p \<le> 510"
  shows "get_coin_ids_by_hint_bytes B S p n = Inr (take n (ids_of_hint Hs p))"
proof -
  note rep = hint_represented [OF assms(1)]
  let ?es = "scan_entries (view (backend S) CF_HINTS_BY_VALUE) p"
  let ?P = "\<lambda>(k, _ :: bytes). length k = length p + 32"
  let ?g = "\<lambda>(k, _ :: bytes). bytes32_from (slice (length p) (length p + 32) k)"
  have "push_exact_id p n = (\<lambda>x res. if length res \<ge> n then res else if ?P x then res @ [?g x] else res)"
    by (auto simp: push_exact_id_def fun_eq_iff)
  then have "fold (push_exact_id p n) ?es [] = take n (map ?g (filter ?P ?es))"
    using capped_filter [where n = n and P = ?P and g = ?g and xs = ?es and ys = "[]"] by simp
  also have "\<dots> = take n (ids_of_hint Hs p)"
    using exact_entries [OF rep(2) view_finite [OF rep(1)] rep(3)] by simp
  finally show ?thesis
    using assms(2) rep(1) by (simp add: get_coin_ids_by_hint_bytes_def scan_eq prefix_ok_def)
qed

lemma ids_by_hint:
  assumes "store_ok X view ok S tbl Hs"
  shows "get_coin_ids_by_hint B S h n = Inr (take n (ids_of_hint Hs (as_ref h)))"
proof -
  note rep = hint_represented [OF assms]
  let ?es = "scan_entries (view (backend S) CF_HINTS_BY_VALUE) (as_ref h)"
  have "length k \<le> 64" if "(k, v) \<in> set ?es" for k v
  proof -
    have "k \<in> dom (view (backend S) CF_HINTS_BY_VALUE)"
      using that set_scan_entries [OF view_finite [OF rep(1)]] by auto
    then obtain i g where "(i, g) \<in> Hs" "k = g @ as_ref i" using hint_dom(2) [OF rep(2)] by blast
    then show ?thesis using hint_length [OF rep(2)] by simp
  qed
  then have eq: "push_hint_id n e = push_exact_id (as_ref h) n e" if "e \<in> set ?es" for e
    using that by (cases e) (fastforce simp: push_hint_id_def push_exact_id_def)
  have "fold (push_hint_id n) ?es [] = fold (push_exact_id (as_ref h) n) ?es []"
    by (rule fold_cong) (simp_all add: eq)
  then show ?thesis
    using ids_by_hint_bytes [OF assms, of "as_ref h" n] rep(1)
    by (simp add: get_coin_ids_by_hint_def get_coin_ids_by_hint_bytes_def scan_eq prefix_ok_def)
qed

lemma ids_by_hints:
  assumes "store_ok X view ok S tbl Hs"
  shows "get_coin_ids_by_hints B S hs n =
    Inr (take n (firsts (concat (map (\<lambda>h. take n (ids_of_hint Hs (as_ref h))) hs))))"
proof -
  let ?ids = "\<lambda>h. take n (ids_of_hint Hs (as_ref h))"
  let ?f = "\<lambda>hint (seen, result, returned).
      if returned then Inr (seen, result, returned)
      else case get_coin_ids_by_hint B S hint n of
          Inl e \<Rightarrow> Inl e
        | Inr coin_ids \<Rightarrow> Inr (fold (push_new_id n) coin_ids (seen, result, returned))"
  have "\<exists>acc'. try_fold ?f hs acc = Inr acc' \<and> hint_acc_ok n (xs @ concat (map ?ids hs)) acc'"
    if "hint_acc_ok n xs acc" for xs acc
    using that
  proof (induction hs arbitrary: xs acc)
    case Nil
    then show ?case by simp
  next
    case (Cons h hs)
    obtain seen result returned where acc: "acc = (seen, result, returned)" by (cases acc)
    have "\<exists>acc1. ?f h acc = Inr acc1 \<and> hint_acc_ok n (xs @ ?ids h) acc1"
      using Cons.prems push_new_ids_ok [OF Cons.prems, of "?ids h"] returned_ok [of n xs seen result "?ids h"]
      by (cases returned) (auto simp: acc ids_by_hint [OF assms])
    then obtain acc1 where "?f h acc = Inr acc1" "hint_acc_ok n (xs @ ?ids h) acc1" by blast
    then show ?case using Cons.IH by fastforce
  qed
  from this [of "[]" "({}, [], False)"] show ?thesis
    by (auto simp: get_coin_ids_by_hints_def hint_acc_ok_def)
qed

lemma hints_of_ids:
  assumes "store_ok X view ok S tbl Hs"
  shows "\<exists>m. get_hints_for_coin_ids B S is = Inr m
    \<and> (\<forall>i. map_of m i = (if i \<in> set is \<and> full_hints Hs i \<noteq> [] then Some (full_hints Hs i) else None))"
proof -
  note rep = hint_represented [OF assms]
  let ?f = "\<lambda>coin_id result. Inr (if full_hints Hs coin_id \<noteq> [] then hm_insert coin_id (full_hints Hs coin_id) result else result)"
  have eq: "get_hints_for_coin_ids B S is = try_fold ?f is []"
    using forward_entries [OF rep(2) view_finite [OF rep(1)] rep(3)] rep(1)
    by (simp add: get_hints_for_coin_ids_def scan_eq prefix_ok_def Let_def)
  obtain m where "try_fold ?f is [] = (Inr m :: coin_store_error + (coin_id, bytes32 list) hash_map)"
    "\<forall>i. map_of m i = (if i \<in> set is \<and> full_hints Hs i \<noteq> [] then Some (full_hints Hs i) else map_of [] i)"
    using try_fold_insert [where P = "\<lambda>i. full_hints Hs i \<noteq> []" and g = "full_hints Hs" and xs = "is" and m = "[]"]
    by blast
  then show ?thesis unfolding eq by (intro exI [of _ m]) simp
qed

lemma hints_counted:
  assumes "store_ok X view ok S tbl Hs"
  shows "count_hints B S = Inr (of_nat (card Hs))"
proof -
  note rep = hint_represented [OF assms]
  have "dom (view (backend S) CF_HINTS) = (\<lambda>(i, h). as_ref i @ h) ` Hs"
    using hint_dom(1) [OF rep(2)] by (intro set_eqI) (simp add: image_iff Bex_def split_paired_Ex)
  then have "card (dom (view (backend S) CF_HINTS)) = card Hs"
    by (simp add: card_image inj_on_def split_paired_All Ball_def)
  then show ?thesis
    using rep(1) length_scan_entries [OF view_finite [OF rep(1)]] by (simp add: count_hints_def scan_eq)
qed

end

section \<open>Properties\<close>

text \<open>C32. \<open>add_hint\<close> on a store that represents a table and a set of hints: a hint of 1 to 32 bytes is
  added to the set and the table stays, and a hint that is already there changes nothing at all; an empty
  hint is skipped; a hint of more than 32 bytes is refused with \<open>HintTooLong\<close> and the store is unchanged.\<close>

theorem add_hint_refines:
  assumes "reliable_backend B view ok" "store_ok X view ok S tbl Hs"
  shows "(0 < length h \<and> length h \<le> 32 \<longrightarrow> (\<exists>S'. add_hint B i h S = (Inr (), S')
        \<and> store_ok X view ok S' tbl (insert (i, h) Hs) \<and> ((i, h) \<in> Hs \<longrightarrow> S' = S)))
    \<and> (h = [] \<longrightarrow> add_hint B i h S = (Inr (), S))
    \<and> (32 < length h \<longrightarrow> add_hint B i h S = (Inl (HintTooLong (length h) 32), S))"
proof (intro conjI impI)
  assume "0 < length h \<and> length h \<le> 32"
  then show "\<exists>S'. add_hint B i h S = (Inr (), S') \<and> store_ok X view ok S' tbl (insert (i, h) Hs) \<and> ((i, h) \<in> Hs \<longrightarrow> S' = S)"
    using reliable_backend.hint_added [OF assms(1,2), of h i] by metis
qed (auto simp: add_hint_def validate_hint_def MAX_HINT_LENGTH_def)

theorem add_hint_refines_witness:
  "\<exists>S S'. add_hint (rocks_backend mem_rocks) 10 [1, 2] S = (Inr (), S')
     \<and> store_ok sample_externals (rocks_view mem_rocks mem_tab) mem_ok S'
         (genesis_table sample_externals 5 sample_coins) {(10, [1, 2])}"
proof (rule sample_chain)
  fix S
  assume S: "store_ok sample_externals (rocks_view mem_rocks mem_tab) mem_ok S (genesis_table sample_externals 5 sample_coins) {}"
  show ?thesis
    using add_hint_refines [OF mem_rocks.rocks.reliable_backend_axioms S, of "[1, 2]" 10, THEN conjunct1] by auto
qed

lemma sample_hinted:
  obtains S where "store_ok sample_externals (rocks_view mem_rocks mem_tab) mem_ok S
      (genesis_table sample_externals 5 sample_coins) {(10, [1, 2])}"
proof (rule sample_chain)
  fix S
  assume "store_ok sample_externals (rocks_view mem_rocks mem_tab) mem_ok S (genesis_table sample_externals 5 sample_coins) {}"
  from mem_rocks.rocks.hint_added [OF this, of "[1, 2]" 10] show thesis using that by auto
qed

text \<open>C33. The hint lookups agree with the set of hints: the ids of a hint come in ascending order, capped
  at the limit, whether it is looked up as 32 bytes or by its raw bytes (shorter hints do not match longer
  ones they are a prefix of); the lookup of several hints lists the ids of each in turn, capped, without
  repetition; the reverse lookup maps each given id that has hints of 32 bytes to those, and no other;
  the count is the number of hints.\<close>

theorem hint_lookups_exact:
  assumes "reliable_backend B view ok" "store_ok X view ok S tbl Hs" "length p \<le> 510"
  shows "get_coin_ids_by_hint B S h n = Inr (take n (ids_of_hint Hs (as_ref h)))
    \<and> get_coin_ids_by_hint_bytes B S p n = Inr (take n (ids_of_hint Hs p))
    \<and> set (ids_of_hint Hs p) = {i. (i, p) \<in> Hs}
    \<and> get_coin_ids_by_hints B S hs n =
         Inr (take n (firsts (concat (map (\<lambda>h. take n (ids_of_hint Hs (as_ref h))) hs))))
    \<and> (\<exists>m. get_hints_for_coin_ids B S is = Inr m \<and> (\<forall>i. map_of m i =
         (if i \<in> set is \<and> full_hints Hs i \<noteq> [] then Some (full_hints Hs i) else None)))
    \<and> count_hints B S = Inr (of_nat (card Hs))"
proof -
  note fact = reliable_backend.ids_by_hint reliable_backend.ids_by_hint_bytes reliable_backend.ids_by_hints
    reliable_backend.hints_of_ids reliable_backend.hints_counted
  have "finite Hs" using reliable_backend.hint_represented [OF assms(1,2)] by blast
  then show ?thesis
    using fact(1) [OF assms(1,2)] fact(2) [OF assms] fact(3) [OF assms(1,2)] fact(4) [OF assms(1,2)]
      fact(5) [OF assms(1,2)] set_ids_of_hint by (intro conjI) blast+
qed

theorem hint_lookups_exact_witness:
  "\<exists>S. get_coin_ids_by_hint_bytes (rocks_backend mem_rocks) S [1, 2] 9 = Inr [10]
     \<and> get_coin_ids_by_hint_bytes (rocks_backend mem_rocks) S [1] 9 = Inr []
     \<and> count_hints (rocks_backend mem_rocks) S = Inr 1"
proof (rule sample_hinted)
  fix S
  assume S: "store_ok sample_externals (rocks_view mem_rocks mem_tab) mem_ok S (genesis_table sample_externals 5 sample_coins)
    {(10, [1, 2])}"
  show ?thesis
    using hint_lookups_exact [OF mem_rocks.rocks.reliable_backend_axioms S, of "[1, 2]" 0 9]
      hint_lookups_exact [OF mem_rocks.rocks.reliable_backend_axioms S, of "[1]" 0 9]
    by (intro exI [of _ S]) (simp add: ids_of_hint_def)
qed

text \<open>C34. \<open>remove_hints_for_coins\<close> returns the number of hints the given coins have and leaves a store with
  the same table and exactly the hints of the other coins, in both indices.\<close>

theorem remove_hints_exact:
  assumes "reliable_backend B view ok" "store_ok X view ok S tbl Hs"
  shows "\<exists>S'. remove_hints_for_coins B is S = (Inr (of_nat (card {(j, h) \<in> Hs. j \<in> set is})), S')
    \<and> store_ok X view ok S' tbl {(j, h) \<in> Hs. j \<notin> set is}"
proof -
  note rep = reliable_backend.hint_represented [OF assms]
  obtain s' where s': "try_fold_state (remove_hints_for_coin B) is 0 (backend S) =
      (Inr (0 + of_nat (card {(j, h) \<in> Hs. j \<in> set is})), s')" "ok s'"
    "hints_ok (view s') {(j, h) \<in> Hs. j \<notin> set is}" "\<And>cf. cf \<notin> hint_cfs \<Longrightarrow> view s' cf = view (backend S) cf"
    by (rule reliable_backend.hints_removed [OF assms(1) rep(1,2), of "is" 0]) (rule that)
  from store_ok_hints [OF assms(2) s'(2,4,3)] s'(1) show ?thesis by (simp add: remove_hints_for_coins_def)
qed

theorem remove_hints_exact_witness:
  "\<exists>S S'. remove_hints_for_coins (rocks_backend mem_rocks) [3, 10] S = (Inr 1, S')
     \<and> store_ok sample_externals (rocks_view mem_rocks mem_tab) mem_ok S' (genesis_table sample_externals 5 sample_coins) {}"
proof (rule sample_hinted)
  fix S
  assume S: "store_ok sample_externals (rocks_view mem_rocks mem_tab) mem_ok S (genesis_table sample_externals 5 sample_coins)
    {(10, [1, 2])}"
  have eqs: "{(j, h) \<in> {(10 :: coin_id, [1, 2] :: bytes)}. j \<in> set [3, 10]} = {(10, [1, 2])}"
    "{(j, h) \<in> {(10 :: coin_id, [1, 2] :: bytes)}. j \<notin> set [3, 10]} = {}" by auto
  show ?thesis
    using remove_hints_exact [OF mem_rocks.rocks.reliable_backend_axioms S, of "[3, 10]"] unfolding eqs by auto
qed

end
