(* ===== verification/Snapshot.thy ===== *)
theory Snapshot
  imports Hint_Props
begin

text \<open>
  The statistics and the snapshots of \<open>src/src/coin_store.rs\<close>: \<open>stats\<close>, \<open>snapshot\<close>, \<open>restore\<close> and
  the retained checkpoints (\<open>save_snapshot\<close>, \<open>load_snapshot\<close>, \<open>load_latest_snapshot\<close>,
  \<open>available_snapshot_heights\<close>, pruning). The iteration order of the coin map of a snapshot is the
  order of its association list.
\<close>

section \<open>Statistics\<close>

definition cf_entry_count_u64 :: "'s storage_ops \<Rightarrow> 's \<Rightarrow> string \<Rightarrow> u64" where
  "cf_entry_count_u64 B s cf =
     (case kv_prefix_scan B s cf [] of Inr entries \<Rightarrow> of_nat (length entries) | Inl _ \<Rightarrow> 0)"

definition cf_entry_count_usize :: "'s storage_ops \<Rightarrow> 's \<Rightarrow> string \<Rightarrow> nat" where
  "cf_entry_count_usize B s cf =
     (case kv_prefix_scan B s cf [] of Inr entries \<Rightarrow> length entries | Inl _ \<Rightarrow> 0)"

definition saturating_add :: "u64 \<Rightarrow> u64 \<Rightarrow> u64" where
  "saturating_add a b = (if a + b < a then - 1 else a + b)"

definition count_row :: "externals \<Rightarrow> kv_pair \<Rightarrow> u64 \<times> u64 \<times> u64 \<Rightarrow> u64 \<times> u64 \<times> u64" where
  "count_row X = (\<lambda>(_, val) (unspent, spent, total).
     case decode_coin_record_bytes X val of
       None \<Rightarrow> (unspent, spent, total)
     | Some rec \<Rightarrow>
         if spent_height rec = None
         then (saturating_add unspent 1, spent, saturating_add total (amount (cr_coin rec)))
         else (unspent, saturating_add spent 1, total))"

definition stats :: "externals \<Rightarrow> 's storage_ops \<Rightarrow> 's coin_store \<Rightarrow> coin_store_stats" where
  "stats X B S =
     (let (unspent, spent, total) =
            (if initialized S
             then (case kv_prefix_scan B (backend S) CF_COIN_RECORDS [] of
                     Inr entries \<Rightarrow> fold (count_row X) entries (0, 0, 0)
                   | Inl _ \<Rightarrow> (0, 0, 0))
             else (0, 0, 0))
      in \<lparr>ss_height = height S, ss_timestamp = cs_timestamp S, unspent_count = unspent, spent_count = spent,
          ss_total_unspent_value = total, ss_state_root = root_observed X (merkle_tree S), ss_tip_hash = tip_hash S,
          hint_count = cf_entry_count_u64 B (backend S) CF_HINTS,
          snapshot_count = cf_entry_count_usize B (backend S) CF_STATE_SNAPSHOTS\<rparr>)"

section \<open>Taking a snapshot\<close>

text \<open>\<open>sum\<close> over \<open>u64\<close> wraps in a release build.\<close>

definition unspent_value :: "(coin_id, coin_record) hash_map \<Rightarrow> u64" where
  "unspent_value coins =
     sum_list (map (\<lambda>r. amount (cr_coin r)) (filter (\<lambda>r. spent_height r = None) (map snd coins)))"

definition snapshot :: "externals \<Rightarrow> 's storage_ops \<Rightarrow> 's coin_store \<Rightarrow> coin_store_error + coin_store_snapshot" where
  "snapshot X B S =
     (if \<not> initialized S then Inl NotInitialized
      else case kv_prefix_scan B (backend S) CF_COIN_RECORDS [] of
          Inl e \<Rightarrow> Inl (StorageError (''snapshot: coin_records scan: '' @ storage_error_to_string e))
        | Inr entries \<Rightarrow>
            let coins = fold (\<lambda>(_, val) coins.
                    case decode_coin_record_bytes X val of
                      None \<Rightarrow> coins
                    | Some rec \<Rightarrow> hm_insert (record_coin_id X rec) rec coins)
                  entries []
            in Inr \<lparr>sn_height = height S, sn_block_hash = tip_hash S,
                    sn_state_root = root_observed X (merkle_tree S), sn_timestamp = cs_timestamp S,
                    sn_coins = coins, sn_hints = [], total_coins = of_nat (length coins),
                    total_value = unspent_value coins\<rparr>)"

section \<open>Restoring a snapshot\<close>

definition SNAPSHOT_RESTORE_BATCH_OPS :: nat where "SNAPSHOT_RESTORE_BATCH_OPS = 50000"

definition restore_check :: "externals \<Rightarrow> coin_store_snapshot \<Rightarrow> coin_store_error + unit" where
  "restore_check X snap =
     (if total_coins snap \<noteq> of_nat (length (sn_coins snap)) then
        Inl (StorageError (''restore: total_coins '' @ show_nat (unat (total_coins snap)) @ '' != coins.len() ''
          @ show_nat (length (sn_coins snap))))
      else if unspent_value (sn_coins snap) \<noteq> total_value snap then
        Inl (StorageError (''restore: total_value '' @ show_nat (unat (total_value snap))
          @ '' != recomputed unspent sum '' @ show_nat (unat (unspent_value (sn_coins snap)))))
      else case find (\<lambda>(map_id, rec). map_id \<noteq> record_coin_id X rec) (sn_coins snap) of
          Some (map_id, rec) \<Rightarrow>
            Inl (StorageError (''restore: map key '' @ debug_bytes32 X map_id @ '' != record coin_id ''
              @ debug_bytes32 X (record_coin_id X rec)))
        | None \<Rightarrow> Inr ())"

definition restore_rows :: "externals \<Rightarrow> coin_record list \<Rightarrow> coin_store_error + (coin_record \<times> bytes) list" where
  "restore_rows X recs =
     try_fold (\<lambda>rec rows.
         case serialize_coin_record_storage_bytes X rec of
           Inl e \<Rightarrow> Inl e | Inr bytes \<Rightarrow> Inr (rows @ [(rec, bytes)]))
       recs []"

definition restore_tree ::
  "externals \<Rightarrow> (coin_record \<times> bytes) list \<Rightarrow> bytes32 \<Rightarrow> coin_store_error + sparse_merkle_tree" where
  "restore_tree X rows expected =
     (let merkle_entries = map (\<lambda>(rec, bytes). (record_coin_id X rec, merkle_leaf_hash X bytes)) rows
      in case (if merkle_entries \<noteq> [] then batch_insert merkle_entries (smt_new X) else Inr (smt_new X)) of
           Inl e \<Rightarrow> Inl (StorageError (''restore: merkle batch_insert: '' @ merkle_error_to_string X e))
         | Inr tree \<Rightarrow>
             let (computed_root, tree') = smt_root X tree
             in if computed_root \<noteq> expected then Inl (StateRootMismatch expected computed_root) else Inr tree')"

definition clear_column_family :: "'s storage_ops \<Rightarrow> string \<Rightarrow> unit \<Rightarrow> 's \<Rightarrow> (coin_store_error + unit) \<times> 's" where
  "clear_column_family B cf = (\<lambda>_ s.
     case kv_prefix_scan B s cf [] of
       Inl e \<Rightarrow> (Inl (StorageError (''clear_column_family('' @ cf @ ''): '' @ storage_error_to_string e)), s)
     | Inr pairs \<Rightarrow>
         try_fold_state (\<lambda>(k, _) _ s.
             case lift_storage (kv_delete B s cf k) of Inl e \<Rightarrow> (Inl e, s) | Inr s' \<Rightarrow> (Inr (), s'))
           pairs () s)"

text \<open>The batch is written and emptied once it holds \<open>SNAPSHOT_RESTORE_BATCH_OPS\<close> operations.\<close>

definition restore_flush :: "'s storage_ops \<Rightarrow> write_batch \<Rightarrow> 's \<Rightarrow> (coin_store_error + write_batch) \<times> 's" where
  "restore_flush B batch s =
     (if length batch \<ge> SNAPSHOT_RESTORE_BATCH_OPS
      then (case lift_storage (kv_batch_write B s batch) of Inl e \<Rightarrow> (Inl e, s) | Inr s' \<Rightarrow> (Inr batch_new, s'))
      else (Inr batch, s))"

definition restore_record ::
  "externals \<Rightarrow> 's storage_ops \<Rightarrow> coin_record \<times> bytes \<Rightarrow> write_batch \<Rightarrow> 's
    \<Rightarrow> (coin_store_error + write_batch) \<times> 's" where
  "restore_record X B = (\<lambda>(rec, bytes) batch. restore_flush B (append_coin_record_to_batch X rec bytes batch))"

definition restore_hint ::
  "'s storage_ops \<Rightarrow> coin_id \<times> bytes32 \<Rightarrow> write_batch \<Rightarrow> 's \<Rightarrow> (coin_store_error + write_batch) \<times> 's" where
  "restore_hint B = (\<lambda>(coin_id, hint) batch.
     restore_flush B (batch_put CF_HINTS_BY_VALUE (hint_coin_key hint coin_id) []
       (batch_put CF_HINTS (coin_hint_key coin_id hint) [] batch)))"

definition restore_meta :: "coin_store_snapshot \<Rightarrow> write_batch \<Rightarrow> write_batch" where
  "restore_meta snap batch =
     (let batch = batch_put CF_METADATA META_INITIALIZED [1] batch;
          batch = batch_put CF_METADATA META_HEIGHT (u64_to_le_bytes (sn_height snap)) batch;
          batch = batch_put CF_METADATA META_TIP_HASH (as_ref (sn_block_hash snap)) batch
      in batch_put CF_METADATA META_TIMESTAMP (u64_to_le_bytes (sn_timestamp snap)) batch)"

text \<open>The writes of \<open>restore\<close> once all checks have passed.\<close>

definition restore_write ::
  "externals \<Rightarrow> 's storage_ops \<Rightarrow> (coin_record \<times> bytes) list \<Rightarrow> coin_store_snapshot \<Rightarrow> 's
    \<Rightarrow> (coin_store_error + unit) \<times> 's" where
  "restore_write X B rows snap s0 =
     (case try_fold_state (clear_column_family B) ALL_COLUMN_FAMILIES () s0 of
        (Inl e, s) \<Rightarrow> (Inl e, s)
      | (Inr _, s) \<Rightarrow>
          (case try_fold_state (restore_record X B) rows batch_new s of
             (Inl e, s) \<Rightarrow> (Inl e, s)
           | (Inr batch, s) \<Rightarrow>
               (case try_fold_state (restore_hint B) (sn_hints snap) batch s of
                  (Inl e, s) \<Rightarrow> (Inl e, s)
                | (Inr batch, s) \<Rightarrow>
                    let batch = restore_meta snap batch
                    in if batch \<noteq> []
                       then (case lift_storage (kv_batch_write B s batch) of
                               Inl e \<Rightarrow> (Inl e, s) | Inr s' \<Rightarrow> (Inr (), s'))
                       else (Inr (), s))))"

definition restore ::
  "externals \<Rightarrow> 's storage_ops \<Rightarrow> coin_store_snapshot \<Rightarrow> 's coin_store
    \<Rightarrow> (coin_store_error + unit) \<times> 's coin_store" where
  "restore X B snap S =
     (case restore_check X snap of
        Inl e \<Rightarrow> (Inl e, S)
      | Inr _ \<Rightarrow>
     (case restore_rows X (map snd (sn_coins snap)) of
        Inl e \<Rightarrow> (Inl e, S)
      | Inr rows \<Rightarrow>
     (case restore_tree X rows (sn_state_root snap) of
        Inl e \<Rightarrow> (Inl e, S)
      | Inr tree \<Rightarrow>
     (case restore_write X B rows snap (backend S) of
        (Inl e, s) \<Rightarrow> (Inl e, S\<lparr>backend := s\<rparr>)
      | (Inr _, s) \<Rightarrow>
          (Inr (), S\<lparr>backend := s, merkle_tree := tree, height := sn_height snap, tip_hash := sn_block_hash snap,
             cs_timestamp := sn_timestamp snap, initialized := True,
             unspent_ids := set (map (record_coin_id X)
               (filter (\<lambda>r. spent_height r = None) (map snd (sn_coins snap))))\<rparr>)))))"

section \<open>Retained checkpoints\<close>

text \<open>A key of fewer than 8 bytes makes \<open>height_from_snapshot_key\<close> panic.\<close>

definition snapshot_heights :: "kv_pair list \<Rightarrow> u64 list option" where
  "snapshot_heights entries =
     map_option sort (those (map (\<lambda>(k, _). height_from_snapshot_key k) entries))"

definition available_snapshot_heights :: "'s storage_ops \<Rightarrow> 's coin_store \<Rightarrow> coin_store_error + u64 list" where
  "available_snapshot_heights B S =
     (case kv_prefix_scan B (backend S) CF_STATE_SNAPSHOTS [] of
        Inl _ \<Rightarrow> Inr []
      | Inr entries \<Rightarrow> (case snapshot_heights entries of None \<Rightarrow> Inl Panicked | Some hs \<Rightarrow> Inr hs))"

definition prune_snapshots_to_limit :: "'s storage_ops \<Rightarrow> nat \<Rightarrow> 's \<Rightarrow> (coin_store_error + unit) \<times> 's" where
  "prune_snapshots_to_limit B limit s =
     (if limit = 0 then (Inr (), s)
      else case lift_storage (kv_prefix_scan B s CF_STATE_SNAPSHOTS []) of
          Inl e \<Rightarrow> (Inl e, s)
        | Inr entries \<Rightarrow>
            if length entries \<le> limit then (Inr (), s)
            else (case snapshot_heights entries of
                None \<Rightarrow> (Inl Panicked, s)
              | Some heights \<Rightarrow>
                  try_fold_state (\<lambda>h _ s.
                      case lift_storage (kv_delete B s CF_STATE_SNAPSHOTS (snapshot_key h)) of
                        Inl e \<Rightarrow> (Inl e, s) | Inr s' \<Rightarrow> (Inr (), s'))
                    (take (length entries - limit) heights) () s))"

definition save_snapshot ::
  "externals \<Rightarrow> 's storage_ops \<Rightarrow> 's coin_store \<Rightarrow> (coin_store_error + unit) \<times> 's coin_store" where
  "save_snapshot X B S =
     (if \<not> initialized S then (Inl NotInitialized, S)
      else case snapshot X B S of
          Inl e \<Rightarrow> (Inl e, S)
        | Inr snap \<Rightarrow>
            (case encode_coin_store_snapshot X snap of
               Inl e \<Rightarrow> (Inl (from_bincode_error e), S)
             | Inr payload \<Rightarrow>
                 (case lift_storage (kv_put B (backend S) CF_STATE_SNAPSHOTS (snapshot_key (height S)) payload) of
                    Inl e \<Rightarrow> (Inl e, S)
                  | Inr s1 \<Rightarrow>
                      let (result, s2) = prune_snapshots_to_limit B (max_snapshots (cs_config S)) s1
                      in (result, S\<lparr>backend := s2\<rparr>))))"

definition load_snapshot ::
  "externals \<Rightarrow> 's storage_ops \<Rightarrow> 's coin_store \<Rightarrow> u64 \<Rightarrow> coin_store_error + coin_store_snapshot option" where
  "load_snapshot X B S h =
     (case lift_storage (kv_get B (backend S) CF_STATE_SNAPSHOTS (snapshot_key h)) of
        Inl e \<Rightarrow> Inl e
      | Inr None \<Rightarrow> Inr None
      | Inr (Some bytes) \<Rightarrow>
          (case decode_coin_store_snapshot_storage X bytes of
             Inl e \<Rightarrow> Inl (from_bincode_deserialize e) | Inr snap \<Rightarrow> Inr (Some snap)))"

definition load_latest_snapshot ::
  "externals \<Rightarrow> 's storage_ops \<Rightarrow> 's coin_store \<Rightarrow> coin_store_error + coin_store_snapshot option" where
  "load_latest_snapshot X B S =
     (case available_snapshot_heights B S of
        Inl e \<Rightarrow> Inl e
      | Inr heights \<Rightarrow> if heights = [] then Inr None else load_snapshot X B S (last heights))"

end
