(* ===== verification/Snapshot_Props.thy ===== *)
theory Snapshot_Props
  imports Snapshot
begin

text \<open>
  Statistics and snapshots read the represented table; a restored snapshot represents its coin map; the
  retained checkpoints are the newest ones.
\<close>

section \<open>Statistics\<close>

text \<open>A count clamped to the range of \<open>u64\<close>.\<close>

definition clamp :: "nat \<Rightarrow> u64" where
  "clamp n = of_nat (min n (2 ^ 64 - 1))"

lemma unat_clamp: "unat (clamp n) = min n (2 ^ 64 - 1)"
  by (simp add: clamp_def unat_of_nat)

lemma saturating_add_clamp: "saturating_add (clamp n) w = clamp (n + unat w)"
proof -
  have w: "unat w < 2 ^ 64" using unsigned_less [of w, where ?'a = nat] by simp
  show ?thesis
  proof (cases "n + unat w < 2 ^ 64")
    case True
    then have eq: "clamp n + w = clamp (n + unat w)" by (simp add: clamp_def)
    moreover have "\<not> clamp (n + unat w) < clamp n" using True by (simp add: word_less_nat_alt unat_clamp)
    ultimately show ?thesis by (simp add: saturating_add_def)
  next
    case False
    then have top: "clamp (n + unat w) = - 1" by (simp add: clamp_def)
    show ?thesis
    proof (cases "w = 0")
      case True
      with top show ?thesis by (simp add: saturating_add_def)
    next
      case w0: False
      then have "0 < unat w" by (simp add: unat_gt_0)
      then have "unat (clamp n + w) < unat (clamp n)"
        using False w by (auto simp: unat_word_ariths unat_clamp mod_if min_def)
      with top show ?thesis by (simp add: saturating_add_def word_less_nat_alt)
    qed
  qed
qed

lemma clamp_0 [simp]: "clamp 0 = 0"
  by (simp add: clamp_def)

lemma count_rows:
  assumes "\<forall>(i, r) \<in> set rows. decode_coin_record_bytes X (row X r) = Some r"
  shows "fold (count_row X) (map (\<lambda>(i, r). (coin_key i, row X r)) rows) (clamp a, clamp b, clamp c) =
    (clamp (a + length (filter (\<lambda>r. \<not> is_spent r) (map snd rows))),
     clamp (b + length (filter is_spent (map snd rows))),
     clamp (c + sum_list (map (\<lambda>r. unat (amount (cr_coin r))) (filter (\<lambda>r. \<not> is_spent r) (map snd rows)))))"
  using assms
proof (induction rows arbitrary: a b c)
  case Nil
  show ?case by simp
next
  case (Cons e rows)
  obtain i r where e: "e = (i, r)" by fastforce
  with Cons show ?case
    by (cases "is_spent r") (auto simp: count_row_def is_spent_def saturating_add_clamp add.assoc)
qed

lemma length_table_rows: "length (table_rows tbl) = card (dom tbl)"
  by (simp add: table_rows_def)

lemma count_spent:
  assumes "finite (dom tbl)"
  shows "length (filter is_spent (map snd (table_rows tbl))) = card (dom tbl) - card (unspent_of tbl)"
proof -
  have "length (filter is_spent (map snd (table_rows tbl))) + length (unspent_records tbl) = card (dom tbl)"
    using sum_length_filter_compl [of is_spent "map snd (table_rows tbl)"]
    by (simp add: table_rows_unspent [OF assms, symmetric] length_table_rows)
  then show ?thesis using length_unspent_records [OF assms] by simp
qed

lemma sum_unspent:
  assumes "finite (dom tbl)"
  shows "sum_list (map f (unspent_records tbl)) = (\<Sum>i \<in> unspent_of tbl. f (the (tbl i)))"
proof -
  have "finite {i. \<exists>r. tbl i = Some r \<and> \<not> is_spent r}" by (rule finite_subset [OF _ assms]) auto
  then have "set (ids_where (\<lambda>r. \<not> is_spent r) tbl) = unspent_of tbl" "distinct (ids_where (\<lambda>r. \<not> is_spent r) tbl)"
    by (auto simp: ids_where_def unspent_of_def is_spent_def)
  then show ?thesis
    by (simp add: unspent_records_def records_where_def comp_def sum_list_distinct_conv_sum_set)
qed

context reliable_backend
begin

lemma decoded_rows:
  assumes "bincode_ok X" "store_ok X view ok S tbl Hs"
  shows "\<forall>(i, r) \<in> set (table_rows tbl). decode_coin_record_bytes X (row X r) = Some r \<and> record_coin_id X r = i"
proof -
  note rep = represented [OF assms]
  show ?thesis
    using set_table_rows [OF rep(2)] decode_row [OF assms(1) table_ok_row [OF rep(6)]] table_ok_id [OF rep(6)] by blast
qed

lemma observed_root: "store_ok X view ok S tbl Hs \<Longrightarrow> root_observed X (merkle_tree S) = merkle_root X (leaf_table X tbl)"
  using root_observed_eq [of X "merkle_tree S"] by (simp add: store_ok_def)

lemma entry_counts:
  assumes "ok s" "cf \<in> set ALL_COLUMN_FAMILIES"
  shows "cf_entry_count_u64 B s cf = of_nat (card (dom (view s cf)))" "cf_entry_count_usize B s cf = card (dom (view s cf))"
  using assms length_scan_entries [OF view_finite [OF assms(1)]]
  by (simp_all add: cf_entry_count_u64_def cf_entry_count_usize_def scan_eq)

end

text \<open>
  C31. Statistics. On a store that represents a table, \<open>stats\<close> reports the tip, the root of the Merkle map
  of the table, the numbers of unspent and of spent coins and the sum of the unspent amounts, all three
  clamped to the range of \<open>u64\<close> (never wrapped), the number of hints and the number of stored checkpoints.
\<close>

theorem stats_exact:
  assumes "reliable_backend B view ok" "bincode_ok X" "store_ok X view ok S tbl Hs"
  shows "stats X B S =
    \<lparr>ss_height = height S, ss_timestamp = cs_timestamp S, unspent_count = clamp (card (unspent_of tbl)),
     spent_count = clamp (card (dom tbl) - card (unspent_of tbl)),
     ss_total_unspent_value = clamp (\<Sum>i \<in> unspent_of tbl. unat (amount (cr_coin (the (tbl i))))),
     ss_state_root = merkle_root X (leaf_table X tbl), ss_tip_hash = tip_hash S, hint_count = of_nat (card Hs),
     snapshot_count = card (dom (view (backend S) CF_STATE_SNAPSHOTS))\<rparr>"
proof -
  note rep = reliable_backend.represented [OF assms]
  note rows = reliable_backend.read_rows [OF assms(1) rep(3,4)]
  have dec: "\<forall>(i, r) \<in> set (table_rows tbl). decode_coin_record_bytes X (row X r) = Some r"
    using reliable_backend.decoded_rows [OF assms] by blast
  note count = count_rows [OF dec, of 0 0 0, unfolded table_rows_unspent [OF rep(2)] count_spent [OF rep(2)]
      length_unspent_records [OF rep(2)] sum_unspent [OF rep(2)], simplified]
  have "count_hints B S = Inr (cf_entry_count_u64 B (backend S) CF_HINTS)"
    using reliable_backend.scan_eq [OF assms(1) rep(3)] by (simp add: count_hints_def cf_entry_count_u64_def)
  then have hints: "cf_entry_count_u64 B (backend S) CF_HINTS = of_nat (card Hs)"
    using reliable_backend.hints_counted [OF assms(1,3)] by simp
  have empty: "unspent_of tbl = {}" "dom tbl = {}" if "\<not> initialized S"
    using that assms(3) by (auto simp: store_ok_def unspent_of_def)
  show ?thesis
    using reliable_backend.observed_root [OF assms(1,3)] reliable_backend.entry_counts(2) [OF assms(1) rep(3)]
    by (cases "initialized S") (simp_all add: stats_def rows count hints empty)
qed

theorem stats_exact_witness:
  "\<exists>S. unspent_count (stats sample_externals (rocks_backend mem_rocks) S) = 1
     \<and> ss_total_unspent_value (stats sample_externals (rocks_backend mem_rocks) S) = 7"
proof (rule sample_chain)
  fix S
  assume S: "store_ok sample_externals (rocks_view mem_rocks mem_tab) mem_ok S (genesis_table sample_externals 5 sample_coins) {}"
  have "unspent_of (genesis_table sample_externals 5 sample_coins) = {10}"
    using unspent_of_genesis [of sample_externals 5 sample_coins] by (simp add: sample_coins_def)
  moreover have "amount (cr_coin (the (genesis_table sample_externals 5 sample_coins 10))) = 7"
    by (simp add: genesis_table_def genesis_records_def sample_coins_def record_map_def)
      (simp add: coin_record_new_def sample_coin_def)
  moreover have "clamp 1 = 1" "clamp 7 = 7" by (simp_all add: clamp_def)
  ultimately show ?thesis
    using stats_exact [OF mem_rocks.rocks.reliable_backend_axioms, OF bincode_ok_sample S]
    by (intro exI [of _ S]) simp
qed

section \<open>Taking a snapshot\<close>

lemma hm_insert_fresh: "k \<notin> fst ` set m \<Longrightarrow> hm_insert k v m = m @ [(k, v)]"
  unfolding hm_insert_def by (induction m) auto

lemma snapshot_coins:
  assumes "\<forall>(i, r) \<in> set rows. decode_coin_record_bytes X (row X r) = Some r \<and> record_coin_id X r = i"
    and "distinct (map fst (coins @ rows))"
  shows "fold (\<lambda>(_, val) coins. case decode_coin_record_bytes X val of
        None \<Rightarrow> coins | Some rec \<Rightarrow> hm_insert (record_coin_id X rec) rec coins)
      (map (\<lambda>(i, r). (coin_key i, row X r)) rows) coins = coins @ rows"
  using assms
proof (induction rows arbitrary: coins)
  case Nil
  show ?case by simp
next
  case (Cons e rows)
  obtain i r where e: "e = (i, r)" by fastforce
  have "hm_insert i r coins = coins @ [(i, r)]" using Cons.prems(2) e by (intro hm_insert_fresh) auto
  then show ?case using Cons.IH [of "coins @ [(i, r)]"] Cons.prems e by auto
qed

definition snapshot_of :: "externals \<Rightarrow> 's coin_store \<Rightarrow> coin_table \<Rightarrow> coin_store_snapshot" where
  "snapshot_of X S tbl =
     \<lparr>sn_height = height S, sn_block_hash = tip_hash S, sn_state_root = merkle_root X (leaf_table X tbl),
      sn_timestamp = cs_timestamp S, sn_coins = table_rows tbl, sn_hints = [], total_coins = of_nat (card (dom tbl)),
      total_value = sum_list (map (\<lambda>r. amount (cr_coin r)) (unspent_records tbl))\<rparr>"

lemma unspent_value_rows:
  "finite (dom tbl) \<Longrightarrow> unspent_value (table_rows tbl) = sum_list (map (\<lambda>r. amount (cr_coin r)) (unspent_records tbl))"
  using table_rows_unspent [of tbl] by (simp add: unspent_value_def is_spent_def)

context reliable_backend
begin

lemma snapshot_taken:
  assumes "bincode_ok X" "store_ok X view ok S tbl Hs" "initialized S"
  shows "snapshot X B S = Inr (snapshot_of X S tbl)"
proof -
  note rep = represented [OF assms(1,2)]
  show ?thesis
    using snapshot_coins [OF decoded_rows [OF assms(1,2)], of "[]"] distinct_table_rows [of tbl] assms(3)
    by (simp add: snapshot_def read_rows [OF rep(3,4)] snapshot_of_def observed_root [OF assms(2)] length_table_rows
        unspent_value_rows [OF rep(2)] Let_def)
qed

end

text \<open>
  Taking a snapshot. On an initialised store that represents a table, \<open>snapshot\<close> succeeds; the coin map
  is the table, its key set is free of duplicates, root, height, tip and timestamp are those of the store,
  \<open>total_value\<close> is the sum of the unspent amounts modulo \<open>2 ^ 64\<close>, and the hint list is empty whatever hints
  the store has. Before genesis it fails.
\<close>

theorem snapshot_exact:
  assumes "reliable_backend B view ok" "bincode_ok X" "store_ok X view ok S tbl Hs"
  shows "if initialized S then \<exists>snap. snapshot X B S = Inr snap
      \<and> map_of (sn_coins snap) = tbl \<and> hm_ok (sn_coins snap) \<and> total_coins snap = of_nat (card (dom tbl))
      \<and> total_value snap = (\<Sum>i \<in> unspent_of tbl. amount (cr_coin (the (tbl i))))
      \<and> sn_state_root snap = merkle_root X (leaf_table X tbl) \<and> sn_height snap = height S
      \<and> sn_block_hash snap = tip_hash S \<and> sn_timestamp snap = cs_timestamp S \<and> sn_hints snap = []
    else snapshot X B S = Inl NotInitialized"
proof -
  note rep = reliable_backend.represented [OF assms]
  show ?thesis
    using reliable_backend.snapshot_taken [OF assms] map_of_table_rows [OF rep(2)] distinct_table_rows [of tbl]
    by (simp add: snapshot_of_def hm_ok_def sum_unspent [OF rep(2)] snapshot_def [of X B S])
qed

theorem snapshot_exact_witness:
  "\<exists>S snap. snapshot sample_externals (rocks_backend mem_rocks) S = Inr snap
     \<and> map_of (sn_coins snap) = genesis_table sample_externals 5 sample_coins \<and> total_coins snap = 1"
proof (rule sample_chain)
  fix S
  assume S: "store_ok sample_externals (rocks_view mem_rocks mem_tab) mem_ok S (genesis_table sample_externals 5 sample_coins) {}"
    and "initialized S"
  moreover have "card (dom (genesis_table sample_externals 5 sample_coins)) = 1"
    by (simp add: genesis_table_def dom_record_map genesis_records_def sample_coins_def)
  ultimately show ?thesis
    using snapshot_exact [OF mem_rocks.rocks.reliable_backend_axioms, OF bincode_ok_sample S] by auto
qed

end
