(* ===== verification/Restore.thy ===== *)
theory Restore
  imports Snapshot_Props
begin

text \<open>
  Restoring a snapshot: all checks come before the first write, so a snapshot that fails one leaves the
  store as it was; a snapshot that passes replaces everything the store held.
\<close>

section \<open>Loops of single deletions\<close>

context reliable_backend
begin

lemma deletes:
  assumes "ok s" "cf \<in> set ALL_COLUMN_FAMILIES" "\<forall>x \<in> set xs. key_ok (key x)"
  obtains s' where "try_fold_state (\<lambda>x _ s. case lift_storage (kv_delete B s cf (key x)) of
        Inl e \<Rightarrow> (Inl e, s) | Inr s' \<Rightarrow> (Inr (), s')) xs () s = (Inr (), s')"
    "ok s'" "view s' = (view s)(cf := view s cf |` (- key ` set xs))"
  using assms
proof (induction xs arbitrary: s thesis)
  case Nil
  then show ?case by (simp add: restrict_map_def)
next
  case (Cons x xs)
  let ?f = "\<lambda>x _ s. case lift_storage (kv_delete B s cf (key x)) of Inl e \<Rightarrow> (Inl e, s) | Inr s' \<Rightarrow> (Inr (), s')"
  obtain s1 where s1: "kv_delete B s cf (key x) = Inr s1" "ok s1" "view s1 = apply_op (Delete cf (key x)) (view s)"
    using delete_ok [OF Cons.prems(2,3), of "key x"] Cons.prems(4) by auto
  obtain s' where s': "try_fold_state ?f xs () s1 = (Inr (), s')" "ok s'"
    "view s' = (view s1)(cf := view s1 cf |` (- key ` set xs))"
  proof (rule Cons.IH [OF _ s1(2) Cons.prems(3)])
    show "\<forall>x \<in> set xs. key_ok (key x)" using Cons.prems(4) by simp
  qed (rule that)
  have "view s' = (view s)(cf := view s cf |` (- key ` set (x # xs)))"
    using s'(3) s1(3) by (auto simp: restrict_map_def fun_eq_iff)
  with s' s1 show ?case by (intro Cons.prems(1) [of s']) simp_all
qed

lemma cleared:
  assumes "ok s" "cf \<in> set ALL_COLUMN_FAMILIES" "\<forall>k \<in> dom (view s cf). key_ok k"
  obtains s' where "clear_column_family B cf () s = (Inr (), s')" "ok s'" "view s' = (view s)(cf := Map.empty)"
proof -
  let ?es = "scan_entries (view s cf) []"
  have es: "fst ` set ?es = dom (view s cf)"
    using set_scan_entries [OF view_finite [OF assms(1)], of cf "[]"] by (force simp: image_iff)
  then have "\<forall>e \<in> set ?es. key_ok (fst e)" using assms(3) by blast
  obtain s' where
    "try_fold_state (\<lambda>x _ s. case lift_storage (kv_delete B s cf (fst x)) of
        Inl e \<Rightarrow> (Inl e, s) | Inr s' \<Rightarrow> (Inr (), s')) ?es () s = (Inr (), s')"
    "ok s'" "view s' = (view s)(cf := view s cf |` (- fst ` set ?es))"
    by (rule deletes [OF assms(1,2) \<open>\<forall>e \<in> set ?es. key_ok (fst e)\<close>]) (rule that)
  moreover have "view s cf |` (- dom (view s cf)) = Map.empty" by (auto simp: restrict_map_def fun_eq_iff)
  ultimately show thesis
    using that [of s'] assms(1,2) by (simp add: clear_column_family_def scan_eq prefix_ok_def split_def es)
qed

lemma all_cleared:
  assumes "ok s" "set cfs \<subseteq> set ALL_COLUMN_FAMILIES" "\<forall>cf \<in> set cfs. \<forall>k \<in> dom (view s cf). key_ok k"
  obtains s' where "try_fold_state (clear_column_family B) cfs () s = (Inr (), s')" "ok s'"
    "view s' = (\<lambda>cf. if cf \<in> set cfs then Map.empty else view s cf)"
  using assms
proof (induction cfs arbitrary: s thesis)
  case Nil
  then show ?case by simp
next
  case (Cons c cfs)
  obtain s1 where s1: "clear_column_family B c () s = (Inr (), s1)" "ok s1" "view s1 = (view s)(c := Map.empty)"
    using cleared [OF Cons.prems(2), of c] Cons.prems(3,4) by auto
  obtain s' where s': "try_fold_state (clear_column_family B) cfs () s1 = (Inr (), s')" "ok s'"
    "view s' = (\<lambda>cf. if cf \<in> set cfs then Map.empty else view s1 cf)"
  proof (rule Cons.IH [OF _ s1(2)])
    show "set cfs \<subseteq> set ALL_COLUMN_FAMILIES" using Cons.prems(3) by simp
    show "\<forall>cf \<in> set cfs. \<forall>k \<in> dom (view s1 cf). key_ok k" using Cons.prems(4) s1(3) by auto
  qed (rule that)
  with s1 show ?case by (intro Cons.prems(1) [of s']) auto
qed

end

section \<open>Batches written in portions\<close>

text \<open>What has been written followed by what is pending is the same as writing everything at once.\<close>

context reliable_backend
begin

lemma flushed:
  assumes "ok s" "list_all op_ok b"
  obtains b' s' where "restore_flush B b s = (Inr b', s')" "ok s'" "list_all op_ok b'"
    "apply_ops b' (view s') = apply_ops b (view s)"
proof (cases "length b \<ge> SNAPSHOT_RESTORE_BATCH_OPS")
  case True
  obtain s' where "kv_batch_write B s b = Inr s'" "ok s'" "view s' = apply_ops b (view s)"
    by (rule batch_ok [OF assms]) (rule that)
  with True that [of batch_new s'] show thesis by (simp add: restore_flush_def batch_new_def)
next
  case False
  with that [of b s] assms show thesis by (simp add: restore_flush_def)
qed

lemma portions:
  assumes "\<And>x b. x \<in> set xs \<Longrightarrow> f x b = restore_flush B (b @ ops x)" "\<And>x. x \<in> set xs \<Longrightarrow> list_all op_ok (ops x)"
    and "ok s" "list_all op_ok b"
  obtains b' s' where "try_fold_state f xs b s = (Inr b', s')" "ok s'" "list_all op_ok b'"
    "apply_ops b' (view s') = apply_ops (b @ concat (map ops xs)) (view s)"
  using assms
proof (induction xs arbitrary: b s thesis)
  case Nil
  then show ?case by simp
next
  case (Cons x xs)
  have "list_all op_ok (b @ ops x)" using Cons.prems(3) [of x] Cons.prems(5) by simp
  then obtain b1 s1 where s1: "restore_flush B (b @ ops x) s = (Inr b1, s1)" "ok s1" "list_all op_ok b1"
    "apply_ops b1 (view s1) = apply_ops (b @ ops x) (view s)"
    by (rule flushed [OF Cons.prems(4)]) (rule that)
  obtain b' s' where s': "try_fold_state f xs b1 s1 = (Inr b', s')" "ok s'" "list_all op_ok b'"
    "apply_ops b' (view s') = apply_ops (b1 @ concat (map ops xs)) (view s1)"
    by (rule Cons.IH [OF _ _ _ s1(2,3)]) (use Cons.prems(2,3) that in auto)
  from s' s1 Cons.prems(2) [of x b] show ?case by (intro Cons.prems(1) [of b' s']) simp_all
qed

end

section \<open>Checks\<close>

definition counts_ok :: "externals \<Rightarrow> coin_store_snapshot \<Rightarrow> bool" where
  "counts_ok X snap \<longleftrightarrow>
     total_coins snap = of_nat (length (sn_coins snap)) \<and> total_value snap = unspent_value (sn_coins snap)
     \<and> (\<forall>(i, r) \<in> set (sn_coins snap). record_coin_id X r = i)"

lemma restore_check_cases:
  "if counts_ok X snap then restore_check X snap = Inr () else \<exists>msg. restore_check X snap = Inl (StorageError msg)"
proof (cases "find (\<lambda>(i, r). i \<noteq> record_coin_id X r) (sn_coins snap)")
  case None
  then have "\<forall>(i, r) \<in> set (sn_coins snap). record_coin_id X r = i" by (auto simp: find_None_iff)
  with None show ?thesis by (auto simp: restore_check_def counts_ok_def)
next
  case (Some e)
  then have "\<not> (\<forall>(i, r) \<in> set (sn_coins snap). record_coin_id X r = i)" 
    by (auto simp: find_Some_iff) (metis (mono_tags, lifting) case_prodD nth_mem)
  with Some show ?thesis by (auto simp: restore_check_def counts_ok_def split: prod.splits)
qed

lemma restore_rows_eq:
  assumes "bincode_ok X"
  shows "restore_rows X rs = Inr (map (\<lambda>r. (r, row X r)) rs)"
proof -
  have "try_fold (\<lambda>rec rows. case serialize_coin_record_storage_bytes X rec of
      Inl e \<Rightarrow> Inl e | Inr bytes \<Rightarrow> Inr (rows @ [(rec, bytes)])) rs acc = Inr (acc @ map (\<lambda>r. (r, row X r)) rs)" for acc
    by (induction rs arbitrary: acc) (simp_all add: serialize_row [OF assms])
  then show ?thesis by (simp add: restore_rows_def)
qed

lemma snapshot_records:
  assumes "hm_ok coins" "\<forall>(i, r) \<in> set coins. record_coin_id X r = i"
  shows "record_map X (map snd coins) = map_of coins" "distinct (map (record_coin_id X) (map snd coins))"
    "map_of (rev (map (leaf_entry X) (map snd coins))) = leaf_table X (map_of coins)"
proof -
  have "map (\<lambda>r. (record_coin_id X r, r)) (map snd coins) = map (\<lambda>e. e) coins"
    unfolding map_map by (rule map_cong) (use assms(2) in auto)
  then show eq: "record_map X (map snd coins) = map_of coins" by (simp add: record_map_def)
  have ids: "map (record_coin_id X) (map snd coins) = map fst coins" using assms(2) by auto
  then show dist: "distinct (map (record_coin_id X) (map snd coins))" using assms(1) by (simp only: hm_ok_def)
  have "map fst (map (leaf_entry X) (map snd coins)) = map (record_coin_id X) (map snd coins)"
    by (simp add: leaf_entry_def)
  then have "map_of (rev (map (leaf_entry X) (map snd coins))) = map_of (map (leaf_entry X) (map snd coins))"
    using dist by (intro map_of_rev_distinct) (simp only:)
  then show "map_of (rev (map (leaf_entry X) (map snd coins))) = leaf_table X (map_of coins)"
    using leaf_table_record_map [of X "map snd coins"] eq by simp
qed

lemma restore_tree_eq:
  assumes "hm_ok coins" "\<forall>(i, r) \<in> set coins. record_coin_id X r = i"
  obtains t where "tree_ok X t" "map_of (leaves t) = leaf_table X (map_of coins)"
    "\<And>expected. restore_tree X (map (\<lambda>r. (r, row X r)) (map snd coins)) expected =
      (let root = merkle_root X (leaf_table X (map_of coins))
       in if root \<noteq> expected then Inl (StateRootMismatch expected root) else Inr t)"
proof -
  let ?es = "map (leaf_entry X) (map snd coins)"
  obtain t0 where t0: "batch_insert ?es (smt_new X) = Inr t0" by (auto simp: batch_insert_Inr smt_new_def)
  have leaves: "map_of (leaves t0) = leaf_table X (map_of coins)"
    using t0 snapshot_records(3) [OF assms] by (auto simp: batch_insert_Inr map_of_smt_insert_all smt_new_def)
  have t0_ok: "tree_ok X t0" by (rule tree_ok_batch(1) [OF tree_ok_new t0])
  obtain r t where t: "smt_root X t0 = (r, t)" by fastforce
  note root = smt_root_eq [OF t0_ok t]
  have es: "map (\<lambda>(rec, bytes). (record_coin_id X rec, merkle_leaf_hash X bytes)) (map (\<lambda>r. (r, row X r)) (map snd coins)) = ?es"
    by (simp add: leaf_entry_def)
  have "(if ?es \<noteq> [] then batch_insert ?es (smt_new X) else Inr (smt_new X)) = Inr t0"
    using t0 by (auto simp: batch_insert_Inr smt_insert_all_def)
  then have "restore_tree X (map (\<lambda>r. (r, row X r)) (map snd coins)) expected =
      (if r \<noteq> expected then Inl (StateRootMismatch expected r) else Inr t)" for expected
    unfolding restore_tree_def es by (simp only: Let_def sum.case t prod.case)
  with that [of t] root leaves show thesis by (simp add: Let_def)
qed

section \<open>The restored disk\<close>

definition snapshot_hint_ops :: "coin_id \<times> bytes32 \<Rightarrow> write_op list" where
  "snapshot_hint_ops = (\<lambda>(i, h). [Put CF_HINTS (as_ref i @ as_ref h) [], Put CF_HINTS_BY_VALUE (as_ref h @ as_ref i) []])"

definition snapshot_hints :: "coin_store_snapshot \<Rightarrow> (coin_id \<times> bytes) set" where
  "snapshot_hints snap = (\<lambda>(i, h). (i, as_ref h)) ` set (sn_hints snap)"

lemma snapshot_hint_ops_facts:
  "list_all op_ok (snapshot_hint_ops e)" "op_cf ` set (snapshot_hint_ops e) \<subseteq> hint_cfs"
  by (auto simp: snapshot_hint_ops_def op_ok_def key_ok_def hint_cfs_def split: prod.splits)

lemma hints_ok_snapshot:
  "hints_ok D Hs \<Longrightarrow> hints_ok (apply_ops (concat (map snapshot_hint_ops hs)) D) (Hs \<union> (\<lambda>(i, h). (i, as_ref h)) ` set hs)"
proof (induction hs arbitrary: D Hs)
  case Nil
  then show ?case by simp
next
  case (Cons e hs)
  obtain i h where e: "e = (i, h)" by fastforce
  have "hints_ok (apply_ops (snapshot_hint_ops e) D) (insert (i, as_ref h) Hs)"
    using hints_ok_add [OF Cons.prems, of "as_ref h" i] by (simp add: snapshot_hint_ops_def e)
  from Cons.IH [OF this] show ?case by (simp add: e)
qed

lemma restore_disk:
  fixes X snap rs D
  defines "D' \<equiv> apply_ops (restore_meta snap (concat (map (coin_ops X) rs) @ concat (map snapshot_hint_ops (sn_hints snap)))) D"
  assumes D: "\<And>cf. cf \<in> set ALL_COLUMN_FAMILIES \<Longrightarrow> D cf = Map.empty" and rs: "distinct (map (record_coin_id X) rs)"
  shows "disk_ok X D' (record_map X rs)" "hints_ok D' (snapshot_hints snap)" "D' CF_STATE_SNAPSHOTS = Map.empty"
    "D' CF_METADATA = [META_INITIALIZED \<mapsto> [1], META_HEIGHT \<mapsto> u64_to_le_bytes (sn_height snap),
       META_TIP_HASH \<mapsto> as_ref (sn_block_hash snap), META_TIMESTAMP \<mapsto> u64_to_le_bytes (sn_timestamp snap)]"
proof -
  let ?rows = "concat (map (coin_ops X) rs)" and ?hints = "concat (map snapshot_hint_ops (sn_hints snap))"
  have rows: "op_cf ` set ?rows \<subseteq> index_cfs" by (intro cfs_concat_map ops_cfs)
  have hints: "op_cf ` set ?hints \<subseteq> hint_cfs" by (intro cfs_concat_map snapshot_hint_ops_facts)
  have D': "D' cf = apply_ops ?hints (apply_ops ?rows D) cf" if "cf \<noteq> CF_METADATA" for cf
    using that by (simp add: D'_def restore_meta_def batch_put_def Let_def)
  have idx: "D' cf = apply_ops ?rows D cf" if "cf \<in> index_cfs" for cf
    using that D' [of cf] apply_ops_outside [OF hints, of cf] cf_classes by (metis disjoint_iff)
  have "disk_ok X D Map.empty" using D by (simp add: disk_ok_def index_is_def)
  then have "disk_ok X (apply_ops ?rows D) (Map.empty ++ record_map X rs)" using rs by (intro disk_ok_inserts) simp_all
  then show "disk_ok X D' (record_map X rs)" using disk_ok_cong [OF idx] by simp
  have "hints_ok D {}" using D by (simp add: hints_ok_def)
  moreover have "apply_ops ?rows D cf = D cf" if "cf \<in> hint_cfs" for cf
    using that cf_classes(5) by (intro apply_ops_outside [OF rows]) blast
  ultimately have "hints_ok (apply_ops ?rows D) {}" using hints_ok_cong by blast
  from hints_ok_snapshot [OF this, of "sn_hints snap"]
  have "hints_ok (apply_ops ?hints (apply_ops ?rows D)) (snapshot_hints snap)" by (simp add: snapshot_hints_def)
  moreover have "D' cf = apply_ops ?hints (apply_ops ?rows D) cf" if "cf \<in> hint_cfs" for cf
    using that cf_classes(2) by (intro D') blast
  ultimately show "hints_ok D' (snapshot_hints snap)" using hints_ok_cong by blast
  have rest: "apply_ops ?hints (apply_ops ?rows D) cf = D cf" if "cf \<notin> index_cfs" "cf \<notin> hint_cfs" for cf
    using apply_ops_outside [OF hints that(2)] apply_ops_outside [OF rows that(1)] by simp
  have "CF_STATE_SNAPSHOTS \<notin> index_cfs" "CF_STATE_SNAPSHOTS \<notin> hint_cfs" by (simp_all add: index_cfs_def hint_cfs_def)
  then show "D' CF_STATE_SNAPSHOTS = Map.empty" using D' [of CF_STATE_SNAPSHOTS] rest D by simp
  show "D' CF_METADATA = [META_INITIALIZED \<mapsto> [1], META_HEIGHT \<mapsto> u64_to_le_bytes (sn_height snap),
       META_TIP_HASH \<mapsto> as_ref (sn_block_hash snap), META_TIMESTAMP \<mapsto> u64_to_le_bytes (sn_timestamp snap)]"
    using rest [OF cf_classes(1,2)] D by (simp add: D'_def restore_meta_def batch_put_def Let_def)
qed

context reliable_backend
begin

lemma restore_written:
  assumes "ok s" "keys_ok (view s)"
  obtains s' D where "restore_write X B (map (\<lambda>r. (r, row X r)) rs) snap s = (Inr (), s')" "ok s'"
    "D = (\<lambda>cf. if cf \<in> set ALL_COLUMN_FAMILIES then Map.empty else view s cf)"
    "view s' = apply_ops (restore_meta snap (concat (map (coin_ops X) rs) @ concat (map snapshot_hint_ops (sn_hints snap)))) D"
proof -
  obtain s1 where s1: "try_fold_state (clear_column_family B) ALL_COLUMN_FAMILIES () s = (Inr (), s1)" "ok s1"
    "view s1 = (\<lambda>cf. if cf \<in> set ALL_COLUMN_FAMILIES then Map.empty else view s cf)"
    by (rule all_cleared [OF assms(1) subset_refl assms(2) [unfolded keys_ok_def]]) (rule that)
  let ?rows = "map (\<lambda>r. (r, row X r)) rs"
  have rec: "restore_record X B x b = restore_flush B (b @ coin_ops X (fst x))" if "x \<in> set ?rows" for x b
    using that by (auto simp: restore_record_def append_coin_ops)
  obtain b2 s2 where s2: "try_fold_state (restore_record X B) ?rows batch_new s1 = (Inr b2, s2)" "ok s2" "list_all op_ok b2"
    "apply_ops b2 (view s2) = apply_ops (batch_new @ concat (map (\<lambda>x. coin_ops X (fst x)) ?rows)) (view s1)"
    by (rule portions [where f = "restore_record X B" and xs = ?rows and ops = "\<lambda>x. coin_ops X (fst x)" and b = batch_new,
          OF rec ops_ok(1) s1(2)]) (assumption, simp add: batch_new_def, rule that)
  have hint: "restore_hint B x b = restore_flush B (b @ snapshot_hint_ops x)" for x b
    by (cases x) (simp add: restore_hint_def snapshot_hint_ops_def batch_put_def coin_hint_key_def hint_coin_key_def)
  obtain b3 s3 where s3: "try_fold_state (restore_hint B) (sn_hints snap) b2 s2 = (Inr b3, s3)" "ok s3" "list_all op_ok b3"
    "apply_ops b3 (view s3) = apply_ops (b2 @ concat (map snapshot_hint_ops (sn_hints snap))) (view s2)"
    by (rule portions [OF hint snapshot_hint_ops_facts(1) s2(2,3)]) (rule that)
  have meta: "restore_meta snap b = b @ restore_meta snap []" for b by (simp add: restore_meta_def batch_put_def Let_def)
  have "list_all op_ok (restore_meta snap b3)"
    using s3(3) by (simp add: restore_meta_def batch_put_def Let_def op_ok_def)
  then obtain s' where s': "kv_batch_write B s3 (restore_meta snap b3) = Inr s'" "ok s'"
    "view s' = apply_ops (restore_meta snap b3) (view s3)" by (rule batch_ok [OF s3(2)]) (rule that)
  have "restore_meta snap b3 \<noteq> []" by (simp add: restore_meta_def batch_put_def Let_def)
  then have "restore_write X B ?rows snap s = (Inr (), s')"
    using s1(1) s2(1) s3(1) s'(1) by (simp add: restore_write_def Let_def)
  moreover have "view s' = apply_ops (restore_meta snap (concat (map (coin_ops X) rs)
      @ concat (map snapshot_hint_ops (sn_hints snap)))) (view s1)"
    unfolding s'(3) meta [of b3] meta [of "_ @ _"] apply_ops_append s3(4) s2(4) by (simp add: batch_new_def comp_def)
  ultimately show thesis using that [of s' "view s1", OF _ s'(2) s1(3)] by simp
qed

lemma restore_ops_ok:
  "list_all op_ok (restore_meta snap (concat (map (coin_ops X) rs) @ concat (map snapshot_hint_ops hs)))"
  by (simp add: restore_meta_def batch_put_def Let_def list_all_concat_map ops_ok snapshot_hint_ops_facts op_ok_def)

lemma restore_ops_cfs:
  "op_cf ` set (restore_meta snap (concat (map (coin_ops X) rs) @ concat (map snapshot_hint_ops hs))) \<subseteq> state_cfs"
proof -
  have "op_cf ` set (concat (map (coin_ops X) rs)) \<subseteq> index_cfs" "op_cf ` set (concat (map snapshot_hint_ops hs)) \<subseteq> hint_cfs"
    by (intro cfs_concat_map ops_cfs snapshot_hint_ops_facts)+
  moreover have meta: "restore_meta snap b = b @ [Put CF_METADATA META_INITIALIZED [1], Put CF_METADATA META_HEIGHT (u64_to_le_bytes (sn_height snap)),
      Put CF_METADATA META_TIP_HASH (as_ref (sn_block_hash snap)), Put CF_METADATA META_TIMESTAMP (u64_to_le_bytes (sn_timestamp snap))]" for b
    by (simp add: restore_meta_def batch_put_def Let_def)
  ultimately show ?thesis
    unfolding meta set_append image_Un by (intro Un_least) (simp_all add: state_cfsI)
qed

lemma restored:
  assumes "bincode_ok X" "ok (backend S)" "keys_ok (view (backend S))" "hm_ok (sn_coins snap)" "counts_ok X snap"
    "sn_state_root snap = merkle_root X (leaf_table X (map_of (sn_coins snap)))"
    "table_ok X (sn_height snap) (map_of (sn_coins snap))"
  obtains S' where "restore X B snap S = (Inr (), S')" "store_ok X view ok S' (map_of (sn_coins snap)) (snapshot_hints snap)"
    "initialized S'" "height S' = sn_height snap" "tip_hash S' = sn_block_hash snap" "cs_timestamp S' = sn_timestamp snap"
    "cs_config S' = cs_config S" "view (backend S') CF_STATE_SNAPSHOTS = Map.empty" "keys_ok (view (backend S'))"
    "meta_typed (view (backend S'))" "others_empty (view (backend S)) \<Longrightarrow> others_empty (view (backend S'))"
proof -
  have ids: "\<forall>(i, r) \<in> set (sn_coins snap). record_coin_id X r = i" using assms(5) by (simp add: counts_ok_def)
  let ?rs = "map snd (sn_coins snap)" and ?tbl = "map_of (sn_coins snap)"
  obtain t where t: "tree_ok X t" "map_of (leaves t) = leaf_table X ?tbl"
    "\<And>expected. restore_tree X (map (\<lambda>r. (r, row X r)) ?rs) expected =
      (let root = merkle_root X (leaf_table X ?tbl)
       in if root \<noteq> expected then Inl (StateRootMismatch expected root) else Inr t)"
    by (rule restore_tree_eq [OF assms(4) ids]) (rule that)
  obtain s' D where s': "restore_write X B (map (\<lambda>r. (r, row X r)) ?rs) snap (backend S) = (Inr (), s')" "ok s'"
    "D = (\<lambda>cf. if cf \<in> set ALL_COLUMN_FAMILIES then Map.empty else view (backend S) cf)"
    "view s' = apply_ops (restore_meta snap (concat (map (coin_ops X) ?rs) @ concat (map snapshot_hint_ops (sn_hints snap)))) D"
    by (rule restore_written [OF assms(2,3)]) (rule that)
  have D: "D cf = Map.empty" if "cf \<in> set ALL_COLUMN_FAMILIES" for cf using s'(3) that by simp
  note disk = restore_disk [where D = D and snap = snap, OF D snapshot_records(2) [OF assms(4) ids], folded s'(4),
      unfolded snapshot_records(1) [OF assms(4) ids]]
  let ?ids = "set (map (record_coin_id X) (filter (\<lambda>r. spent_height r = None) ?rs))"
  let ?S = "S\<lparr>backend := s', merkle_tree := t, height := sn_height snap, tip_hash := sn_block_hash snap,
     cs_timestamp := sn_timestamp snap, initialized := True, unspent_ids := ?ids\<rparr>"
  have "restore X B snap S = (Inr (), ?S)"
    using restore_check_cases [of X snap] assms(5,6) s'(1)
    by (simp add: restore_def restore_rows_eq [OF assms(1)] t(3) Let_def del: map_map)
  moreover have "?ids = unspent_of ?tbl"
    using ids assms(4) by (force simp: unspent_of_def hm_ok_def map_of_eq_Some_iff image_iff)
  moreover have "meta_ok (view s') ?S" using disk(4) by (simp add: meta_ok_def)
  moreover have "keys_ok (view s')"
    unfolding s'(4) by (rule keys_ok_apply_ops [OF restore_ops_ok]) (simp add: keys_ok_def D)
  moreover have "meta_typed (view s')" using disk(4) by (auto simp: meta_typed_def split: if_splits)
  moreover have "others_empty (view s')" if "others_empty (view (backend S))"
    using that unfolding others_empty_def s'(4) by (simp add: apply_ops_outside [OF restore_ops_cfs] s'(3) del: map_map)
  ultimately show thesis
    using that [of ?S] disk s'(2) t(1,2) assms(7) by (simp add: store_ok_def)
qed

end

section \<open>Properties of restoring\<close>

text \<open>
  C22. Restoring a good snapshot. Let the coin map be keyed by coin id, the totals and the state root be
  those of the map and the heights within the snapshot's height. Then \<open>restore\<close> succeeds on any store over
  a reliable backend, whatever it held before, and leaves an initialised store that represents exactly the
  coin map and the hints of the snapshot, at its height, tip hash and timestamp; no checkpoint survives.
  The portions of 50,000 operations in which the rows are written make no difference.
\<close>

theorem restore_refines:
  assumes "reliable_backend B view ok" "bincode_ok X" "ok (backend S)" "keys_ok (view (backend S))"
    "hm_ok (sn_coins snap)" "counts_ok X snap"
    "sn_state_root snap = merkle_root X (leaf_table X (map_of (sn_coins snap)))"
    "table_ok X (sn_height snap) (map_of (sn_coins snap))"
  shows "\<exists>S'. restore X B snap S = (Inr (), S') \<and> store_ok X view ok S' (map_of (sn_coins snap)) (snapshot_hints snap)
    \<and> initialized S' \<and> height S' = sn_height snap \<and> tip_hash S' = sn_block_hash snap
    \<and> cs_timestamp S' = sn_timestamp snap \<and> view (backend S') CF_STATE_SNAPSHOTS = Map.empty"
  by (rule reliable_backend.restored [OF assms]) blast

lemma sample_store_keys: "mem_ok (backend sample_store)" "keys_ok (rocks_view mem_rocks mem_tab (backend sample_store))"
  using sample_store_ok by (simp_all add: store_ok_def keys_ok_def sample_store_def)

definition sample_snapshot :: coin_store_snapshot where
  "sample_snapshot =
     \<lparr>sn_height = 3, sn_block_hash = 77, sn_state_root = merkle_root sample_externals
        (leaf_table sample_externals [10 \<mapsto> coin_record_new (sample_coin 7) 2 5 False]),
      sn_timestamp = 6, sn_coins = [(10, coin_record_new (sample_coin 7) 2 5 False)], sn_hints = [(10, 9)],
      total_coins = 1, total_value = 7\<rparr>"

lemma sample_snapshot_good:
  "hm_ok (sn_coins sample_snapshot)" "counts_ok sample_externals sample_snapshot"
  "map_of (sn_coins sample_snapshot) = [10 \<mapsto> coin_record_new (sample_coin 7) 2 5 False]"
  "sn_height sample_snapshot = 3" "sn_hints sample_snapshot = [(10, 9)]"
  "table_ok sample_externals 3 [10 \<mapsto> coin_record_new (sample_coin 7) 2 5 False]"
  by (simp_all add: sample_snapshot_def hm_ok_def counts_ok_def unspent_value_def table_ok_def)
    (simp_all add: coin_record_new_def sample_coin_def)

theorem restore_refines_witness:
  "\<exists>S'. restore sample_externals (rocks_backend mem_rocks) sample_snapshot sample_store = (Inr (), S')
     \<and> store_ok sample_externals (rocks_view mem_rocks mem_tab) mem_ok S'
         [10 \<mapsto> coin_record_new (sample_coin 7) 2 5 False] {(10, as_ref 9)} \<and> height S' = 3"
proof -
  have "sn_state_root sample_snapshot
      = merkle_root sample_externals (leaf_table sample_externals (map_of (sn_coins sample_snapshot)))"
    unfolding sample_snapshot_good(3) by (simp add: sample_snapshot_def)
  moreover have "snapshot_hints sample_snapshot = {(10, as_ref 9)}" by (simp add: snapshot_hints_def sample_snapshot_good)
  ultimately show ?thesis
    using restore_refines [OF mem_rocks.rocks.reliable_backend_axioms, OF bincode_ok_sample sample_store_keys
        sample_snapshot_good(1,2)] sample_snapshot_good(3-6) by (metis (no_types, lifting))
qed

lemma restore_refused:
  assumes "bincode_ok X" "hm_ok (sn_coins snap)" "counts_ok X snap"
    "sn_state_root snap \<noteq> merkle_root X (leaf_table X (map_of (sn_coins snap)))"
  shows "restore X B snap S = (Inl (StateRootMismatch (sn_state_root snap)
      (merkle_root X (leaf_table X (map_of (sn_coins snap))))), S)"
proof -
  have "\<forall>(i, r) \<in> set (sn_coins snap). record_coin_id X r = i" using assms(3) by (simp add: counts_ok_def)
  then obtain t where "\<And>expected. restore_tree X (map (\<lambda>r. (r, row X r)) (map snd (sn_coins snap))) expected =
      (let root = merkle_root X (leaf_table X (map_of (sn_coins snap)))
       in if root \<noteq> expected then Inl (StateRootMismatch expected root) else Inr t)"
    by (rule restore_tree_eq [OF assms(2)]) (rule that)
  with assms(3,4) restore_check_cases [of X snap] show ?thesis
    by (auto simp: restore_def restore_rows_eq [OF assms(1)] Let_def simp del: map_map)
qed

lemma restore_unchecked: "\<not> counts_ok X snap \<Longrightarrow> \<exists>msg. restore X B snap S = (Inl (StorageError msg), S)"
  using restore_check_cases [of X snap] by (auto simp: restore_def)

lemma restore_unchanged:
  assumes "bincode_ok X" "hm_ok (sn_coins snap)"
    "\<not> (counts_ok X snap \<and> sn_state_root snap = merkle_root X (leaf_table X (map_of (sn_coins snap))))"
  shows "snd (restore X B snap S) = S"
  using assms restore_refused [OF assms(1,2)] restore_unchecked by (metis snd_conv)

text \<open>
  C23. Restoring a bad snapshot. If a total does not match or a key is not the id of its record, \<open>restore\<close>
  fails with a storage error; if only the state root does not match, with \<open>StateRootMismatch\<close>; in both
  cases nothing has been written and the store is as before.
\<close>

theorem restore_rejects:
  assumes "bincode_ok X" "hm_ok (sn_coins snap)"
  shows "(\<not> counts_ok X snap \<longrightarrow> (\<exists>msg. restore X B snap S = (Inl (StorageError msg), S)))
    \<and> (counts_ok X snap \<and> sn_state_root snap \<noteq> merkle_root X (leaf_table X (map_of (sn_coins snap))) \<longrightarrow>
        restore X B snap S = (Inl (StateRootMismatch (sn_state_root snap)
          (merkle_root X (leaf_table X (map_of (sn_coins snap))))), S))"
  using restore_refused [OF assms] restore_unchecked by blast

theorem restore_rejects_witness:
  "(\<exists>msg. restore sample_externals (rocks_backend mem_rocks) (sample_snapshot\<lparr>total_coins := 2\<rparr>) sample_store
      = (Inl (StorageError msg), sample_store))
    \<and> restore sample_externals (rocks_backend mem_rocks)
        (sample_snapshot\<lparr>sn_state_root := sn_state_root sample_snapshot + 1\<rparr>) sample_store
      = (Inl (StateRootMismatch (sn_state_root sample_snapshot + 1) (sn_state_root sample_snapshot)), sample_store)"
  (is "?L \<and> ?R")
proof
  let ?bad = "sample_snapshot\<lparr>total_coins := 2\<rparr>"
  have "hm_ok (sn_coins ?bad)" "\<not> counts_ok sample_externals ?bad"
    using sample_snapshot_good(1) by (simp_all add: counts_ok_def) (simp add: sample_snapshot_def)
  then show ?L using restore_rejects [OF bincode_ok_sample] by blast
  let ?bad = "sample_snapshot\<lparr>sn_state_root := sn_state_root sample_snapshot + 1\<rparr>"
  have "merkle_root sample_externals (leaf_table sample_externals (map_of (sn_coins sample_snapshot)))
      = sn_state_root sample_snapshot" unfolding sample_snapshot_good(3) by (simp add: sample_snapshot_def)
  moreover have "hm_ok (sn_coins ?bad)" "counts_ok sample_externals ?bad"
    using sample_snapshot_good(1,2) by (simp_all add: counts_ok_def)
  ultimately show ?R using restore_rejects [OF bincode_ok_sample, of ?bad] by simp
qed

lemma snapshot_of_good:
  assumes "finite (dom tbl)" "table_ok X (height S) tbl"
  shows "hm_ok (sn_coins (snapshot_of X S tbl))" "counts_ok X (snapshot_of X S tbl)" "map_of (sn_coins (snapshot_of X S tbl)) = tbl"
    "sn_state_root (snapshot_of X S tbl) = merkle_root X (leaf_table X tbl)" "snapshot_hints (snapshot_of X S tbl) = {}"
  using distinct_table_rows [of tbl] set_table_rows [OF assms(1)] table_ok_id [OF assms(2)]
  by (auto simp: snapshot_of_def hm_ok_def counts_ok_def unspent_value_rows [OF assms(1)] length_table_rows snapshot_hints_def
      map_of_table_rows [OF assms(1)])

text \<open>
  C21. Snapshot and restore. A snapshot of an initialised store that represents a table restores into any
  store, over the same or another reliable backend, and the restored store represents the same table at the
  same height, tip hash and timestamp; the hints of the original are not part of the snapshot and the
  restored store has none.
\<close>

theorem snapshot_restore_roundtrip:
  assumes "reliable_backend B view ok" "bincode_ok X" "store_ok X view ok S tbl Hs" "initialized S"
    and "reliable_backend B' view' ok'" "ok' (backend S0)" "keys_ok (view' (backend S0))"
  shows "\<exists>snap S'. snapshot X B S = Inr snap \<and> restore X B' snap S0 = (Inr (), S')
    \<and> store_ok X view' ok' S' tbl {} \<and> height S' = height S \<and> tip_hash S' = tip_hash S
    \<and> cs_timestamp S' = cs_timestamp S"
proof -
  note rep = reliable_backend.represented [OF assms(1-3)]
  note good = snapshot_of_good [OF rep(2,6)]
  let ?snap = "snapshot_of X S tbl"
  have tab: "table_ok X (sn_height ?snap) (map_of (sn_coins ?snap))"
    unfolding good(3) using rep(6) by (simp add: snapshot_of_def)
  have root: "sn_state_root ?snap = merkle_root X (leaf_table X (map_of (sn_coins ?snap)))"
    by (simp only: good(3,4))
  obtain S' where S': "restore X B' ?snap S0 = (Inr (), S')"
    "store_ok X view' ok' S' (map_of (sn_coins ?snap)) (snapshot_hints ?snap)"
    "height S' = sn_height ?snap" "tip_hash S' = sn_block_hash ?snap" "cs_timestamp S' = sn_timestamp ?snap"
    by (rule reliable_backend.restored [OF assms(5,2,6,7) good(1,2) root tab]) (rule that)
  moreover have "height S' = height S" "tip_hash S' = tip_hash S" "cs_timestamp S' = cs_timestamp S"
    using S'(3-5) by (simp_all add: snapshot_of_def)
  ultimately show ?thesis
    using reliable_backend.snapshot_taken [OF assms(1-4)] good(3,5) by auto
qed

theorem snapshot_restore_roundtrip_witness:
  "\<exists>S snap S'. snapshot sample_externals (rocks_backend mem_rocks) S = Inr snap
     \<and> restore sample_externals (rocks_backend mem_rocks) snap sample_store = (Inr (), S')
     \<and> store_ok sample_externals (rocks_view mem_rocks mem_tab) mem_ok S' (genesis_table sample_externals 5 sample_coins) {}"
proof (rule sample_chain)
  fix S
  assume "store_ok sample_externals (rocks_view mem_rocks mem_tab) mem_ok S (genesis_table sample_externals 5 sample_coins) {}"
    and "initialized S"
  then show ?thesis
    using snapshot_restore_roundtrip [OF mem_rocks.rocks.reliable_backend_axioms, OF bincode_ok_sample _ _
        mem_rocks.rocks.reliable_backend_axioms, OF _ _ sample_store_keys] by blast
qed

end
