(* ===== verification/Checkpoints.thy ===== *)
theory Checkpoints
  imports Restore
begin

text \<open>
  Retained checkpoints: saving keeps the newest ones, up to the configured limit, and a kept checkpoint
  loads back as the snapshot that was saved.
\<close>

section \<open>Heights of the stored checkpoints\<close>

definition checkpoints :: "disk \<Rightarrow> u64 set" where
  "checkpoints D = {h. D CF_STATE_SNAPSHOTS (snapshot_key h) \<noteq> None}"

definition checkpoints_ok :: "disk \<Rightarrow> bool" where
  "checkpoints_ok D \<longleftrightarrow> dom (D CF_STATE_SNAPSHOTS) \<subseteq> range snapshot_key"

text \<open>The \<open>n\<close> greatest elements; 0 stands for no limit.\<close>

definition newest :: "nat \<Rightarrow> u64 set \<Rightarrow> u64 set" where
  "newest n H = (if n = 0 then H else set (drop (card H - n) (sorted_list_of_set H)))"

lemma dom_checkpoints: "checkpoints_ok D \<Longrightarrow> dom (D CF_STATE_SNAPSHOTS) = snapshot_key ` checkpoints D"
  by (auto simp: checkpoints_ok_def checkpoints_def)

lemma inj_snapshot_key: "inj_on snapshot_key A"
  by (simp add: inj_on_def)

lemma finite_checkpoints: "checkpoints_ok D \<Longrightarrow> finite (dom (D CF_STATE_SNAPSHOTS)) \<Longrightarrow> finite (checkpoints D)"
  using dom_checkpoints inj_snapshot_key by (metis finite_image_iff)

lemma those_map: "\<forall>x \<in> set xs. f x = Some (g x) \<Longrightarrow> those (map f xs) = Some (map g xs)"
  by (induction xs) auto

lemma scan_checkpoints:
  assumes "checkpoints_ok D" "finite (dom (D CF_STATE_SNAPSHOTS))"
  shows "snapshot_heights (scan_entries (D CF_STATE_SNAPSHOTS) []) = Some (sorted_list_of_set (checkpoints D))"
    "length (scan_entries (D CF_STATE_SNAPSHOTS) []) = card (checkpoints D)"
proof -
  let ?es = "scan_entries (D CF_STATE_SNAPSHOTS) []" and ?h = "\<lambda>e. u64_from_be_bytes (fst e)"
  have keys: "fst ` set ?es = snapshot_key ` checkpoints D"
    using set_scan_entries [OF assms(2), of "[]"] dom_checkpoints [OF assms(1)] by (force simp: image_iff)
  have "(\<lambda>(k, _). height_from_snapshot_key k) e = Some (?h e)" if "e \<in> set ?es" for e
  proof -
    have "fst e \<in> snapshot_key ` checkpoints D" unfolding keys [symmetric] using that by (rule imageI)
    then obtain h where "fst e = snapshot_key h" by (rule imageE)
    moreover have "u64_from_be_bytes (snapshot_key h) = h" by (simp add: snapshot_key_def)
    ultimately show ?thesis by (simp add: split_def)
  qed
  then have "those (map (\<lambda>(k, _). height_from_snapshot_key k) ?es) = Some (map ?h ?es)" by (intro those_map ballI)
  moreover have "set (map ?h ?es) = checkpoints D"
    using keys by (simp add: image_image [symmetric, of u64_from_be_bytes fst]) (simp add: image_image snapshot_key_def)
  moreover have "distinct (map ?h ?es)"
  proof -
    have "inj_on u64_from_be_bytes (set (map fst ?es))" using keys by (auto simp: inj_on_def snapshot_key_def)
    then have "distinct (map u64_from_be_bytes (map fst ?es))" using distinct_scan_entries by (simp only: distinct_map)
    then show ?thesis by (simp add: comp_def)
  qed
  ultimately show "snapshot_heights ?es = Some (sorted_list_of_set (checkpoints D))"
    using sorted_list_of_set_sort_remdups [of "map ?h ?es"]
    by (simp only: snapshot_heights_def distinct_remdups_id option.map)
  show "length ?es = card (checkpoints D)"
    using length_scan_entries [OF assms(2)] dom_checkpoints [OF assms(1)] by (simp add: card_image inj_snapshot_key)
qed

lemma newest_subset: "finite H \<Longrightarrow> newest n H \<subseteq> H"
  using set_drop_subset [of "card H - n" "sorted_list_of_set H"] by (simp add: newest_def)

lemma newest_small: "finite H \<Longrightarrow> card H \<le> n \<Longrightarrow> newest n H = H"
  by (simp add: newest_def)

lemma newest_pruned:
  assumes "finite H" "n \<noteq> 0"
  shows "newest n H = H - set (take (card H - n) (sorted_list_of_set H))"
proof -
  let ?hs = "sorted_list_of_set H"
  have "set (take (card H - n) ?hs) \<inter> set (drop (card H - n) ?hs) = {}"
    by (rule set_take_disj_set_drop_if_distinct) simp_all
  moreover have "set (take (card H - n) ?hs) \<union> set (drop (card H - n) ?hs) = H"
    using assms(1) by (metis append_take_drop_id set_append set_sorted_list_of_set)
  ultimately show ?thesis using assms(2) by (auto simp: newest_def)
qed

text \<open>The kept heights are at least those that are dropped, and there are at most \<open>n\<close> of them.\<close>

lemma newest_greatest:
  assumes "finite H" "h \<in> newest n H" "h' \<in> H" "h' \<notin> newest n H"
  shows "h' < h"
proof -
  let ?hs = "sorted_list_of_set H" and ?k = "card H - n"
  have n: "n \<noteq> 0" using assms(3,4) by (cases "n = 0") (auto simp: newest_def)
  have "h' \<in> set (take ?k ?hs)" "h \<in> set (drop ?k ?hs)"
    using assms n newest_pruned [OF assms(1) n] by (auto simp: newest_def)
  moreover have "sorted_wrt (<) (take ?k ?hs @ drop ?k ?hs)" by (simp add: strict_sorted_list_of_set)
  ultimately show ?thesis by (simp only: sorted_wrt_append)
qed

lemma card_newest: "finite H \<Longrightarrow> n \<noteq> 0 \<Longrightarrow> card (newest n H) = min n (card H)"
  using distinct_card [of "drop (card H - n) (sorted_list_of_set H)"] by (simp add: newest_def)

lemma last_sorted_list_of_set:
  assumes "H \<noteq> {}" "finite H"
  shows "last (sorted_list_of_set H) = Max H"
proof -
  let ?hs = "sorted_list_of_set H"
  have ne: "?hs \<noteq> []" using assms by simp
  have "sorted (butlast ?hs @ [last ?hs])" unfolding append_butlast_last_id [OF ne] by simp
  then have "h \<le> last ?hs" if "h \<in> set (butlast ?hs @ [last ?hs])" for h using that by (auto simp: sorted_append)
  then have "\<forall>h \<in> H. h \<le> last ?hs" unfolding append_butlast_last_id [OF ne] using assms(2) by simp
  moreover have "last ?hs \<in> H" using last_in_set [OF ne] assms(2) by simp
  ultimately show ?thesis using assms(2) by (intro Max_eqI [symmetric]) auto
qed

section \<open>Pruning and saving\<close>

context reliable_backend
begin

lemma listed:
  assumes "ok s" "checkpoints_ok (view s)"
  shows "kv_prefix_scan B s CF_STATE_SNAPSHOTS [] = Inr (scan_entries (view s CF_STATE_SNAPSHOTS) [])"
    "snapshot_heights (scan_entries (view s CF_STATE_SNAPSHOTS) []) = Some (sorted_list_of_set (checkpoints (view s)))"
    "length (scan_entries (view s CF_STATE_SNAPSHOTS) []) = card (checkpoints (view s))" "finite (checkpoints (view s))"
  using assms scan_eq scan_checkpoints [OF assms(2) view_finite [OF assms(1)]]
    finite_checkpoints [OF assms(2) view_finite [OF assms(1)]] by (simp_all add: prefix_ok_def)

lemma pruned:
  assumes "ok s" "checkpoints_ok (view s)"
  obtains s' where "prune_snapshots_to_limit B n s = (Inr (), s')" "ok s'"
    "view s' = (view s)(CF_STATE_SNAPSHOTS := view s CF_STATE_SNAPSHOTS |` (snapshot_key ` newest n (checkpoints (view s))))"
proof -
  note list = listed [OF assms]
  let ?H = "checkpoints (view s)" and ?m = "view s CF_STATE_SNAPSHOTS"
  have dom: "dom ?m = snapshot_key ` ?H" by (rule dom_checkpoints [OF assms(2)])
  show thesis
  proof (cases "n = 0 \<or> card ?H \<le> n")
    case True
    then have "prune_snapshots_to_limit B n s = (Inr (), s)"
      using list(1,3) by (auto simp: prune_snapshots_to_limit_def)
    moreover have "newest n ?H = ?H" using True newest_small [OF list(4)] by (auto simp: newest_def)
    moreover have "?m |` (snapshot_key ` ?H) = ?m" unfolding dom [symmetric] by (simp add: restrict_map_def fun_eq_iff domIff)
    ultimately show thesis using that [of s] assms(1) by simp
  next
    case False
    let ?old = "take (card ?H - n) (sorted_list_of_set ?H)"
    obtain s' where s': "try_fold_state (\<lambda>h _ s. case lift_storage (kv_delete B s CF_STATE_SNAPSHOTS (snapshot_key h)) of
        Inl e \<Rightarrow> (Inl e, s) | Inr s' \<Rightarrow> (Inr (), s')) ?old () s = (Inr (), s')" "ok s'"
      "view s' = (view s)(CF_STATE_SNAPSHOTS := ?m |` (- snapshot_key ` set ?old))"
      by (rule deletes [OF assms(1), of CF_STATE_SNAPSHOTS ?old snapshot_key]) (simp, simp, rule that)
    have "prune_snapshots_to_limit B n s = (Inr (), s')"
      using False list s'(1) by (simp add: prune_snapshots_to_limit_def)
    moreover have "snapshot_key ` newest n ?H = dom ?m - snapshot_key ` set ?old"
      using False newest_pruned [OF list(4), of n] by (simp add: dom image_set_diff inj_snapshot_key)
    then have "?m |` (- snapshot_key ` set ?old) = ?m |` (snapshot_key ` newest n ?H)"
      by (auto simp: restrict_map_def fun_eq_iff domIff)
    ultimately show thesis using that [of s'] s'(2,3) by simp
  qed
qed

lemma load_eq:
  assumes "ok (backend S)"
  shows "load_snapshot X B S h = (case view (backend S) CF_STATE_SNAPSHOTS (snapshot_key h) of
      None \<Rightarrow> Inr None
    | Some b \<Rightarrow> (case decode_coin_store_snapshot_storage X b of
        Inl e \<Rightarrow> Inl (from_bincode_deserialize e) | Inr snap \<Rightarrow> Inr (Some snap)))"
  using assms by (simp add: load_snapshot_def get_eq split: option.splits)

lemma saved:
  assumes "bincode_ok X" "snapshot_codec_ok X" "store_ok X view ok S tbl Hs" "initialized S" "checkpoints_ok (view (backend S))"
  obtains b s' where "save_snapshot X B S = (Inr (), S\<lparr>backend := s'\<rparr>)" "ok s'"
    "view s' = (view (backend S))(CF_STATE_SNAPSHOTS := (view (backend S) CF_STATE_SNAPSHOTS)(snapshot_key (height S) \<mapsto> b)
       |` (snapshot_key ` newest (max_snapshots (cs_config S)) (insert (height S) (checkpoints (view (backend S))))))"
    "\<exists>snap. decode_coin_store_snapshot_storage X b = Inr snap \<and> same_snapshot (snapshot_of X S tbl) snap"
proof -
  note rep = represented [OF assms(1,3)]
  let ?snap = "snapshot_of X S tbl" and ?k = "snapshot_key (height S)" and ?n = "max_snapshots (cs_config S)"
  obtain b snap where b: "kv_serialize_snapshot X ?snap = Inr b" "kv_deserialize_snapshot X b = Inr snap" "same_snapshot ?snap snap"
    using assms(2) snapshot_of_good(1) [OF rep(2,6)] by (auto simp: snapshot_codec_ok_def)
  have dec: "decode_coin_store_snapshot_storage X b = Inr snap"
    using b(2) by (simp add: decode_coin_store_snapshot_storage_def decode_coin_store_snapshot_def)
  obtain s1 where s1: "kv_put B (backend S) CF_STATE_SNAPSHOTS ?k b = Inr s1" "ok s1"
    "view s1 = apply_op (Put CF_STATE_SNAPSHOTS ?k b) (view (backend S))"
    by (rule put_ok [OF rep(3), of CF_STATE_SNAPSHOTS ?k b]) (simp, simp, rule that)
  have cps: "checkpoints (view s1) = insert (height S) (checkpoints (view (backend S)))" "checkpoints_ok (view s1)"
    using assms(5) s1(3) by (auto simp: checkpoints_def checkpoints_ok_def split: if_splits)
  obtain s' where s': "prune_snapshots_to_limit B ?n s1 = (Inr (), s')" "ok s'"
    "view s' = (view s1)(CF_STATE_SNAPSHOTS := view s1 CF_STATE_SNAPSHOTS |` (snapshot_key ` newest ?n (checkpoints (view s1))))"
    by (rule pruned [OF s1(2) cps(2)]) (rule that)
  have "save_snapshot X B S = (Inr (), S\<lparr>backend := s'\<rparr>)"
    using snapshot_taken [OF assms(1,3,4)] b(1) s1(1) s'(1) assms(4)
    by (simp add: save_snapshot_def encode_coin_store_snapshot_def)
  then show thesis
    using that [of s' b] s'(2,3) s1(3) cps(1) dec b(3) by simp
qed

end

lemma store_ok_checkpoints:
  assumes "store_ok X view ok S tbl Hs" "ok s'" "\<And>cf. cf \<noteq> CF_STATE_SNAPSHOTS \<Longrightarrow> view s' cf = view (backend S) cf"
  shows "store_ok X view ok (S\<lparr>backend := s'\<rparr>) tbl Hs"
proof -
  have "disk_ok X (view s') tbl \<longleftrightarrow> disk_ok X (view (backend S)) tbl" "hints_ok (view s') Hs \<longleftrightarrow> hints_ok (view (backend S)) Hs"
    using assms(3) by (auto intro!: disk_ok_cong hints_ok_cong simp: index_cfs_def hint_cfs_def)
  with assms show ?thesis by (simp add: store_ok_def meta_ok_def)
qed

section \<open>The row of a checkpoint\<close>

text \<open>
  A checkpoint decodes to a snapshot of the height in its key that passes every check of \<open>restore\<close>: its
  totals, its coin ids and its state root are those of its coin map, whose heights are within its own.
\<close>

definition checkpoint_row :: "externals \<Rightarrow> bytes \<Rightarrow> bytes \<Rightarrow> bool" where
  "checkpoint_row X k v \<longleftrightarrow> (case decode_coin_store_snapshot_storage X v of
       Inl e \<Rightarrow> False
     | Inr snap \<Rightarrow> k = snapshot_key (sn_height snap) \<and> hm_ok (sn_coins snap) \<and> sn_hints snap = []
         \<and> restore_check X snap = Inr ()
         \<and> sn_state_root snap = merkle_root X (leaf_table X (map_of (sn_coins snap)))
         \<and> table_ok X (sn_height snap) (map_of (sn_coins snap)))"

definition checkpoints_typed :: "externals \<Rightarrow> disk \<Rightarrow> bool" where
  "checkpoints_typed X D \<longleftrightarrow> (\<forall>k v. D CF_STATE_SNAPSHOTS k = Some v \<longrightarrow> checkpoint_row X k v)"

lemma unspent_value_set:
  assumes "hm_ok coins"
  shows "unspent_value coins = (\<Sum>(i, r) \<in> {(i, r) \<in> set coins. spent_height r = None}. amount (cr_coin r))"
proof -
  have "distinct (filter (\<lambda>e. spent_height (snd e) = None) coins)" using assms by (simp add: hm_ok_def distinct_map)
  from sum_list_distinct_conv_sum_set [OF this, of "\<lambda>e. amount (cr_coin (snd e))"]
  show ?thesis by (simp add: unspent_value_def filter_map comp_def split_def)
qed

lemma counts_ok_same:
  assumes "same_snapshot snap snap'" "hm_ok (sn_coins snap)" "counts_ok X snap"
  shows "counts_ok X snap'"
proof -
  have ok: "hm_ok (sn_coins snap')" and rest: "snap'\<lparr>sn_coins := sn_coins snap\<rparr> = snap"
    using assms(1) by (simp_all add: same_snapshot_def)
  have eq: "set (sn_coins snap') = set (sn_coins snap)"
    using assms(1) map_of_eq_set [OF ok assms(2)] by (simp add: same_snapshot_def)
  have "distinct (sn_coins snap)" "distinct (sn_coins snap')" using ok assms(2) by (simp_all add: hm_ok_def distinct_map)
  then have "length (sn_coins snap') = length (sn_coins snap)" using eq by (metis distinct_card)
  moreover have "unspent_value (sn_coins snap') = unspent_value (sn_coins snap)"
    by (simp add: unspent_value_set ok assms(2) eq)
  moreover have "total_coins snap' = total_coins snap" "total_value snap' = total_value snap"
    using arg_cong [OF rest, of total_coins] arg_cong [OF rest, of total_value] by simp_all
  ultimately show ?thesis using assms(3) eq by (simp add: counts_ok_def)
qed

lemma saved_row:
  assumes "finite (dom tbl)" "table_ok X (height S) tbl"
    and "decode_coin_store_snapshot_storage X b = Inr snap" "same_snapshot (snapshot_of X S tbl) snap"
  shows "checkpoint_row X (snapshot_key (height S)) b"
proof -
  note good = snapshot_of_good [of tbl X S, OF assms(1,2)]
  have "counts_ok X snap" by (rule counts_ok_same [OF assms(4) good(1,2)])
  then have "restore_check X snap = Inr ()" using restore_check_cases [of X snap] by simp
  moreover have rest: "snap\<lparr>sn_coins := sn_coins (snapshot_of X S tbl)\<rparr> = snapshot_of X S tbl"
    and coins: "hm_ok (sn_coins snap)" "map_of (sn_coins snap) = tbl"
    using assms(4) good(3) by (simp_all add: same_snapshot_def)
  have "sn_height snap = height S" "sn_hints snap = []" "sn_state_root snap = merkle_root X (leaf_table X tbl)"
    using arg_cong [OF rest, of sn_height] arg_cong [OF rest, of sn_hints] arg_cong [OF rest, of sn_state_root]
    by (simp_all add: snapshot_of_def)
  ultimately show ?thesis using assms(2,3) coins by (simp add: checkpoint_row_def)
qed

lemma checkpoints_typed_save:
  assumes "checkpoints_typed X D" "checkpoint_row X k b" "D' CF_STATE_SNAPSHOTS = (D CF_STATE_SNAPSHOTS)(k \<mapsto> b) |` K"
  shows "checkpoints_typed X D'"
  using assms by (auto simp: checkpoints_typed_def restrict_map_def split: if_splits)

section \<open>Properties\<close>

text \<open>
  C24. Saving a checkpoint. On an initialised store that represents a table, \<open>save_snapshot\<close> succeeds and
  changes nothing of the table and the hints. The checkpoints are then the newest of the old heights and the
  store's height, up to the configured limit (all of them when it is 0); the store's height loads as the
  snapshot of the store if it is among them, the other kept heights load as before, and the dropped ones as
  absent. So a checkpoint saved below enough later ones is dropped at once.
\<close>

theorem save_snapshot_refines:
  assumes "reliable_backend B view ok" "bincode_ok X" "snapshot_codec_ok X" "store_ok X view ok S tbl Hs"
    "initialized S" "checkpoints_ok (view (backend S))"
  shows "\<exists>S' snap snap'. save_snapshot X B S = (Inr (), S') \<and> store_ok X view ok S' tbl Hs
    \<and> snapshot X B S = Inr snap \<and> same_snapshot snap snap'
    \<and> (let kept = newest (max_snapshots (cs_config S)) (insert (height S) (checkpoints (view (backend S)))) in
        available_snapshot_heights B S' = Inr (sorted_list_of_set kept)
        \<and> checkpoints_ok (view (backend S')) \<and> checkpoints (view (backend S')) = kept
        \<and> (\<forall>h. load_snapshot X B S' h =
              (if h \<notin> kept then Inr None else if h = height S then Inr (Some snap') else load_snapshot X B S h)))"
proof -
  note rep = reliable_backend.represented [OF assms(1,2,4)]
  define kept where "kept = newest (max_snapshots (cs_config S)) (insert (height S) (checkpoints (view (backend S))))"
  obtain b s' where s': "save_snapshot X B S = (Inr (), S\<lparr>backend := s'\<rparr>)" "ok s'"
    "view s' = (view (backend S))(CF_STATE_SNAPSHOTS := (view (backend S) CF_STATE_SNAPSHOTS)(snapshot_key (height S) \<mapsto> b)
       |` (snapshot_key ` kept))"
    "\<exists>snap. decode_coin_store_snapshot_storage X b = Inr snap \<and> same_snapshot (snapshot_of X S tbl) snap"
    by (rule reliable_backend.saved [OF assms, folded kept_def]) (rule that)
  have ok: "store_ok X view ok (S\<lparr>backend := s'\<rparr>) tbl Hs" using s'(3) by (intro store_ok_checkpoints [OF assms(4) s'(2)]) simp
  have "finite (insert (height S) (checkpoints (view (backend S))))"
    using finite_checkpoints [OF assms(6)] reliable_backend.listed(4) [OF assms(1) rep(3) assms(6)] by simp
  then have "kept \<subseteq> insert (height S) (checkpoints (view (backend S)))" unfolding kept_def by (rule newest_subset)
  then have cps: "checkpoints (view s') = kept" "checkpoints_ok (view s')"
    using s'(3) by (auto simp: checkpoints_def checkpoints_ok_def restrict_map_def split: if_splits)
  have "available_snapshot_heights B (S\<lparr>backend := s'\<rparr>) = Inr (sorted_list_of_set kept)"
    using reliable_backend.listed [OF assms(1) s'(2) cps(2)] by (simp add: available_snapshot_heights_def cps(1))
  moreover obtain snap' where snap': "decode_coin_store_snapshot_storage X b = Inr snap'" "same_snapshot (snapshot_of X S tbl) snap'"
    using s'(4) by blast
  moreover have "load_snapshot X B (S\<lparr>backend := s'\<rparr>) h =
      (if h \<notin> kept then Inr None else if h = height S then Inr (Some snap') else load_snapshot X B S h)" for h
    using reliable_backend.load_eq [OF assms(1)] s'(2,3) rep(3) snap'(1) by (auto simp: restrict_map_def split: option.splits)
  ultimately show ?thesis
    using s'(1) ok cps reliable_backend.snapshot_taken [OF assms(1,2,4,5)] unfolding kept_def [symmetric] Let_def
    by (intro exI [of _ "S\<lparr>backend := s'\<rparr>"] exI [of _ "snapshot_of X S tbl"] exI [of _ snap']) simp
qed

theorem save_snapshot_refines_witness:
  "\<exists>S S'. save_snapshot sample_externals (rocks_backend mem_rocks) S = (Inr (), S')
     \<and> available_snapshot_heights (rocks_backend mem_rocks) S' = Inr [3]"
proof -
  have root: "sn_state_root sample_snapshot
      = merkle_root sample_externals (leaf_table sample_externals (map_of (sn_coins sample_snapshot)))"
    unfolding sample_snapshot_good(3) by (simp add: sample_snapshot_def)
  have tab: "table_ok sample_externals (sn_height sample_snapshot) (map_of (sn_coins sample_snapshot))"
    using sample_snapshot_good by simp
  obtain S where S: "store_ok sample_externals (rocks_view mem_rocks mem_tab) mem_ok S (map_of (sn_coins sample_snapshot))
      (snapshot_hints sample_snapshot)" "initialized S" "height S = sn_height sample_snapshot"
    "cs_config S = cs_config sample_store" "rocks_view mem_rocks mem_tab (backend S) CF_STATE_SNAPSHOTS = Map.empty"
    by (rule mem_rocks.rocks.restored [OF bincode_ok_sample sample_store_keys sample_snapshot_good(1,2) root tab]) (rule that)
  then have none: "checkpoints_ok (rocks_view mem_rocks mem_tab (backend S))" "checkpoints (rocks_view mem_rocks mem_tab (backend S)) = {}"
    by (simp_all add: checkpoints_ok_def checkpoints_def)
  have "newest (max_snapshots (cs_config S)) {3} = {3}" "height S = 3"
    using S(3,4) sample_snapshot_good(4) by (simp_all add: newest_def sample_store_def default_with_path_def DEFAULT_MAX_SNAPSHOTS_def)
  then show ?thesis
    using save_snapshot_refines [OF mem_rocks.rocks.reliable_backend_axioms, OF bincode_ok_sample snapshot_codec_ok_sample S(1,2) none(1)]
      none(2) by (auto simp: Let_def)
qed

text \<open>
  The newest checkpoint. When every stored checkpoint key is a height, \<open>available_snapshot_heights\<close> lists
  exactly the stored heights in ascending order, \<open>load_latest_snapshot\<close> is the checkpoint of the greatest one,
  and there is none iff no checkpoint is stored.
\<close>

theorem load_latest_exact:
  assumes "reliable_backend B view ok" "ok (backend S)" "checkpoints_ok (view (backend S))"
  shows "available_snapshot_heights B S = Inr (sorted_list_of_set (checkpoints (view (backend S))))
    \<and> load_latest_snapshot X B S = (if checkpoints (view (backend S)) = {} then Inr None
         else load_snapshot X B S (Max (checkpoints (view (backend S)))))"
proof -
  note list = reliable_backend.listed [OF assms]
  have hs: "available_snapshot_heights B S = Inr (sorted_list_of_set (checkpoints (view (backend S))))"
    by (simp add: available_snapshot_heights_def list)
  have "last (sorted_list_of_set (checkpoints (view (backend S)))) = Max (checkpoints (view (backend S)))"
    if "checkpoints (view (backend S)) \<noteq> {}"
    using that list(4) by (rule last_sorted_list_of_set)
  with hs list(4) show ?thesis by (simp add: load_latest_snapshot_def)
qed

theorem load_latest_exact_witness:
  "available_snapshot_heights (rocks_backend mem_rocks) sample_store = Inr []
     \<and> load_latest_snapshot sample_externals (rocks_backend mem_rocks) sample_store = Inr None"
proof -
  have "checkpoints_ok (rocks_view mem_rocks mem_tab (backend sample_store))"
    "checkpoints (rocks_view mem_rocks mem_tab (backend sample_store)) = {}"
    by (simp_all add: checkpoints_ok_def checkpoints_def sample_store_def)
  then show ?thesis
    using load_latest_exact [OF mem_rocks.rocks.reliable_backend_axioms, OF sample_store_keys(1)] by simp
qed

end
