(* ===== verification/System.thy ===== *)
theory System
  imports Checkpoints
begin

text \<open>
  The whole store: the states it can reach from an empty backend, as an inductive relation over every
  operation that changes it, and the invariant along them.
\<close>

section \<open>Reachable stores\<close>

inductive reachable :: "externals \<Rightarrow> 's storage_ops \<Rightarrow> 's \<Rightarrow> 's coin_store \<Rightarrow> bool"
  for X :: externals and B :: "'s storage_ops" and s0 :: 's where
  opened: "open_store X B config s0 = Inr S \<Longrightarrow> reachable X B s0 S"
| genesis: "reachable X B s0 S \<Longrightarrow> inj_on (coin_id_of X) (fst ` set coins) \<Longrightarrow>
    init_genesis X B coins ts S = (result, S') \<Longrightarrow> reachable X B s0 S'"
| block: "reachable X B s0 S \<Longrightarrow> honest X blk \<Longrightarrow> height S \<noteq> - 1 \<Longrightarrow>
    apply_block X B blk S = (result, S') \<Longrightarrow> reachable X B s0 S'"
| rollback: "reachable X B s0 S \<Longrightarrow> rollback_to_block X B target S = (result, S') \<Longrightarrow> reachable X B s0 S'"
| rollback_n: "reachable X B s0 S \<Longrightarrow> rollback_n_blocks X B n S = (result, S') \<Longrightarrow> reachable X B s0 S'"
| hint: "reachable X B s0 S \<Longrightarrow> add_hint B i h S = (hint_result, S') \<Longrightarrow> reachable X B s0 S'"
| unhint: "reachable X B s0 S \<Longrightarrow> remove_hints_for_coins B is S = (removed, S') \<Longrightarrow> reachable X B s0 S'"
| save: "reachable X B s0 S \<Longrightarrow> save_snapshot X B S = (saved, S') \<Longrightarrow> reachable X B s0 S'"
| restore: "reachable X B s0 S \<Longrightarrow> hm_ok (sn_coins snap) \<Longrightarrow>
    table_ok X (sn_height snap) (map_of (sn_coins snap)) \<Longrightarrow> restore X B snap S = (done, S') \<Longrightarrow> reachable X B s0 S'"
| root_read: "reachable X B s0 S \<Longrightarrow> state_root X S = (r, S') \<Longrightarrow> reachable X B s0 S'"
| reopened: "reachable X B s0 S \<Longrightarrow> open_store X B config (backend S) = Inr S' \<Longrightarrow> reachable X B s0 S'"

text \<open>
  The rows beside those of the coins and hints: metadata and checkpoints are well typed, and the families that
  no operation writes (the Merkle nodes and the archive) hold nothing.
\<close>

definition rows_ok :: "externals \<Rightarrow> disk \<Rightarrow> bool" where
  "rows_ok X D \<longleftrightarrow> meta_typed D \<and> others_empty D \<and> checkpoints_typed X D"

text \<open>The invariant: a table and hints are represented, every stored key is well formed and every row typed.\<close>

definition system_ok :: "externals \<Rightarrow> ('s \<Rightarrow> disk) \<Rightarrow> ('s \<Rightarrow> bool) \<Rightarrow> 's coin_store \<Rightarrow> bool" where
  "system_ok X view ok S \<longleftrightarrow> (\<exists>tbl Hs. store_ok X view ok S tbl Hs)
     \<and> keys_ok (view (backend S)) \<and> checkpoints_ok (view (backend S)) \<and> rows_ok X (view (backend S))"

lemma system_ok_kept:
  assumes "system_ok X view ok S" "store_ok X view ok S' tbl' Hs'" "kept (view (backend S)) (view (backend S'))"
  shows "system_ok X view ok S'"
proof -
  have "CF_STATE_SNAPSHOTS \<notin> state_cfs" by (simp add: state_cfs_def index_cfs_def hint_cfs_def)
  then have "view (backend S') CF_STATE_SNAPSHOTS = view (backend S) CF_STATE_SNAPSHOTS" using assms(3) by (simp add: kept_def)
  moreover from this have "rows_ok X (view (backend S'))"
    using assms(1,3) by (auto simp: system_ok_def rows_ok_def kept_def others_empty_def checkpoints_typed_def)
  ultimately show ?thesis using assms by (auto simp: system_ok_def kept_def checkpoints_ok_def)
qed

section \<open>The invariant under each operation\<close>

lemma rollback_system_ok:
  assumes "reliable_backend B view ok" "bincode_ok X" "system_ok X view ok S"
    and "rollback_to_block X B target S = (result, S')"
  shows "system_ok X view ok S'"
proof -
  obtain tbl Hs where S: "store_ok X view ok S tbl Hs" using assms(3) by (auto simp: system_ok_def)
  have "S' = S" if "\<not> initialized S \<or> sint target > sint (height S) \<or> (0 \<le> sint target \<and> target = height S)"
    using that assms(4) by (auto simp: rollback_to_block_def Let_def split: if_splits)
  moreover have "\<exists>R. rolled_back_to X view ok (if sint target < 0 then 0 else target) S tbl Hs R S'"
    if "initialized S" "sint target \<le> sint (height S)" "\<not> (0 \<le> sint target \<and> target = height S)"
    using rollback_cases [OF assms(1,2) S that] assms(4) by (metis Pair_inject)
  ultimately show ?thesis
    using assms(3) system_ok_kept unfolding rolled_back_to_def by (metis not_less)
qed

lemma genesis_system_ok:
  assumes "reliable_backend B view ok" "bincode_ok X" "system_ok X view ok S"
    and "inj_on (coin_id_of X) (fst ` set coins)" "init_genesis X B coins ts S = (result, S')"
  shows "system_ok X view ok S'"
proof (cases "initialized S")
  case True
  then show ?thesis using assms(3,5) by (auto simp: init_genesis_def)
next
  case False
  obtain tbl Hs where S: "store_ok X view ok S tbl Hs" using assms(3) by (auto simp: system_ok_def)
  show ?thesis
    by (rule reliable_backend.genesis_refines [OF assms(1,2) S False assms(4), of ts])
      (use assms(3,5) system_ok_kept in fastforce)
qed

lemma block_system_ok:
  assumes "reliable_backend B view ok" "bincode_ok X" "system_ok X view ok S"
    and "honest X blk" "height S \<noteq> - 1" "apply_block X B blk S = (result, S')"
  shows "system_ok X view ok S'"
proof -
  obtain tbl Hs where S: "store_ok X view ok S tbl Hs" using assms(3) by (auto simp: system_ok_def)
  have same: "system_ok X view ok S'" if "store_ok X view ok S' tbl Hs" "S'\<lparr>merkle_tree := merkle_tree S\<rparr> = S"
  proof (rule system_ok_kept [OF assms(3) that(1)])
    have "backend S' = backend (S'\<lparr>merkle_tree := merkle_tree S\<rparr>)" by simp
    then show "kept (view (backend S)) (view (backend S'))" unfolding that(2) by simp
  qed
  show ?thesis
    using reliable_backend.block_refines [OF assms(1,2) S assms(4,5)] assms(3,6) system_ok_kept [OF assms(3), of S'] same
    by (auto simp: block_applied_def Let_def split: option.splits if_splits)
qed

lemma hint_system_ok:
  assumes "reliable_backend B view ok" "system_ok X view ok S" "add_hint B i h S = (result, S')"
  shows "system_ok X view ok S'"
proof (cases "0 < length h \<and> length h \<le> 32")
  case True
  obtain tbl Hs where S: "store_ok X view ok S tbl Hs" using assms(2) by (auto simp: system_ok_def)
  show ?thesis
    by (rule reliable_backend.hint_added [OF assms(1) S, of h i]) (use True assms(2,3) system_ok_kept in fastforce)+
next
  case False
  then have "h = [] \<or> 32 < length h" by auto
  then have "snd (add_hint B i h S) = S" by (auto simp: add_hint_def validate_hint_def MAX_HINT_LENGTH_def)
  then have "S' = S" using assms(3) by simp
  then show ?thesis using assms(2) by simp
qed

lemma unhint_system_ok:
  assumes "reliable_backend B view ok" "system_ok X view ok S" "remove_hints_for_coins B is S = (result, S')"
  shows "system_ok X view ok S'"
proof -
  obtain tbl Hs where S: "store_ok X view ok S tbl Hs" using assms(2) by (auto simp: system_ok_def)
  note rep = reliable_backend.hint_represented [OF assms(1) S]
  obtain s' where s': "try_fold_state (remove_hints_for_coin B) is 0 (backend S) =
      (Inr (0 + of_nat (card {(j, h) \<in> Hs. j \<in> set is})), s')" "ok s'"
    "hints_ok (view s') {(j, h) \<in> Hs. j \<notin> set is}" "\<And>cf. cf \<notin> hint_cfs \<Longrightarrow> view s' cf = view (backend S) cf"
    "kept (view (backend S)) (view s')"
    by (rule reliable_backend.hints_removed [OF assms(1) rep(1,2), of "is" 0]) (rule that)
  have "S' = S\<lparr>backend := s'\<rparr>" using s'(1) assms(3) by (simp add: remove_hints_for_coins_def)
  with store_ok_hints [OF S s'(2,4,3)] s'(5) show ?thesis by (intro system_ok_kept [OF assms(2)]) simp_all
qed

lemma save_system_ok:
  assumes "reliable_backend B view ok" "bincode_ok X" "snapshot_codec_ok X" "system_ok X view ok S"
    and "save_snapshot X B S = (result, S')"
  shows "system_ok X view ok S'"
proof (cases "initialized S")
  case True
  obtain tbl Hs where S: "store_ok X view ok S tbl Hs" using assms(4) by (auto simp: system_ok_def)
  have cps: "checkpoints_ok (view (backend S))" using assms(4) by (simp add: system_ok_def)
  obtain b s' where s': "save_snapshot X B S = (Inr (), S\<lparr>backend := s'\<rparr>)" "ok s'"
    "view s' = (view (backend S))(CF_STATE_SNAPSHOTS := (view (backend S) CF_STATE_SNAPSHOTS)(snapshot_key (height S) \<mapsto> b)
       |` (snapshot_key ` newest (max_snapshots (cs_config S)) (insert (height S) (checkpoints (view (backend S))))))"
    "\<exists>snap. decode_coin_store_snapshot_storage X b = Inr snap \<and> same_snapshot (snapshot_of X S tbl) snap"
    by (rule reliable_backend.saved [OF assms(1-3) S True cps]) (rule that)
  have "store_ok X view ok (S\<lparr>backend := s'\<rparr>) tbl Hs" using s'(3) by (intro store_ok_checkpoints [OF S s'(2)]) simp
  moreover have "keys_ok (view s')" using assms(4) s'(3) by (auto simp: system_ok_def keys_ok_def restrict_map_def split: if_splits)
  moreover have "checkpoints_ok (view s')" using s'(3) by (auto simp: checkpoints_ok_def restrict_map_def split: if_splits)
  moreover have "rows_ok X (view s')"
  proof -
    have "checkpoint_row X (snapshot_key (height S)) b"
      using s'(4) saved_row reliable_backend.represented(2,6) [OF assms(1,2) S] by blast
    moreover have rows: "rows_ok X (view (backend S))" using assms(4) by (simp add: system_ok_def)
    ultimately have "checkpoints_typed X (view s')"
      using checkpoints_typed_save [of X "view (backend S)" "snapshot_key (height S)" b "view s'"] s'(3)
      unfolding rows_ok_def by (metis fun_upd_same)
    then show ?thesis using rows s'(3) by (simp add: rows_ok_def meta_typed_def others_empty_def)
  qed
  ultimately show ?thesis using s'(1) assms(5) by (auto simp: system_ok_def)
next
  case False
  then show ?thesis using assms(4,5) by (simp add: save_snapshot_def)
qed

lemma restore_system_ok:
  assumes "reliable_backend B view ok" "bincode_ok X" "system_ok X view ok S"
    and "hm_ok (sn_coins snap)" "table_ok X (sn_height snap) (map_of (sn_coins snap))" "restore X B snap S = (result, S')"
  shows "system_ok X view ok S'"
proof (cases "counts_ok X snap \<and> sn_state_root snap = merkle_root X (leaf_table X (map_of (sn_coins snap)))")
  case True
  have S: "ok (backend S)" "keys_ok (view (backend S))" using assms(3) by (auto simp: system_ok_def store_ok_def)
  obtain S1 where "restore X B snap S = (Inr (), S1)"
    "store_ok X view ok S1 (map_of (sn_coins snap)) (snapshot_hints snap)"
    "view (backend S1) CF_STATE_SNAPSHOTS = Map.empty" "keys_ok (view (backend S1))"
    "meta_typed (view (backend S1))" "others_empty (view (backend S)) \<Longrightarrow> others_empty (view (backend S1))"
    by (rule reliable_backend.restored [OF assms(1,2) S assms(4) _ _ assms(5)]) (use True that in auto)
  then show ?thesis using assms(3,6) by (auto simp: system_ok_def checkpoints_ok_def rows_ok_def checkpoints_typed_def)
next
  case False
  then show ?thesis using restore_unchanged [OF assms(2,4)] assms(3,6) by (metis snd_conv)
qed

lemma reopen_ok:
  assumes "reliable_backend B view ok" "bincode_ok X" "store_ok X view ok S tbl Hs"
    and "open_store X B config (backend S) = Inr S'"
  shows "store_ok X view ok S' tbl Hs"
  by (rule reliable_backend.reopen [OF assms(1-3), of config]) (use assms(4) in simp)

lemma empty_store_ok:
  assumes "ok s0" "\<And>cf. cf \<in> set ALL_COLUMN_FAMILIES \<Longrightarrow> view s0 cf = Map.empty"
  shows "store_ok X view ok \<lparr>cs_config = config, backend = s0, merkle_tree = smt_new X, height = 0, tip_hash = 0,
     cs_timestamp = 0, initialized = False, unspent_ids = {}\<rparr> Map.empty {}"
proof -
  have "leaves (smt_new X) = []" by (simp add: smt_new_def)
  then show ?thesis
    using assms
    by (auto simp: store_ok_def disk_ok_def index_is_def hints_ok_def meta_ok_def table_ok_def
        unspent_of_def leaf_table_def)
qed

lemma empty_store_opens:
  assumes "reliable_backend B view ok" "bincode_ok X" "ok s0"
    "\<And>cf. cf \<in> set ALL_COLUMN_FAMILIES \<Longrightarrow> view s0 cf = Map.empty"
  obtains S where "open_store X B config s0 = Inr S" "store_ok X view ok S Map.empty {}" "backend S = s0"
    "cs_config S = config" "\<not> initialized S"
proof -
  note empty = empty_store_ok [of ok s0 view X config, OF assms(3,4)]
  show thesis by (rule reliable_backend.reopen [OF assms(1,2) empty, of config]) (use that in simp)+
qed

lemma fresh_store_ok:
  assumes "reliable_backend B view ok" "bincode_ok X" "ok s0" "view s0 = (\<lambda>_. Map.empty)"
    and "open_store X B config s0 = Inr S"
  shows "store_ok X view ok S Map.empty {}" "backend S = s0" "cs_config S = config" "\<not> initialized S"
proof -
  have empty: "view s0 cf = Map.empty" for cf using assms(4) by simp
  show "store_ok X view ok S Map.empty {}" "backend S = s0" "cs_config S = config" "\<not> initialized S"
    by (rule empty_store_opens [OF assms(1-3) empty, of config], use assms(5) in simp)+
qed

section \<open>The invariant along a run\<close>

lemma reachable_ok:
  assumes "reachable X B s0 S"
    and rel: "reliable_backend B view ok" "bincode_ok X" and codec: "snapshot_codec_ok X"
    and s0: "ok s0" "view s0 = (\<lambda>_. Map.empty)"
  shows "system_ok X view ok S"
  using assms(1)
proof induction
  case (opened config S)
  from fresh_store_ok(1,2) [OF rel s0 this] s0(2) show ?case 
    by (auto simp: system_ok_def keys_ok_def checkpoints_ok_def rows_ok_def meta_typed_def others_empty_def checkpoints_typed_def)
next
  case (genesis S coins ts result S')
  then show ?case using genesis_system_ok [OF rel] by blast
next
  case (block S blk result S')
  then show ?case using block_system_ok [OF rel] by blast
next
  case (rollback S target result S')
  then show ?case using rollback_system_ok [OF rel] by blast
next
  case (rollback_n S n result S')
  then show ?case
    using rollback_system_ok [OF rel] by (auto simp: rollback_n_blocks_def split: if_splits)
next
  case (hint S i h result S')
  then show ?case using hint_system_ok [OF rel(1)] by blast
next
  case (unhint S "is" result S')
  then show ?case using unhint_system_ok [OF rel(1)] by blast
next
  case (save S result S')
  then show ?case using save_system_ok [OF rel codec] by blast
next
  case (restore S snap result S')
  then show ?case using restore_system_ok [OF rel] by blast
next
  case (root_read S r S')
  then obtain tbl Hs where "store_ok X view ok S tbl Hs" by (auto simp: system_ok_def)
  moreover have "backend S' = backend S" using root_read(2) by (auto simp: state_root_def split: prod.splits)
  ultimately show ?case using root_read state_root_ok(2) [OF _ root_read(2)] unfolding system_ok_def by metis
next
  case (reopened S config S')
  then obtain tbl Hs where "store_ok X view ok S tbl Hs" by (auto simp: system_ok_def)
  moreover have "backend S' = backend S"
    using reopened(2) by (auto simp: open_store_def split: sum.splits option.splits if_splits)
  ultimately show ?case using reopened reopen_ok [OF rel _ reopened(2)] unfolding system_ok_def by metis
qed

text \<open>
  C3. Every store that any sequence of genesis, block applications, rollbacks, hint insertions and removals,
  saved checkpoints, restored snapshots, root reads and reopenings reaches from an empty backend, failed calls
  included, is consistent: there is one table of coin records and one set of hints such that \<open>get_coin_record\<close>
  answers every id from the table, \<open>is_unspent\<close> holds exactly for its unspent coins, the state root is the
  root of its Merkle map, no record is confirmed or spent above the tip or spent before it was confirmed, hint
  lookups answer from the set, and the checkpoints are listed. Blocks are assumed to declare the ids of their
  coins, restored snapshots to have ordered heights within their own.
\<close>

theorem reachable_consistent:
  assumes "reachable X B s0 S" "reliable_backend B view ok" "bincode_ok X" "snapshot_codec_ok X"
    "ok s0" "view s0 = (\<lambda>_. Map.empty)"
  shows "\<exists>tbl Hs. (\<forall>i. get_coin_record X B S i = Inr (tbl i))
    \<and> (\<forall>i. is_unspent S i \<longleftrightarrow> (\<exists>r. tbl i = Some r \<and> spent_height r = None))
    \<and> fst (state_root X S) = merkle_root X (leaf_table X tbl)
    \<and> table_ok X (height S) tbl
    \<and> (\<forall>h n. get_coin_ids_by_hint B S h n = Inr (take n (ids_of_hint Hs (as_ref h))))
    \<and> count_hints B S = Inr (of_nat (card Hs))
    \<and> available_snapshot_heights B S = Inr (sorted_list_of_set (checkpoints (view (backend S))))"
proof -
  have sys: "system_ok X view ok S" by (rule reachable_ok [OF assms])
  then obtain tbl Hs where S: "store_ok X view ok S tbl Hs" by (auto simp: system_ok_def)
  note ok = S [unfolded store_ok_def]
  have "get_coin_record X B S i = Inr (tbl i)" for i
    using reliable_backend.read_record [OF assms(2,3)] ok by blast
  moreover have "fst (state_root X S) = merkle_root X (leaf_table X tbl)"
    using state_root_ok(1) [OF S] by (metis prod.collapse)
  moreover have "available_snapshot_heights B S = Inr (sorted_list_of_set (checkpoints (view (backend S))))"
    using reliable_backend.listed [OF assms(2)] ok sys by (simp add: available_snapshot_heights_def system_ok_def)
  moreover note reliable_backend.ids_by_hint [OF assms(2) S] reliable_backend.hints_counted [OF assms(2) S]
  ultimately show ?thesis using ok by (auto simp: is_unspent_def unspent_of_def)
qed

lemma sample_reachable:
  obtains S where "reachable sample_externals (rocks_backend mem_rocks) no_tables S" "initialized S"
    "store_ok sample_externals (rocks_view mem_rocks mem_tab) mem_ok S
       (genesis_table sample_externals 5 sample_coins) {}" "height S = 0" "tip_hash S = 0"
proof -
  obtain S0 where S0: "open_store sample_externals (rocks_backend mem_rocks) (cs_config sample_store)
      (backend sample_store) = Inr S0"
      "store_ok sample_externals (rocks_view mem_rocks mem_tab) mem_ok S0 Map.empty {}" "\<not> initialized S0"
    by (rule reliable_backend.reopen [OF mem_rocks.rocks.reliable_backend_axioms, OF bincode_ok_sample sample_store_ok])
      (auto simp: sample_store_def)
  have "reachable sample_externals (rocks_backend mem_rocks) no_tables S0"
    using S0(1) by (intro reachable.opened) (simp add: sample_store_def)
  then have gen: "reachable sample_externals (rocks_backend mem_rocks) no_tables S"
    if "init_genesis sample_externals (rocks_backend mem_rocks) sample_coins 5 S0 = (result, S)" for result S
    using that sample_coins_inj by (blast intro: reachable.genesis)
  show thesis
    by (rule reliable_backend.genesis_refines [OF mem_rocks.rocks.reliable_backend_axioms,
          OF bincode_ok_sample S0(2,3) sample_coins_inj, of 5])
      (use that gen in blast)
qed

theorem reachable_consistent_witness:
  "\<exists>S tbl. reachable sample_externals (rocks_backend mem_rocks) no_tables S \<and> initialized S
     \<and> (\<forall>i. get_coin_record sample_externals (rocks_backend mem_rocks) S i = Inr (tbl i))
     \<and> fst (state_root sample_externals S) = merkle_root sample_externals (leaf_table sample_externals tbl)"
proof (rule sample_reachable)
  fix S
  assume S: "reachable sample_externals (rocks_backend mem_rocks) no_tables S" "initialized S"
  show ?thesis
    using reachable_consistent [OF S(1) mem_rocks.rocks.reliable_backend_axioms, OF bincode_ok_sample snapshot_codec_ok_sample no_tables_view] S
    by blast
qed

end
