(* ===== verification/Ledger.thy ===== *)
theory Ledger
  imports System
begin

text \<open>
  The contract of the whole store as an abstract ledger: a table of coin records, a set of hints, the
  tip and the heights of the saved checkpoints, with one transition and one outcome for every call of
  the interface. The store refines it: calls on a store answer as the ledger does and keep
  representing it, for any sequence of calls, over any reliable backend.
\<close>

section \<open>Simulation\<close>

text \<open>A run of commands collects their outcomes.\<close>

fun run :: "('c \<Rightarrow> 'a \<Rightarrow> 'o \<times> 'a) \<Rightarrow> 'c list \<Rightarrow> 'a \<Rightarrow> 'o list \<times> 'a" where
  "run step [] a = ([], a)"
| "run step (c # cs) a = (case step c a of (o1, a1) \<Rightarrow> (case run step cs a1 of (os, a2) \<Rightarrow> (o1 # os, a2)))"

locale simulation =
  fixes concrete :: "'c \<Rightarrow> 'a \<Rightarrow> 'o \<times> 'a" and abstract :: "'c \<Rightarrow> 'b \<Rightarrow> 'o \<times> 'b"
    and R :: "'a \<Rightarrow> 'b \<Rightarrow> bool" and admissible :: "'c \<Rightarrow> bool"
  assumes step: "R a b \<Longrightarrow> admissible c \<Longrightarrow> fst (concrete c a) = fst (abstract c b) \<and> R (snd (concrete c a)) (snd (abstract c b))"
begin

lemma runs:
  "R a b \<Longrightarrow> list_all admissible cs \<Longrightarrow>
     fst (run concrete cs a) = fst (run abstract cs b) \<and> R (snd (run concrete cs a)) (snd (run abstract cs b))"
proof (induction cs arbitrary: a b)
  case Nil
  then show ?case by simp
next
  case (Cons c cs)
  obtain o1 a1 where a1: "concrete c a = (o1, a1)" by fastforce
  obtain o2 b1 where b1: "abstract c b = (o2, b1)" by fastforce
  have "o1 = o2" "R a1 b1" using step [OF Cons.prems(1), of c] Cons.prems(2) a1 b1 by simp_all
  with Cons.IH [of a1 b1] Cons.prems(2) a1 b1 show ?case by (auto split: prod.splits)
qed

end

section \<open>Commands and outcomes\<close>

datatype command =
    Genesis "(coin \<times> bool) list" u64
  | Block block_data
  | Rollback i64
  | RollbackBy u64
  | AddHint coin_id bytes
  | RemoveHints "coin_id list"
  | SaveSnapshot
  | RestoreFrom coin_store_snapshot
  | Reopen coin_store_config
  | StateRoot
  | Lookup coin_id
  | ByPuzzleHash bool bytes32 u64 u64
  | ByHint bytes32 nat
  | SnapshotHeights

datatype outcome =
    Failed coin_store_error
  | Done
  | RootIs bytes32
  | Applied apply_block_result
  | RolledBack coin_table nat nat u64
  | Removed u64
  | RecordIs "coin_record option"
  | Records "coin_record list"
  | Ids "coin_id list"
  | Heights "u64 list"

definition rollback_outcome :: "rollback_result \<Rightarrow> outcome" where
  "rollback_outcome R =
     RolledBack (map_of (modified_coins R)) (coins_deleted R) (coins_unspent R) (new_height R)"

section \<open>Calls on a store\<close>

definition answer :: "('r \<Rightarrow> outcome) \<Rightarrow> (coin_store_error + 'r) \<times> 'a \<Rightarrow> outcome \<times> 'a" where
  "answer f p = (case p of (Inl e, a) \<Rightarrow> (Failed e, a) | (Inr x, a) \<Rightarrow> (f x, a))"

lemma answer_simps [simp]: "answer f (Inl e, a) = (Failed e, a)" "answer f (Inr x, a) = (f x, a)"
  by (simp_all add: answer_def)

fun perform :: "externals \<Rightarrow> 's storage_ops \<Rightarrow> command \<Rightarrow> 's coin_store \<Rightarrow> outcome \<times> 's coin_store" where
  "perform X B (Genesis coins ts) S = answer RootIs (init_genesis X B coins ts S)"
| "perform X B (Block b) S = answer Applied (apply_block X B b S)"
| "perform X B (Rollback t) S = answer rollback_outcome (rollback_to_block X B t S)"
| "perform X B (RollbackBy n) S = answer rollback_outcome (rollback_n_blocks X B n S)"
| "perform X B (AddHint i h) S = answer (\<lambda>_. Done) (add_hint B i h S)"
| "perform X B (RemoveHints is) S = answer Removed (remove_hints_for_coins B is S)"
| "perform X B SaveSnapshot S = answer (\<lambda>_. Done) (save_snapshot X B S)"
| "perform X B (RestoreFrom snap) S = answer (\<lambda>_. Done) (restore X B snap S)"
| "perform X B (Reopen config) S =
     (case open_store X B config (backend S) of Inl e \<Rightarrow> (Failed e, S) | Inr S' \<Rightarrow> (Done, S'))"
| "perform X B StateRoot S = (case state_root X S of (r, S') \<Rightarrow> (RootIs r, S'))"
| "perform X B (Lookup i) S = answer RecordIs (get_coin_record X B S i, S)"
| "perform X B (ByPuzzleHash inc ph s e) S = answer Records (get_coin_records_by_puzzle_hash X B S inc ph s e, S)"
| "perform X B (ByHint h n) S = answer Ids (get_coin_ids_by_hint B S h n, S)"
| "perform X B SnapshotHeights S = answer Heights (available_snapshot_heights B S, S)"

section \<open>The ledger\<close>

record ledger =
  lg_table :: coin_table
  lg_hints :: "(coin_id \<times> bytes) set"
  lg_height :: u64
  lg_tip :: bytes32
  lg_time :: u64
  lg_init :: bool
  lg_saved :: "u64 set"
  lg_config :: coin_store_config

definition ledger_new :: "coin_store_config \<Rightarrow> ledger" where
  "ledger_new config = \<lparr>lg_table = Map.empty, lg_hints = {}, lg_height = 0, lg_tip = 0, lg_time = 0, lg_init = False,
     lg_saved = {}, lg_config = config\<rparr>"

text \<open>The first check that a block fails.\<close>

definition refusal :: "externals \<Rightarrow> ledger \<Rightarrow> block_data \<Rightarrow> coin_store_error option" where
  "refusal X L b =
     (if \<not> lg_init L then Some NotInitialized
      else if bd_height b \<noteq> lg_height L + 1 then Some (HeightMismatch (lg_height L + 1) (bd_height b))
      else if parent_hash b \<noteq> lg_tip L then Some (ParentHashMismatch (lg_tip L) (parent_hash b))
      else if length (coinbase_coins b) < 2
      then Some (InvalidRewardCoinCount (''>= '' @ show_nat 2) (length (coinbase_coins b)))
      else case find (bad_removal (lg_table L)) (removals b) of
          Some i \<Rightarrow> Some (removal_error (lg_table L) i)
        | None \<Rightarrow>
            map_option CoinAlreadyExists
              (clash (lg_table L) {} (map ca_coin_id (additions b) @ map (coin_id_of X) (coinbase_coins b))))"

definition ledger_block :: "externals \<Rightarrow> block_data \<Rightarrow> ledger \<Rightarrow> ledger" where
  "ledger_block X b L = L\<lparr>lg_table := block_table X b (lg_table L), lg_hints := lg_hints L \<union> block_hints b,
     lg_height := bd_height b, lg_tip := block_hash b, lg_time := bd_timestamp b\<rparr>"

definition ledger_root :: "externals \<Rightarrow> ledger \<Rightarrow> bytes32" where
  "ledger_root X L = merkle_root X (leaf_table X (lg_table L))"

definition ledger_rollback :: "i64 \<Rightarrow> ledger \<Rightarrow> outcome \<times> ledger" where
  "ledger_rollback target L =
     (if \<not> lg_init L then (Failed NotInitialized, L)
      else if sint target > sint (lg_height L) then (Failed (RollbackAboveTip target (lg_height L)), L)
      else if 0 \<le> sint target \<and> target = lg_height L then (RolledBack Map.empty 0 0 (lg_height L), L)
      else
        let t = (if sint target < 0 then 0 else target); tbl = lg_table L
        in (RolledBack (tbl |` (deleted_ids t tbl \<union> respent_ids t tbl)) (card (deleted_ids t tbl))
              (card (respent_ids t tbl)) t,
            L\<lparr>lg_table := rolled_back t tbl, lg_hints := kept_hints t tbl (lg_hints L), lg_height := t, lg_tip := 0\<rparr>))"

fun ledger_step :: "externals \<Rightarrow> command \<Rightarrow> ledger \<Rightarrow> outcome \<times> ledger" where
  "ledger_step X (Genesis coins ts) L =
     (if lg_init L then (Failed GenesisAlreadyInitialized, L)
      else let L' = L\<lparr>lg_table := genesis_table X ts coins, lg_height := 0, lg_tip := 0, lg_time := ts, lg_init := True\<rparr>
        in (RootIs (ledger_root X L'), L'))"
| "ledger_step X (Block b) L =
     (case refusal X L b of
        Some e \<Rightarrow> (Failed e, L)
      | None \<Rightarrow>
          let L' = ledger_block X b L; r = ledger_root X L'
          in if root_expected b r
             then (Applied \<lparr>abr_state_root = r, coins_created = length (coinbase_coins b) + length (additions b),
                     coins_spent = length (removals b), abr_height = bd_height b\<rparr>, L')
             else (Failed (StateRootMismatch (the (expected_state_root b)) r), L))"
| "ledger_step X (Rollback t) L = ledger_rollback t L"
| "ledger_step X (RollbackBy n) L = ledger_rollback (lg_height L - n) L"
| "ledger_step X (AddHint i h) L =
     (case validate_hint h of
        Inl e \<Rightarrow> (Failed (from_hint_error e), L)
      | Inr HintSkip \<Rightarrow> (Done, L)
      | Inr HintStore \<Rightarrow> (Done, L\<lparr>lg_hints := insert (i, h) (lg_hints L)\<rparr>))"
| "ledger_step X (RemoveHints is) L =
     (Removed (of_nat (card {(i, h) \<in> lg_hints L. i \<in> set is})), L\<lparr>lg_hints := {(i, h) \<in> lg_hints L. i \<notin> set is}\<rparr>)"
| "ledger_step X SaveSnapshot L =
     (if lg_init L
      then (Done, L\<lparr>lg_saved := newest (max_snapshots (lg_config L)) (insert (lg_height L) (lg_saved L))\<rparr>)
      else (Failed NotInitialized, L))"
| "ledger_step X (RestoreFrom snap) L =
     (case restore_check X snap of
        Inl e \<Rightarrow> (Failed e, L)
      | Inr _ \<Rightarrow>
          let r = merkle_root X (leaf_table X (map_of (sn_coins snap)))
          in if sn_state_root snap \<noteq> r then (Failed (StateRootMismatch (sn_state_root snap) r), L)
             else (Done, \<lparr>lg_table = map_of (sn_coins snap), lg_hints = snapshot_hints snap, lg_height = sn_height snap,
                    lg_tip = sn_block_hash snap, lg_time = sn_timestamp snap, lg_init = True, lg_saved = {},
                    lg_config = lg_config L\<rparr>))"
| "ledger_step X (Reopen config) L = (Done, L\<lparr>lg_config := config\<rparr>)"
| "ledger_step X StateRoot L = (RootIs (ledger_root X L), L)"
| "ledger_step X (Lookup i) L = (RecordIs (lg_table L i), L)"
| "ledger_step X (ByPuzzleHash inc ph s e) L =
     (Records (records_where (\<lambda>r. coin_puzzle_hash (cr_coin r) = ph \<and> record_filter inc s e r) (lg_table L)), L)"
| "ledger_step X (ByHint h n) L = (Ids (take n (ids_of_hint (lg_hints L) (as_ref h))), L)"
| "ledger_step X SnapshotHeights L = (Heights (sorted_list_of_set (lg_saved L)), L)"

text \<open>
  What callers must respect, as nothing checks it: ids of additions and of genesis coins are those of
  the coins, no block has height 0, which would follow the greatest height, and restored snapshots
  have ordered heights.
\<close>

fun legal :: "externals \<Rightarrow> command \<Rightarrow> bool" where
  "legal X (Genesis coins ts) \<longleftrightarrow> inj_on (coin_id_of X) (fst ` set coins)"
| "legal X (Block b) \<longleftrightarrow> honest X b \<and> bd_height b \<noteq> 0"
| "legal X (RestoreFrom snap) \<longleftrightarrow> hm_ok (sn_coins snap) \<and> table_ok X (sn_height snap) (map_of (sn_coins snap))"
| "legal X _ \<longleftrightarrow> True"

section \<open>Representation\<close>

definition represents :: "externals \<Rightarrow> ('s \<Rightarrow> disk) \<Rightarrow> ('s \<Rightarrow> bool) \<Rightarrow> 's coin_store \<Rightarrow> ledger \<Rightarrow> bool" where
  "represents X view ok S L \<longleftrightarrow>
     store_ok X view ok S (lg_table L) (lg_hints L)
     \<and> height S = lg_height L \<and> tip_hash S = lg_tip L \<and> cs_timestamp S = lg_time L \<and> initialized S = lg_init L
     \<and> cs_config S = lg_config L \<and> keys_ok (view (backend S))
     \<and> checkpoints_ok (view (backend S)) \<and> checkpoints (view (backend S)) = lg_saved L"

lemma representsD:
  assumes "represents X view ok S L"
  shows "store_ok X view ok S (lg_table L) (lg_hints L)" "height S = lg_height L" "tip_hash S = lg_tip L"
    "cs_timestamp S = lg_time L" "initialized S = lg_init L" "cs_config S = lg_config L" "keys_ok (view (backend S))"
    "checkpoints_ok (view (backend S))" "checkpoints (view (backend S)) = lg_saved L"
  using assms by (simp_all add: represents_def)

lemma block_error_refusal: "represents X view ok S L \<Longrightarrow> block_error X S (lg_table L) b = refusal X L b"
  by (simp add: represents_def block_error_def refusal_def)

lemma represents_kept:
  assumes "represents X view ok S L" "kept (view (backend S)) (view (backend S'))" "cs_config S' = cs_config S"
    and "store_ok X view ok S' (lg_table L') (lg_hints L')" "height S' = lg_height L'" "tip_hash S' = lg_tip L'"
    and "cs_timestamp S' = lg_time L'" "initialized S' = lg_init L'" "lg_saved L' = lg_saved L" "lg_config L' = lg_config L"
  shows "represents X view ok S' L'"
proof -
  have "CF_STATE_SNAPSHOTS \<notin> state_cfs" by (simp add: state_cfs_def index_cfs_def hint_cfs_def)
  then show ?thesis using assms by (simp add: represents_def kept_def checkpoints_ok_def checkpoints_def)
qed

lemma represents_empty:
  assumes "reliable_backend B view ok" "bincode_ok X" "ok s0" "view s0 = (\<lambda>_. Map.empty)"
    and "open_store X B config s0 = Inr S"
  shows "represents X view ok S (ledger_new config)"
  using fresh_store_ok [OF assms] assms(4)
  by (simp add: represents_def ledger_new_def keys_ok_def checkpoints_ok_def checkpoints_def store_ok_def meta_ok_def
      table_ok_def)

end
