(* ===== verification/Atomicity.thy ===== *)
theory Atomicity
  imports System
begin

text \<open>
  What failing calls leave behind, for any backend: genesis, block application and rollback write one batch,
  so a call that fails leaves everything but the cached Merkle tree as it was.
\<close>

section \<open>Calls that fail\<close>

definition same_but_tree :: "'s coin_store \<Rightarrow> 's coin_store \<Rightarrow> bool" where
  "same_but_tree S S' \<longleftrightarrow> S' = S\<lparr>merkle_tree := merkle_tree S'\<rparr>"

lemma same_but_tree_simps [simp]: "same_but_tree S S" "same_but_tree S (S\<lparr>merkle_tree := t\<rparr>)"
  by (simp_all add: same_but_tree_def)

lemma same_but_treeD:
  assumes "same_but_tree S S'"
  shows "backend S' = backend S" "height S' = height S" "tip_hash S' = tip_hash S" "cs_timestamp S' = cs_timestamp S"
    "initialized S' = initialized S" "unspent_ids S' = unspent_ids S" "cs_config S' = cs_config S"
proof -
  obtain t where "S' = S\<lparr>merkle_tree := t\<rparr>" using assms unfolding same_but_tree_def by blast
  then show "backend S' = backend S" "height S' = height S" "tip_hash S' = tip_hash S" "cs_timestamp S' = cs_timestamp S"
    "initialized S' = initialized S" "unspent_ids S' = unspent_ids S" "cs_config S' = cs_config S" by simp_all
qed

lemma genesis_failed: "init_genesis X B coins ts S = (Inl e, S') \<Longrightarrow> same_but_tree S S'"
  by (auto simp: init_genesis_def Let_def split: if_splits sum.splits prod.splits)

lemma merkle_phase_tree: "merkle_phase X B block w S = (result, S') \<Longrightarrow> same_but_tree S S'"
  unfolding merkle_phase_def Let_def
  by (auto split: sum.splits option.splits prod.splits if_split_asm)

lemma block_failed: "apply_block X B block S = (Inl e, S') \<Longrightarrow> same_but_tree S S'"
  unfolding apply_block_def commit_block_def
  by (auto split: sum.splits prod.splits dest: merkle_phase_tree)

lemma rollback_failed: "rollback_to_block X B target S = (Inl e, S') \<Longrightarrow> same_but_tree S S'"
  unfolding rollback_to_block_def rollback_commit_def Let_def
  by (auto split: if_split_asm sum.splits prod.splits)

section \<open>The configuration stays\<close>

lemma genesis_config: "init_genesis X B coins ts S = (result, S') \<Longrightarrow> cs_config S' = cs_config S"
  unfolding init_genesis_def Let_def by (auto split: if_split_asm sum.splits prod.splits)

lemma block_config: "apply_block X B block S = (result, S') \<Longrightarrow> cs_config S' = cs_config S"
  unfolding apply_block_def commit_block_def
  by (auto split: sum.splits prod.splits dest!: merkle_phase_tree same_but_treeD(7))

lemma rollback_config: "rollback_to_block X B target S = (result, S') \<Longrightarrow> cs_config S' = cs_config S"
  unfolding rollback_to_block_def rollback_commit_def Let_def
  by (auto split: if_split_asm sum.splits prod.splits)

end
