(* ===== verification/Ledger_Refines.thy ===== *)
theory Ledger_Refines
  imports Ledger Atomicity
begin

text \<open>
  Every call on a store that represents a ledger answers as the ledger and leaves a store that represents
  the ledger after the call: the step of the simulation, operation by operation, and its consequences for
  runs.
\<close>

section \<open>Steps\<close>

definition agrees ::
  "externals \<Rightarrow> ('s \<Rightarrow> disk) \<Rightarrow> ('s \<Rightarrow> bool) \<Rightarrow> outcome \<times> 's coin_store \<Rightarrow> outcome \<times> ledger \<Rightarrow> bool" where
  "agrees X view ok p q \<longleftrightarrow> fst p = fst q \<and> represents X view ok (snd p) (snd q)"

lemma genesis_step:
  assumes "reliable_backend B view ok" "bincode_ok X" "represents X view ok S L" "legal X (Genesis coins ts)"
  shows "agrees X view ok (perform X B (Genesis coins ts) S) (ledger_step X (Genesis coins ts) L)"
proof (cases "lg_init L")
  case True
  then show ?thesis using representsD(5) [OF assms(3)] assms(3) by (simp add: init_genesis_def agrees_def)
next
  case False
  note S = representsD [OF assms(3)]
  have inj: "inj_on (coin_id_of X) (fst ` set coins)" using assms(4) by simp
  show ?thesis
    by (rule reliable_backend.genesis_refines [OF assms(1,2) S(1) _ inj, of ts])
      (use False S(5) in \<open>auto simp: agrees_def Let_def ledger_root_def intro!: represents_kept [OF assms(3)]\<close>)
qed

lemma block_step:
  assumes "reliable_backend B view ok" "bincode_ok X" "represents X view ok S L" "legal X (Block b)"
  shows "agrees X view ok (perform X B (Block b) S) (ledger_step X (Block b) L)"
proof -
  note S = representsD [OF assms(3)]
  obtain result S' where out: "apply_block X B b S = (result, S')" by fastforce
  have conf: "cs_config S' = cs_config S" by (rule block_config [OF out])
  note err = block_error_refusal [OF assms(3), of b]
  have applied: "block_applied X view ok b S (lg_table L) (lg_hints L) (result, S')" if "refusal X L b = None"
  proof -
    have "height S \<noteq> - 1"
      using that assms(4) S(2) by (auto simp: refusal_def split: if_splits)
    then show ?thesis
      using reliable_backend.block_refines [OF assms(1,2) S(1), of b] assms(4) out by simp
  qed
  have refused: "result = Inl e \<and> S' = S" if "refusal X L b = Some e" for e
  proof -
    have "validate_block X B S b = Inl e" using reliable_backend.validated [OF assms(1,2) S(1)] err that by simp
    then show ?thesis using out by (simp add: apply_block_def)
  qed
  show ?thesis
  proof (cases "refusal X L b")
    case (Some e)
    then show ?thesis using refused [OF Some] out assms(3) by (simp add: agrees_def)
  next
    case None
    let ?L = "ledger_block X b L"
    have sel: "lg_table ?L = block_table X b (lg_table L)" "lg_hints ?L = lg_hints L \<union> block_hints b"
      by (simp_all add: ledger_block_def)
    have root: "ledger_root X ?L = merkle_root X (leaf_table X (block_table X b (lg_table L)))"
      by (simp add: ledger_root_def ledger_block_def)
    have h: "bd_height b = height S + 1" using None S(2) by (auto simp: refusal_def split: if_splits)
    have init: "lg_init L" using None by (auto simp: refusal_def split: if_splits)
    show ?thesis
    proof (cases "root_expected b (ledger_root X ?L)")
      case True
      then have R: "result = Inr \<lparr>abr_state_root = ledger_root X ?L,
          coins_created = length (coinbase_coins b) + length (additions b), coins_spent = length (removals b),
          abr_height = bd_height b\<rparr>"
        "store_ok X view ok S' (lg_table ?L) (lg_hints ?L)" "height S' = height S + 1" "tip_hash S' = block_hash b"
        "cs_timestamp S' = bd_timestamp b" "initialized S'" "kept (view (backend S)) (view (backend S'))"
        using applied [OF None] None err by (simp_all add: block_applied_def root Let_def sel)
      have "represents X view ok S' ?L"
        by (rule represents_kept [OF assms(3) R(7) conf R(2)])
          (use R(3-6) h init in \<open>simp_all add: ledger_block_def\<close>)
      then show ?thesis using None True R(1) out by (simp add: agrees_def Let_def)
    next
      case False
      then have R: "result = Inl (StateRootMismatch (the (expected_state_root b)) (ledger_root X ?L))"
        "store_ok X view ok S' (lg_table L) (lg_hints L)"
        using applied [OF None] None err by (simp_all add: block_applied_def root Let_def)
      from same_but_treeD [OF block_failed [OF out [unfolded R(1)]]] R(2) S have "represents X view ok S' L"
        by (simp add: represents_def)
      then show ?thesis using None False R(1) out by (simp add: agrees_def Let_def)
    qed
  qed
qed

lemma rollback_step:
  assumes "reliable_backend B view ok" "bincode_ok X" "represents X view ok S L"
  shows "agrees X view ok (answer rollback_outcome (rollback_to_block X B target S)) (ledger_rollback target L)"
proof -
  note S = representsD [OF assms(3)]
  obtain result S' where out: "rollback_to_block X B target S = (result, S')" by fastforce
  have conf: "cs_config S' = cs_config S" by (rule rollback_config [OF out])
  consider (closed) "\<not> lg_init L" | (above) "lg_init L" "sint target > sint (lg_height L)"
    | (noop) "lg_init L" "0 \<le> sint target" "target = lg_height L"
    | (cut) "lg_init L" "\<not> sint target > sint (lg_height L)" "\<not> (0 \<le> sint target \<and> target = lg_height L)" by blast
  then show ?thesis
  proof cases
    case closed
    then show ?thesis using S(5) assms(3) by (simp add: ledger_rollback_def rollback_to_block_def agrees_def)
  next
    case above
    then show ?thesis using S(2,5) assms(3) by (simp add: ledger_rollback_def rollback_to_block_def agrees_def)
  next
    case noop
    then show ?thesis
      using S(2,5) assms(3)
      by (simp add: ledger_rollback_def rollback_to_block_def agrees_def Let_def rollback_outcome_def)
  next
    case cut
    let ?t = "if sint target < 0 then 0 else target"
    obtain R where R: "result = Inr R" "rolled_back_to X view ok ?t S (lg_table L) (lg_hints L) R S'"
      using rollback_cases [OF assms(1,2) S(1), of target] cut S(2,5) out by (metis not_less Pair_inject)
    let ?L = "L\<lparr>lg_table := rolled_back ?t (lg_table L), lg_hints := kept_hints ?t (lg_table L) (lg_hints L),
      lg_height := ?t, lg_tip := 0\<rparr>"
    have "represents X view ok S' ?L"
      by (rule represents_kept [OF assms(3) _ conf]) (use R(2) S(4) cut(1) in \<open>simp_all add: rolled_back_to_def\<close>)
    moreover have "rollback_outcome R = RolledBack (lg_table L |` (deleted_ids ?t (lg_table L) \<union> respent_ids ?t (lg_table L)))
        (card (deleted_ids ?t (lg_table L))) (card (respent_ids ?t (lg_table L))) ?t"
      using R(2) by (simp add: rolled_back_to_def rollback_outcome_def)
    ultimately show ?thesis
      using cut R(1) out unfolding ledger_rollback_def agrees_def Let_def by (simp only: if_False simp_thms answer_simps prod.sel)
  qed
qed

lemma rollback_by_step:
  assumes "reliable_backend B view ok" "bincode_ok X" "represents X view ok S L"
  shows "agrees X view ok (perform X B (RollbackBy n) S) (ledger_step X (RollbackBy n) L)"
proof -
  have "rollback_n_blocks X B n S = rollback_to_block X B (lg_height L - n) S"
    using representsD(2) [OF assms(3)] by (simp add: rollback_n_blocks_def rollback_to_block_def)
  then show ?thesis using rollback_step [OF assms] by simp
qed

lemma add_hint_step:
  assumes "reliable_backend B view ok" "represents X view ok S L"
  shows "agrees X view ok (perform X B (AddHint i h) S) (ledger_step X (AddHint i h) L)"
proof (cases "validate_hint h")
  case (Inl e)
  then show ?thesis using assms(2) by (simp add: add_hint_def agrees_def)
next
  case (Inr act)
  show ?thesis
  proof (cases act)
    case HintSkip
    then show ?thesis using Inr assms(2) by (simp add: add_hint_def agrees_def)
  next
    case HintStore
    note S = representsD [OF assms(2)]
    have "0 < length h" "length h \<le> 32"
      using Inr HintStore by (auto simp: validate_hint_def MAX_HINT_LENGTH_def split: if_splits)
    then obtain S' where S': "add_hint B i h S = (Inr (), S')"
      "store_ok X view ok S' (lg_table L) (insert (i, h) (lg_hints L))" "S' = S\<lparr>backend := backend S'\<rparr>"
      "kept (view (backend S)) (view (backend S'))"
      by (rule reliable_backend.hint_added [OF assms(1) S(1)]) (rule that)
    have "f (S\<lparr>backend := backend S'\<rparr>) = f S'" for f :: "'a coin_store \<Rightarrow> 'b" using S'(3) by simp
    from this [of cs_config] this [of height] this [of tip_hash] this [of cs_timestamp] this [of initialized] S
    have "represents X view ok S' (L\<lparr>lg_hints := insert (i, h) (lg_hints L)\<rparr>)"
      by (intro represents_kept [OF assms(2) S'(4)]) (use S'(2) in simp_all)
    then show ?thesis using Inr HintStore S'(1) by (simp add: agrees_def)
  qed
qed

lemma remove_hints_step:
  assumes "reliable_backend B view ok" "represents X view ok S L"
  shows "agrees X view ok (perform X B (RemoveHints is) S) (ledger_step X (RemoveHints is) L)"
proof -
  note S = representsD [OF assms(2)]
  note rep = reliable_backend.hint_represented [OF assms(1) S(1)]
  let ?Hs = "{(i, h) \<in> lg_hints L. i \<notin> set is}"
  obtain s' where s': "try_fold_state (remove_hints_for_coin B) is 0 (backend S) =
      (Inr (0 + of_nat (card {(j, h) \<in> lg_hints L. j \<in> set is})), s')" "ok s'"
    "hints_ok (view s') ?Hs" "\<And>cf. cf \<notin> hint_cfs \<Longrightarrow> view s' cf = view (backend S) cf" "kept (view (backend S)) (view s')"
    by (rule reliable_backend.hints_removed [OF assms(1) rep(1,2), of "is" 0]) (rule that)
  have "represents X view ok (S\<lparr>backend := s'\<rparr>) (L\<lparr>lg_hints := ?Hs\<rparr>)"
    by (rule represents_kept [OF assms(2)]) (use s'(5) store_ok_hints [OF S(1) s'(2,4,3)] S in simp_all)
  then show ?thesis using s'(1) by (simp add: remove_hints_for_coins_def agrees_def)
qed

lemma save_step:
  assumes "reliable_backend B view ok" "bincode_ok X" "snapshot_codec_ok X" "represents X view ok S L"
  shows "agrees X view ok (perform X B SaveSnapshot S) (ledger_step X SaveSnapshot L)"
proof (cases "lg_init L")
  case True
  note S = representsD [OF assms(4)]
  let ?kept = "newest (max_snapshots (lg_config L)) (insert (lg_height L) (lg_saved L))"
  obtain b s' where s': "save_snapshot X B S = (Inr (), S\<lparr>backend := s'\<rparr>)" "ok s'"
    "view s' = (view (backend S))(CF_STATE_SNAPSHOTS := (view (backend S) CF_STATE_SNAPSHOTS)(snapshot_key (lg_height L) \<mapsto> b)
       |` (snapshot_key ` ?kept))"
    by (rule reliable_backend.saved [OF assms(1-3) S(1) _ S(8), unfolded S(2,6,9)]) (use True S(5) that in simp_all)
  have "finite (lg_saved L)"
    using reliable_backend.listed(4) [OF assms(1) _ S(8)] S(1,9) by (simp add: store_ok_def)
  then have "?kept \<subseteq> insert (lg_height L) (lg_saved L)" by (intro newest_subset) simp
  then have cps: "checkpoints (view s') = ?kept" "checkpoints_ok (view s')"
    using s'(3) S(8,9) by (auto simp: checkpoints_def checkpoints_ok_def restrict_map_def split: if_splits)
  have "keys_ok (view s')" using S(7) s'(3) by (auto simp: keys_ok_def restrict_map_def split: if_splits)
  moreover have "store_ok X view ok (S\<lparr>backend := s'\<rparr>) (lg_table L) (lg_hints L)"
    using s'(3) by (intro store_ok_checkpoints [OF S(1) s'(2)]) simp
  ultimately have "represents X view ok (S\<lparr>backend := s'\<rparr>) (L\<lparr>lg_saved := ?kept\<rparr>)"
    using S cps by (simp add: represents_def)
  then show ?thesis using True s'(1) by (simp add: agrees_def)
next
  case False
  then show ?thesis using representsD(5) [OF assms(4)] assms(4) by (simp add: save_snapshot_def agrees_def)
qed

lemma restore_step:
  assumes "reliable_backend B view ok" "bincode_ok X" "represents X view ok S L" "legal X (RestoreFrom snap)"
  shows "agrees X view ok (perform X B (RestoreFrom snap) S) (ledger_step X (RestoreFrom snap) L)"
proof (cases "restore_check X snap")
  case (Inl e)
  then show ?thesis using assms(3) by (simp add: restore_def agrees_def)
next
  case (Inr u)
  note S = representsD [OF assms(3)]
  have good: "hm_ok (sn_coins snap)" "table_ok X (sn_height snap) (map_of (sn_coins snap))" using assms(4) by simp_all
  have counts: "counts_ok X snap" using restore_check_cases [of X snap] Inr by (auto split: if_splits)
  let ?r = "merkle_root X (leaf_table X (map_of (sn_coins snap)))"
  show ?thesis
  proof (cases "sn_state_root snap = ?r")
    case True
    have "ok (backend S)" using S(1) by (simp add: store_ok_def)
    then obtain S' where S': "restore X B snap S = (Inr (), S')"
      "store_ok X view ok S' (map_of (sn_coins snap)) (snapshot_hints snap)" "initialized S'" "height S' = sn_height snap"
      "tip_hash S' = sn_block_hash snap" "cs_timestamp S' = sn_timestamp snap" "cs_config S' = cs_config S"
      "view (backend S') CF_STATE_SNAPSHOTS = Map.empty" "keys_ok (view (backend S'))"
      by (rule reliable_backend.restored [OF assms(1,2) _ S(7) good(1) counts True good(2)]) (rule that)
    then show ?thesis
      using Inr True S(6) by (simp add: agrees_def represents_def checkpoints_ok_def checkpoints_def Let_def)
  next
    case False
    then show ?thesis using restore_refused [OF assms(2) good(1) counts, where B = B and S = S] Inr assms(3) by (simp add: agrees_def Let_def)
  qed
qed

lemma reopen_step:
  assumes "reliable_backend B view ok" "bincode_ok X" "represents X view ok S L"
  shows "agrees X view ok (perform X B (Reopen config) S) (ledger_step X (Reopen config) L)"
proof -
  note S = representsD [OF assms(3)]
  show ?thesis
    by (rule reliable_backend.reopen [OF assms(1,2) S(1), of config]) (use S in \<open>simp add: agrees_def represents_def\<close>)
qed

lemma state_root_step:
  assumes "represents X view ok S L"
  shows "agrees X view ok (perform X B StateRoot S) (ledger_step X StateRoot L)"
proof -
  note S = representsD [OF assms]
  obtain r S' where out: "state_root X S = (r, S')" by fastforce
  have "S' = S\<lparr>merkle_tree := merkle_tree S'\<rparr>" using out by (auto simp: state_root_def split: prod.splits)
  then have "same_but_tree S S'" by (simp add: same_but_tree_def)
  from same_but_treeD [OF this] state_root_ok [OF S(1) out] S have "represents X view ok S' L" by (simp add: represents_def)
  then show ?thesis using out state_root_ok(1) [OF S(1) out] by (simp add: agrees_def ledger_root_def)
qed

lemma read_steps:
  assumes "reliable_backend B view ok" "bincode_ok X" "represents X view ok S L"
  shows "agrees X view ok (perform X B (Lookup i) S) (ledger_step X (Lookup i) L)"
    "agrees X view ok (perform X B (ByPuzzleHash inc ph s e) S) (ledger_step X (ByPuzzleHash inc ph s e) L)"
    "agrees X view ok (perform X B (ByHint h n) S) (ledger_step X (ByHint h n) L)"
    "agrees X view ok (perform X B SnapshotHeights S) (ledger_step X SnapshotHeights L)"
proof -
  note S = representsD [OF assms(3)]
  have "ok (backend S)" using S(1) by (simp add: store_ok_def)
  then have "available_snapshot_heights B S = Inr (sorted_list_of_set (lg_saved L))"
    using reliable_backend.listed [OF assms(1) _ S(8)] S(9) by (simp add: available_snapshot_heights_def)
  then show "agrees X view ok (perform X B SnapshotHeights S) (ledger_step X SnapshotHeights L)"
    using assms(3) by (simp add: agrees_def)
  show "agrees X view ok (perform X B (Lookup i) S) (ledger_step X (Lookup i) L)"
    using reliable_backend.represented(1) [OF assms(1,2) S(1)] assms(3) by (simp add: agrees_def)
  show "agrees X view ok (perform X B (ByPuzzleHash inc ph s e) S) (ledger_step X (ByPuzzleHash inc ph s e) L)"
    using reliable_backend.by_puzzle_hash [OF assms(1,2) S(1)] assms(3) by (simp add: agrees_def)
  show "agrees X view ok (perform X B (ByHint h n) S) (ledger_step X (ByHint h n) L)"
    using reliable_backend.ids_by_hint [OF assms(1) S(1)] assms(3) by (simp add: agrees_def)
qed

lemma call_refines:
  assumes "reliable_backend B view ok" "bincode_ok X" "snapshot_codec_ok X" "represents X view ok S L" "legal X c"
  shows "agrees X view ok (perform X B c S) (ledger_step X c L)"
proof (cases c)
  case (Rollback t)
  then show ?thesis using rollback_step [OF assms(1,2,4)] by simp
qed (use assms genesis_step block_step rollback_by_step add_hint_step remove_hints_step save_step restore_step
      reopen_step state_root_step read_steps in metis)+

end
