(* ===== verification/Ledger_Props.thy ===== *)
theory Ledger_Props
  imports Ledger_Refines
begin

text \<open>
  What the simulation gives: a store refines the ledger along any run, two stores that are given the same
  calls answer alike, and a chain of valid blocks is accepted to its end.
\<close>

section \<open>The simulation\<close>

lemma length_run: "length (fst (run step cs a)) = length cs"
  by (induction cs arbitrary: a) (auto split: prod.splits, metis fst_conv)

locale ledger_store = reliable_backend B view ok
  for B :: "'s storage_ops" and view :: "'s \<Rightarrow> disk" and ok :: "'s \<Rightarrow> bool" +
  fixes X :: externals
  assumes codecs: "bincode_ok X" "snapshot_codec_ok X"

sublocale ledger_store \<subseteq> ledger: simulation "perform X B" "ledger_step X" "represents X view ok" "legal X"
  by unfold_locales (use call_refines [OF reliable_backend_axioms codecs] in \<open>simp add: agrees_def\<close>)

context ledger_store
begin

lemma store_runs:
  assumes "represents X view ok S L" "list_all (legal X) cmds"
  shows "fst (run (perform X B) cmds S) = fst (run (ledger_step X) cmds L)"
    "represents X view ok (snd (run (perform X B) cmds S)) (snd (run (ledger_step X) cmds L))"
  using ledger.runs [OF assms] by simp_all

end

lemma ledger_storeI:
  "reliable_backend B view ok \<Longrightarrow> bincode_ok X \<Longrightarrow> snapshot_codec_ok X \<Longrightarrow> ledger_store B view ok X"
  by (simp add: ledger_store_def ledger_store_axioms_def)

interpretation mem_store: ledger_store "rocks_backend mem_rocks" "rocks_view mem_rocks mem_tab" mem_ok sample_externals
  by unfold_locales (rule bincode_ok_sample snapshot_codec_ok_sample)+

text \<open>
  C2. The store refines the ledger. Let a store represent a ledger. Then for every sequence of calls
  (genesis, blocks, rollbacks, hint insertions and removals, checkpoints, restores, reopenings and reads),
  failing ones included, the answers, error values and returned counts and roots are those of the ledger,
  and the store left represents the ledger after the calls. Additions are assumed to declare their ids, no
  block to have height 0, and restored snapshots to have ordered heights.
\<close>

theorem run_refines:
  assumes "reliable_backend B view ok" "bincode_ok X" "snapshot_codec_ok X"
    and "represents X view ok S L" "list_all (legal X) cmds"
  shows "case run (perform X B) cmds S of (outs, S') \<Rightarrow>
    outs = fst (run (ledger_step X) cmds L) \<and> represents X view ok S' (snd (run (ledger_step X) cmds L))"
  using ledger_store.store_runs [OF ledger_storeI, OF assms] by (simp add: split_def)

definition sample_commands :: "command list" where
  "sample_commands = [StateRoot, AddHint 10 [7], Genesis sample_coins 5, Block sample_block, Lookup 10, Rollback 0,
     Block sample_block, SaveSnapshot, SnapshotHeights, Rollback 9]"

lemma sample_commands_legal: "list_all (legal sample_externals) sample_commands"
  using sample_coins_inj sample_block_honest by (simp add: sample_commands_def sample_block_sel)

lemma sample_opened:
  obtains S where "open_store sample_externals (rocks_backend mem_rocks) config no_tables = Inr S"
    "represents sample_externals (rocks_view mem_rocks mem_tab) mem_ok S (ledger_new config)"
proof (rule empty_store_opens [OF mem_rocks.rocks.reliable_backend_axioms, OF bincode_ok_sample no_tables_view(1), of config])
  show "rocks_view mem_rocks mem_tab no_tables cf = Map.empty" for cf by simp
next
  fix S
  assume S: "open_store sample_externals (rocks_backend mem_rocks) config no_tables = Inr S"
  with that represents_empty [OF mem_rocks.rocks.reliable_backend_axioms, OF bincode_ok_sample no_tables_view S]
  show thesis by blast
qed

theorem run_refines_witness:
  "\<exists>S outs S'. run (perform sample_externals (rocks_backend mem_rocks)) sample_commands S = (outs, S')
     \<and> outs = fst (run (ledger_step sample_externals) sample_commands (ledger_new (cs_config sample_store)))
     \<and> length outs = 10"
proof -
  obtain S where "represents sample_externals (rocks_view mem_rocks mem_tab) mem_ok S (ledger_new (cs_config sample_store))"
    by (rule sample_opened) (rule that)
  note refines = run_refines [OF mem_rocks.rocks.reliable_backend_axioms, OF bincode_ok_sample snapshot_codec_ok_sample
      this sample_commands_legal]
  obtain outs S' where out: "run (perform sample_externals (rocks_backend mem_rocks)) sample_commands S = (outs, S')"
    by fastforce
  have "length sample_commands = 10" by (simp add: sample_commands_def)
  then have "length outs = 10" using length_run out by (metis fst_conv)
  with refines out show ?thesis by (intro exI [of _ S] exI [of _ outs] exI [of _ S']) simp
qed

section \<open>Replicas\<close>

text \<open>
  C6. Replicas agree. Two stores opened on empty databases, over two backends of any kind, that are given the
  same sequence of calls return the same answers to all of them, errors included, and end at the same height,
  tip, timestamp, unspent set and state root.
\<close>

theorem replicas_agree:
  assumes "reliable_backend B view ok" "ok s0" "view s0 = (\<lambda>_. Map.empty)" "open_store X B config s0 = Inr S"
    and "reliable_backend B' view' ok'" "ok' t0" "view' t0 = (\<lambda>_. Map.empty)" "open_store X B' config t0 = Inr T"
    and "bincode_ok X" "snapshot_codec_ok X" "list_all (legal X) cmds"
  shows "case (run (perform X B) cmds S, run (perform X B') cmds T) of ((outs, S'), (outs', T')) \<Rightarrow>
    outs' = outs \<and> height T' = height S' \<and> tip_hash T' = tip_hash S' \<and> cs_timestamp T' = cs_timestamp S'
    \<and> initialized T' = initialized S' \<and> unspent_ids T' = unspent_ids S' \<and> fst (state_root X T') = fst (state_root X S')"
proof -
  let ?L = "snd (run (ledger_step X) cmds (ledger_new config))"
  note S = ledger_store.store_runs [OF ledger_storeI [OF assms(1,9,10)]
      represents_empty [OF assms(1,9,2,3,4)] assms(11)]
  note T = ledger_store.store_runs [OF ledger_storeI [OF assms(5,9,10)]
      represents_empty [OF assms(5,9,6,7,8)] assms(11)]
  have "fst (state_root X Q) = ledger_root X ?L \<and> unspent_ids Q = unspent_of (lg_table ?L)" if "represents X v o1 Q ?L" for v o1 Q
    using state_root_ok(1) [OF representsD(1) [OF that]] representsD(1) [OF that]
    by (cases "state_root X Q") (simp add: ledger_root_def store_ok_def)
  from this [OF S(2)] this [OF T(2)] representsD(2-5) [OF S(2)] representsD(2-5) [OF T(2)] S(1) T(1) show ?thesis
    by (simp add: split_def)
qed

theorem replicas_agree_witness:
  "\<exists>S T. open_store sample_externals (rocks_backend mem_rocks) (cs_config sample_store) no_tables = Inr S
     \<and> open_store sample_externals (lmdb_ops mem_heed) (cs_config sample_store) no_lmdb = Inr T
     \<and> fst (run (perform sample_externals (lmdb_ops mem_heed)) sample_commands T)
       = fst (run (perform sample_externals (rocks_backend mem_rocks)) sample_commands S)"
proof -
  obtain S where S: "open_store sample_externals (rocks_backend mem_rocks) (cs_config sample_store) no_tables = Inr S"
    by (rule sample_opened) (rule that)
  obtain T where T: "open_store sample_externals (lmdb_ops mem_heed) (cs_config sample_store) no_lmdb = Inr T"
    by (rule empty_store_opens [OF mem_heed.lmdb.reliable_backend_axioms, OF bincode_ok_sample no_lmdb_view(1)]) (simp, rule that)
  show ?thesis
    using replicas_agree [OF mem_rocks.rocks.reliable_backend_axioms, OF no_tables_view S
        mem_heed.lmdb.reliable_backend_axioms, OF no_lmdb_view T bincode_ok_sample snapshot_codec_ok_sample
        sample_commands_legal] S T by (intro exI [of _ S] exI [of _ T]) (simp add: split_def)
qed

section \<open>Chains of blocks\<close>

text \<open>What it means for a block to extend a ledger, without the order of the checks.\<close>

definition extends :: "externals \<Rightarrow> ledger \<Rightarrow> block_data \<Rightarrow> bool" where
  "extends X L b \<longleftrightarrow>
     lg_init L \<and> bd_height b = lg_height L + 1 \<and> parent_hash b = lg_tip L \<and> 2 \<le> length (coinbase_coins b)
     \<and> set (removals b) \<subseteq> unspent_of (lg_table L)
     \<and> (let ids = map ca_coin_id (additions b) @ map (coin_id_of X) (coinbase_coins b)
        in distinct ids \<and> set ids \<inter> dom (lg_table L) = {})
     \<and> root_expected b (ledger_root X (ledger_block X b L))"

fun valid_chain :: "externals \<Rightarrow> ledger \<Rightarrow> block_data list \<Rightarrow> bool" where
  "valid_chain X L [] \<longleftrightarrow> True"
| "valid_chain X L (b # bs) \<longleftrightarrow> extends X L b \<and> valid_chain X (ledger_block X b L) bs"

lemma refusal_None:
  "refusal X L b = None \<and> root_expected b (ledger_root X (ledger_block X b L)) \<longleftrightarrow> extends X L b"
proof -
  have "find (bad_removal tbl) is = None \<longleftrightarrow> set is \<subseteq> unspent_of tbl" for tbl "is"
    by (auto simp: find_None_iff bad_removal_def unspent_of_def is_spent_def split: option.splits)
  moreover have "refusal X L b = None \<longleftrightarrow> lg_init L \<and> bd_height b = lg_height L + 1 \<and> parent_hash b = lg_tip L
      \<and> \<not> length (coinbase_coins b) < 2 \<and> find (bad_removal (lg_table L)) (removals b) = None
      \<and> clash (lg_table L) {} (map ca_coin_id (additions b) @ map (coin_id_of X) (coinbase_coins b)) = None"
    by (auto simp: refusal_def split: option.splits)
  ultimately show ?thesis unfolding extends_def clash_None Let_def by (auto simp: not_less)
qed

definition applied :: "externals \<Rightarrow> ledger \<Rightarrow> block_data \<Rightarrow> apply_block_result" where
  "applied X L b = \<lparr>abr_state_root = ledger_root X (ledger_block X b L),
     coins_created = length (coinbase_coins b) + length (additions b), coins_spent = length (removals b),
     abr_height = bd_height b\<rparr>"

lemma ledger_step_block:
  "extends X L b \<Longrightarrow> ledger_step X (Block b) L = (Applied (applied X L b), ledger_block X b L)"
  "\<not> extends X L b \<Longrightarrow> \<exists>e. ledger_step X (Block b) L = (Failed e, L)"
  using refusal_None [of X L b] by (auto simp: Let_def applied_def split: option.splits)

fun accepted :: "outcome \<Rightarrow> bool" where
  "accepted (Applied _) \<longleftrightarrow> True"
| "accepted _ \<longleftrightarrow> False"

lemma run_valid_chain:
  "valid_chain X L bs \<Longrightarrow> snd (run (ledger_step X) (map Block bs) L) = fold (ledger_block X) bs L
     \<and> list_all accepted (fst (run (ledger_step X) (map Block bs) L))"
proof (induction bs arbitrary: L)
  case Nil
  then show ?case by simp
next
  case (Cons b bs)
  then have "ledger_step X (Block b) L = (Applied (applied X L b), ledger_block X b L)"
    by (intro ledger_step_block(1)) simp
  with Cons show ?case by (simp add: split_def del: ledger_step.simps)
qed

lemma valid_chain_height: "valid_chain X L bs \<Longrightarrow> lg_height (fold (ledger_block X) bs L) = lg_height L + of_nat (length bs)"
proof (induction bs arbitrary: L)
  case Nil
  then show ?case by simp
next
  case (Cons b bs)
  then have "lg_height (ledger_block X b L) = lg_height L + 1" by (simp add: ledger_block_def extends_def)
  with Cons show ?case by (simp add: algebra_simps)
qed

lemma valid_chain_legal:
  "valid_chain X L bs \<Longrightarrow> list_all (honest X) bs \<Longrightarrow> unat (lg_height L) + length bs < 2 ^ 64 \<Longrightarrow>
     list_all (legal X) (map Block bs)"
proof (induction bs arbitrary: L)
  case Nil
  then show ?case by simp
next
  case (Cons b bs)
  have "unat (lg_height L + 1) = Suc (unat (lg_height L))"
    using Cons.prems(3) unat_word_ariths(1) [of "lg_height L" 1] by simp
  then have h: "unat (bd_height b) = Suc (unat (lg_height L))" using Cons.prems(1) by (simp add: extends_def)
  then have "bd_height b \<noteq> 0" by auto
  moreover have "lg_height (ledger_block X b L) = bd_height b" by (simp add: ledger_block_def)
  ultimately show ?case using Cons.IH [of "ledger_block X b L"] Cons.prems h by simp
qed

text \<open>
  C7. Valid chains are accepted to their end. A store over a reliable backend that represents a ledger applies
  every chain of blocks in which each extends the ledger before it (next height, parent the tip, at least two
  rewards, spending only unspent coins, all ids new and different, the expected root right where given): no
  call fails, and the store ends at the height of the last block, representing the table and hints with all
  blocks applied, with the root of that table. A block that does not extend the ledger is refused.
\<close>

theorem valid_chain_applied:
  assumes "reliable_backend B view ok" "bincode_ok X" "snapshot_codec_ok X" "represents X view ok S L"
    and "list_all (honest X) bs" "unat (lg_height L) + length bs < 2 ^ 64"
  shows "(valid_chain X L bs \<longrightarrow> (case run (perform X B) (map Block bs) S of (outs, S') \<Rightarrow>
      list_all accepted outs \<and> length outs = length bs \<and> height S' = height S + of_nat (length bs)
      \<and> represents X view ok S' (fold (ledger_block X) bs L)
      \<and> fst (state_root X S') = ledger_root X (fold (ledger_block X) bs L)))
    \<and> (\<forall>b. honest X b \<and> bd_height b \<noteq> 0 \<longrightarrow> (accepted (fst (perform X B (Block b) S)) \<longleftrightarrow> extends X L b))"
proof (intro conjI impI allI)
  assume chain: "valid_chain X L bs"
  obtain outs S' where out: "run (perform X B) (map Block bs) S = (outs, S')" by fastforce
  note runs = ledger_store.store_runs [OF ledger_storeI [OF assms(1-3)] assms(4) valid_chain_legal [OF chain assms(5,6)],
      unfolded run_valid_chain [OF chain, THEN conjunct1] out fst_conv snd_conv]
  have "fst (state_root X S') = ledger_root X (fold (ledger_block X) bs L)"
    using state_root_ok(1) [OF representsD(1) [OF runs(2)]] by (cases "state_root X S'") (simp add: ledger_root_def)
  moreover have "height S' = height S + of_nat (length bs)"
    using valid_chain_height [OF chain] representsD(2) [OF runs(2)] representsD(2) [OF assms(4)] by simp
  moreover have "length outs = length bs" using length_run [of "perform X B" "map Block bs" S] out by simp
  ultimately show "case run (perform X B) (map Block bs) S of (outs, S') \<Rightarrow>
      list_all accepted outs \<and> length outs = length bs \<and> height S' = height S + of_nat (length bs)
      \<and> represents X view ok S' (fold (ledger_block X) bs L)
      \<and> fst (state_root X S') = ledger_root X (fold (ledger_block X) bs L)"
    using runs run_valid_chain [OF chain] out by simp
next
  fix b
  assume "honest X b \<and> bd_height b \<noteq> 0"
  then have "fst (perform X B (Block b) S) = fst (ledger_step X (Block b) L)"
    using block_step [OF assms(1,2,4), of b] unfolding agrees_def by simp
  then show "accepted (fst (perform X B (Block b) S)) \<longleftrightarrow> extends X L b"
    using ledger_step_block [of X L b] by (cases "extends X L b") auto
qed

definition sample_ledger :: ledger where
  "sample_ledger = \<lparr>lg_table = genesis_table sample_externals 5 sample_coins, lg_hints = {}, lg_height = 0, lg_tip = 0,
     lg_time = 5, lg_init = True, lg_saved = {}, lg_config = cs_config sample_store\<rparr>"

lemma sample_represents:
  obtains S where "represents sample_externals (rocks_view mem_rocks mem_tab) mem_ok S sample_ledger"
proof (rule sample_opened)
  fix S
  assume S: "represents sample_externals (rocks_view mem_rocks mem_tab) mem_ok S (ledger_new (cs_config sample_store))"
  have L: "snd (ledger_step sample_externals (Genesis sample_coins 5) (ledger_new (cs_config sample_store))) = sample_ledger"
    by (simp add: ledger_new_def sample_ledger_def Let_def)
  have "legal sample_externals (Genesis sample_coins 5)" using sample_coins_inj by simp
  from genesis_step [OF mem_rocks.rocks.reliable_backend_axioms, OF bincode_ok_sample S this, unfolded agrees_def L, THEN conjunct2]
  show thesis by (rule that)
qed

lemma sample_extends: "extends sample_externals sample_ledger sample_block"
  unfolding refusal_None [symmetric]
  by (simp add: refusal_def sample_ledger_def sample_block_def genesis_table_def genesis_records_def sample_coins_def
      record_map_def bad_removal_def is_spent_def root_expected_def)

theorem valid_chain_applied_witness:
  "\<exists>S outs S'. run (perform sample_externals (rocks_backend mem_rocks)) [Block sample_block] S = (outs, S')
     \<and> list_all accepted outs \<and> length outs = 1 \<and> height S' = 1"
proof (rule sample_represents)
  fix S
  assume S: "represents sample_externals (rocks_view mem_rocks mem_tab) mem_ok S sample_ledger"
  have "list_all (honest sample_externals) [sample_block]" "unat (lg_height sample_ledger) + length [sample_block] < 2 ^ 64"
    "valid_chain sample_externals sample_ledger [sample_block]" "height S = 0"
    using sample_block_honest sample_extends representsD(2) [OF S] by (simp_all add: sample_ledger_def)
  with valid_chain_applied [OF mem_rocks.rocks.reliable_backend_axioms, OF bincode_ok_sample snapshot_codec_ok_sample S,
      of "[sample_block]"]
  show ?thesis by (intro exI [of _ S]) (auto split: prod.splits simp del: perform.simps run.simps)
qed

end
