(* ===== verification/Failures.thy ===== *)
theory Failures
  imports Atomicity
begin

text \<open>
  Writes that fail half way through a call. A backend whose batch writes fail, or whose puts into one column
  family fail, stands for an engine that runs out of space or loses its disk; the theorems say what the store
  then holds in memory and on disk and how it can be brought back.
\<close>

section \<open>Failing backends\<close>

definition no_batches :: "storage_error \<Rightarrow> 's storage_ops \<Rightarrow> 's storage_ops" where
  "no_batches e B = B\<lparr>kv_batch_write := \<lambda>_ _. Inl e\<rparr>"

definition no_puts :: "string \<Rightarrow> storage_error \<Rightarrow> 's storage_ops \<Rightarrow> 's storage_ops" where
  "no_puts cf e B = B\<lparr>kv_put := \<lambda>s cf' k v. if cf' = cf then Inl e else kv_put B s cf' k v\<rparr>"

lemma no_batches_ops [simp]:
  "kv_get (no_batches e B) = kv_get B" "kv_put (no_batches e B) = kv_put B" "kv_delete (no_batches e B) = kv_delete B"
  "kv_prefix_scan (no_batches e B) = kv_prefix_scan B" "kv_batch_write (no_batches e B) s b = Inl e"
  by (simp_all add: no_batches_def)

text \<open>Everything that comes before the write of a block is as with the backend that works.\<close>

lemma no_batches_checks [simp]:
  "check_removal X (no_batches e B) = check_removal X B"
  "check_addition_id (no_batches e B) = check_addition_id B"
  "rebuild_merkle_tree X (no_batches e B) = rebuild_merkle_tree X B"
  "clear_column_family (no_batches e B) = clear_column_family B"
  unfolding fun_eq_iff check_removal_def check_addition_id_def rebuild_merkle_tree_def clear_column_family_def
    no_batches_ops by simp_all

lemma no_batches_reads [simp]:
  "validate_block X (no_batches e B) S block = validate_block X B S block"
  "merkle_phase X (no_batches e B) block w S = merkle_phase X B block w S"
  unfolding validate_block_def check_additions_def merkle_phase_def no_batches_checks by (rule refl)+

text \<open>Validation does not look at the tree.\<close>

lemma validate_tree [simp]: "validate_block X B (S\<lparr>merkle_tree := t\<rparr>) block = validate_block X B S block"
proof -
  have eqs: "check_removal X B (S\<lparr>merkle_tree := t\<rparr>) = check_removal X B S"
    "check_addition_id B (S\<lparr>merkle_tree := t\<rparr>) = check_addition_id B S"
    by (simp_all add: fun_eq_iff check_removal_def check_addition_id_def)
  show ?thesis unfolding validate_block_def check_additions_def eqs by simp
qed

section \<open>A block whose write fails\<close>

lemma first_new_record:
  assumes "coinbase_coins block \<noteq> []"
  shows "hd (map (leaf_entry X) (new_records block)) =
      (coin_id_of X (hd (coinbase_coins block)),
       snd (leaf_entry X (coin_record_new (hd (coinbase_coins block)) (bd_height block) (bd_timestamp block) True)))"
    "new_records block \<noteq> []"
  using assms by (cases "coinbase_coins block"; simp add: new_records_def leaf_entry_def record_coin_id_def)+

lemma find_hd: "xs \<noteq> [] \<Longrightarrow> P (hd xs) \<Longrightarrow> find P xs = Some (hd xs)"
  by (cases xs) auto

lemma batch_insert_clash:
  assumes "es \<noteq> []" "map_of (leaves t) (fst (hd es)) \<noteq> None"
  shows "batch_insert es t = Inl (KeyAlreadyExists (fst (hd es)))"
proof -
  have "find (\<lambda>(key, _). hm_contains_key (leaves t) key) es = Some (hd es)"
    using assms by (intro find_hd) (auto simp: hm_contains_key_def split_def)
  then show ?thesis by (simp add: batch_insert_def split_def)
qed

context reliable_backend
begin

lemma block_not_written:
  assumes "bincode_ok X" "store_ok X view ok S tbl Hs" "honest X block" "block_error X S tbl block = None"
    and "root_expected block (merkle_root X (leaf_table X (block_table X block tbl)))"
  obtains t where "tree_ok X t" "map_of (leaves t) = leaf_table X (block_table X block tbl)"
    "apply_block X (no_batches e B) block S = (Inl (from_storage_error e), S\<lparr>merkle_tree := t\<rparr>)"
    "apply_block X B block (S\<lparr>merkle_tree := t\<rparr>) =
       (Inl (StorageError (''Merkle insert: '' @ merkle_error_to_string X (KeyAlreadyExists (coin_id_of X (hd (coinbase_coins block)))))),
        S\<lparr>merkle_tree := t\<rparr>)"
proof -
  let ?rs = "map (\<lambda>i. the (tbl i)) (removals block)"
  let ?w = "\<lparr>bw_batch = block_ops X block ?rs, bw_inserts = map (leaf_entry X) (new_records block),
     bw_updates = map (\<lambda>r. leaf_entry X (spend (bd_height block) r)) ?rs,
     bw_created = length (new_records block), bw_spent = length ?rs\<rparr>"
  have w: "bw_inserts ?w = map (leaf_entry X) (new_records block)"
    "bw_updates ?w = map (\<lambda>i. leaf_entry X (spend (bd_height block) (the (tbl i)))) (removals block)"
    by (simp_all add: comp_def)
  obtain t where t: "tree_ok X t" "map_of (leaves t) = leaf_table X (block_table X block tbl)"
    "merkle_phase X B block ?w S = (Inr (merkle_root X (leaf_table X (block_table X block tbl))), S\<lparr>merkle_tree := t\<rparr>)"
    by (rule merkle_updated [OF assms(2,4,3) w]) (use assms(5) that in \<open>simp add: Let_def\<close>)
  let ?S = "S\<lparr>merkle_tree := t\<rparr>" and ?c = "hd (coinbase_coins block)"
  have batch: "block_batch X block ?rs = Inr ?w" using block_batch_eq [OF assms(1), of block ?rs] by simp
  have valid: "validate_block X B S block = Inr ?rs" using validated [OF assms(1,2), of block] assms(4) by simp
  have fails: "apply_block X (no_batches e B) block S = (Inl (from_storage_error e), ?S)"
    unfolding apply_block_def no_batches_reads valid batch sum.case t(3) prod.case by (simp add: commit_block_def)
  have ne: "coinbase_coins block \<noteq> []"
    using assms(4) by (auto simp: block_error_def split: if_splits)
  note first = first_new_record [OF ne]
  have "coin_id_of X ?c \<in> dom (block_table X block tbl)"
  proof -
    have "coin_id_of X ?c \<in> record_coin_id X ` set (new_records block)"
      using ne by (cases "coinbase_coins block") (auto simp: new_records_def record_coin_id_def image_iff)
    then have "coin_id_of X ?c \<in> dom (record_map X (new_records block))" unfolding dom_record_map .
    then show ?thesis unfolding block_table_eq [OF assms(4,3)] by auto
  qed
  then have clash: "batch_insert (bw_inserts ?w) (merkle_tree ?S) = Inl (KeyAlreadyExists (coin_id_of X ?c))"
    using batch_insert_clash [of "bw_inserts ?w" t] first t(2) by (auto simp: leaf_table_def)
  have valid': "validate_block X B ?S block = Inr ?rs" using valid by simp
  have "bw_inserts ?w \<noteq> []" using first(2) by simp
  then have phase: "merkle_phase X B block ?w ?S =
      (Inl (StorageError (''Merkle insert: '' @ merkle_error_to_string X (KeyAlreadyExists (coin_id_of X ?c)))), ?S)"
    unfolding merkle_phase_def clash by simp
  have "apply_block X B block ?S =
      (Inl (StorageError (''Merkle insert: '' @ merkle_error_to_string X (KeyAlreadyExists (coin_id_of X ?c)))), ?S)"
    unfolding apply_block_def valid' batch sum.case phase prod.case ..
  with that [OF t(1,2)] fails show thesis by blast
qed

end

text \<open>
  C14. Failed calls. Whatever the backend does, when \<open>init_genesis\<close>, \<open>apply_block\<close>, \<open>rollback_to_block\<close> or
  \<open>rollback_n_blocks\<close> returns an error, at whichever step, nothing but the cached Merkle tree has changed. If
  the store represented a table before, opening it again over a backend that works gives a store that
  represents the same table and hints, with the same root.
\<close>

theorem failed_calls_recover:
  assumes "reliable_backend B view ok" "bincode_ok X" "store_ok X view ok S tbl Hs"
    and "init_genesis X B' coins ts S = (Inl e, S') \<or> apply_block X B' block S = (Inl e, S')
      \<or> rollback_to_block X B' target S = (Inl e, S') \<or> rollback_n_blocks X B' n S = (Inl e, S')"
  shows "S' = S\<lparr>merkle_tree := merkle_tree S'\<rparr>
    \<and> (\<exists>S2. open_store X B (cs_config S) (backend S') = Inr S2 \<and> store_ok X view ok S2 tbl Hs
        \<and> initialized S2 = initialized S \<and> height S2 = height S \<and> tip_hash S2 = tip_hash S
        \<and> fst (state_root X S2) = merkle_root X (leaf_table X tbl))"
proof -
  have "rollback_n_blocks X B' n S = (Inl e, S') \<Longrightarrow> same_but_tree S S'"
    using rollback_failed [of X B' "height S - n" S e S'] by (auto simp: rollback_n_blocks_def split: if_splits)
  then have same: "same_but_tree S S'" using assms(4) genesis_failed block_failed rollback_failed by metis
  obtain S2 where S2: "open_store X B (cs_config S) (backend S) = Inr S2" "store_ok X view ok S2 tbl Hs"
    "initialized S2 = initialized S" "height S2 = height S" "tip_hash S2 = tip_hash S"
    by (rule reliable_backend.reopen [OF assms(1-3)]) (rule that)
  have "fst (state_root X S2) = merkle_root X (leaf_table X tbl)"
    using state_root_ok(1) [OF S2(2)] by (metis prod.collapse)
  with S2 same show ?thesis using same_but_treeD(1) [OF same] by (auto simp: same_but_tree_def)
qed

theorem failed_calls_recover_witness:
  "\<exists>S S' S2. fst (apply_block sample_externals (no_batches MapFull (rocks_backend mem_rocks)) sample_block S)
       = Inl (from_storage_error MapFull)
     \<and> S' = snd (apply_block sample_externals (no_batches MapFull (rocks_backend mem_rocks)) sample_block S)
     \<and> open_store sample_externals (rocks_backend mem_rocks) (cs_config S) (backend S') = Inr S2 \<and> height S2 = 0"
proof (rule sample_chain)
  fix S
  assume S: "store_ok sample_externals (rocks_view mem_rocks mem_tab) mem_ok S
      (genesis_table sample_externals 5 sample_coins) {}" "initialized S" "height S = 0" "tip_hash S = 0"
  have root: "root_expected sample_block r" for r by (simp add: sample_block_sel root_expected_def)
  obtain S' where S': "apply_block sample_externals (no_batches MapFull (rocks_backend mem_rocks)) sample_block S
      = (Inl (from_storage_error MapFull), S')"
    by (rule reliable_backend.block_not_written [OF mem_rocks.rocks.reliable_backend_axioms, OF bincode_ok_sample S(1)
        sample_block_honest sample_block_accepted [OF S(2-4)] root, of MapFull]) (rule that)
  from failed_calls_recover [OF mem_rocks.rocks.reliable_backend_axioms, OF bincode_ok_sample S(1)
      disjI2 [OF disjI1 [OF S']], THEN conjunct2]
  obtain S2 where "open_store sample_externals (rocks_backend mem_rocks) (cs_config S) (backend S') = Inr S2"
    "height S2 = 0" using S(3) by auto
  then show ?thesis using S' by (intro exI [of _ S] exI [of _ S'] exI [of _ S2]) simp
qed

text \<open>
  C15. A block whose write fails. If the batch of an acceptable block cannot be written, \<open>apply_block\<close> returns
  the storage error with the cached tree already that of the new table: the state root it then reports is that
  of a block the store does not have. Applying the same block again fails on the first reward coin, although
  the backend works again, until the store is reopened; the reopened store represents the old table and accepts
  the block.
\<close>

theorem failed_write_wedges:
  assumes "reliable_backend B view ok" "bincode_ok X" "store_ok X view ok S tbl Hs" "honest X block" "height S \<noteq> - 1"
    and "block_error X S tbl block = None"
    and "root_expected block (merkle_root X (leaf_table X (block_table X block tbl)))"
  shows "\<exists>S'. apply_block X (no_batches e B) block S = (Inl (from_storage_error e), S')
    \<and> height S' = height S \<and> fst (state_root X S') = merkle_root X (leaf_table X (block_table X block tbl))
    \<and> apply_block X B block S' = (Inl (StorageError (''Merkle insert: ''
         @ merkle_error_to_string X (KeyAlreadyExists (coin_id_of X (hd (coinbase_coins block)))))), S')
    \<and> (\<exists>S2 R S3. open_store X B (cs_config S) (backend S') = Inr S2 \<and> store_ok X view ok S2 tbl Hs
         \<and> apply_block X B block S2 = (Inr R, S3) \<and> abr_state_root R = fst (state_root X S'))"
proof (rule reliable_backend.block_not_written [OF assms(1-4,6,7), of e])
  fix t
  assume t: "tree_ok X t" "map_of (leaves t) = leaf_table X (block_table X block tbl)"
    "apply_block X (no_batches e B) block S = (Inl (from_storage_error e), S\<lparr>merkle_tree := t\<rparr>)"
    "apply_block X B block (S\<lparr>merkle_tree := t\<rparr>) =
       (Inl (StorageError (''Merkle insert: '' @ merkle_error_to_string X (KeyAlreadyExists (coin_id_of X (hd (coinbase_coins block)))))),
        S\<lparr>merkle_tree := t\<rparr>)"
  let ?r = "merkle_root X (leaf_table X (block_table X block tbl))"
  have root: "fst (state_root X (S\<lparr>merkle_tree := t\<rparr>)) = ?r"
    using smt_root_eq(1) [OF t(1)] t(2) by (auto simp: state_root_def split: prod.splits)
  obtain S2 where S2: "open_store X B (cs_config S) (backend S) = Inr S2" "store_ok X view ok S2 tbl Hs"
    "height S2 = height S" "tip_hash S2 = tip_hash S" "initialized S2 = initialized S"
    by (rule reliable_backend.reopen [OF assms(1-3)]) (rule that)
  have "block_error X S2 tbl block = None" using assms(6) unfolding block_error_def S2(3-5) .
  then have "\<exists>R S3. apply_block X B block S2 = (Inr R, S3) \<and> abr_state_root R = ?r"
    using reliable_backend.block_refines [OF assms(1,2) S2(2) assms(4)] assms(5,7) S2(3)
    by (cases "apply_block X B block S2") (simp add: block_applied_def Let_def)
  with t(3,4) root S2(1,2) show ?thesis by (intro exI [of _ "S\<lparr>merkle_tree := t\<rparr>"]) simp
qed

theorem failed_write_wedges_witness:
  "\<exists>S S'. height S = 0
     \<and> apply_block sample_externals (no_batches MapFull (rocks_backend mem_rocks)) sample_block S
         = (Inl (from_storage_error MapFull), S')
     \<and> apply_block sample_externals (rocks_backend mem_rocks) sample_block S'
         = (Inl (StorageError (''Merkle insert: ''
              @ merkle_error_to_string sample_externals (KeyAlreadyExists (coin_id_of sample_externals (sample_coin 1))))), S')"
proof (rule sample_chain)
  fix S
  assume S: "store_ok sample_externals (rocks_view mem_rocks mem_tab) mem_ok S
      (genesis_table sample_externals 5 sample_coins) {}" "initialized S" "height S = 0" "tip_hash S = 0"
  have h: "height S \<noteq> - 1" and hd: "hd (coinbase_coins sample_block) = sample_coin 1" and root: "root_expected sample_block r" for r
    using S(3) by (simp_all add: sample_block_def root_expected_def)
  from failed_write_wedges [OF mem_rocks.rocks.reliable_backend_axioms, OF bincode_ok_sample S(1) sample_block_honest h
      sample_block_accepted [OF S(2-4)] root, of MapFull, unfolded hd] S(3)
  show ?thesis by blast
qed

section \<open>Another block after a write that failed\<close>

lemma commit_tree:
  "commit_block X B block w r (S\<lparr>merkle_tree := t\<rparr>) = map_prod id (\<lambda>S'. S'\<lparr>merkle_tree := t\<rparr>) (commit_block X B block w r S)"
  by (simp add: commit_block_def split: sum.splits)

text \<open>The tree after a block was applied over the leaves of a table that is not the store's.\<close>

lemma merkle_over:
  assumes "tree_ok X t" "map_of (leaves t) = leaf_table X T"
    and "distinct (map (record_coin_id X) rs)" "record_coin_id X ` set rs \<inter> dom T = {}"
    and "set is \<subseteq> dom T" "\<And>i. i \<in> set is \<Longrightarrow> record_coin_id X (f i) = i"
    and "bw_inserts w = map (leaf_entry X) rs" "bw_updates w = map (\<lambda>i. leaf_entry X (f i)) is" "expected_state_root b = None"
  obtains t' where "merkle_phase X B b w (S\<lparr>merkle_tree := t\<rparr>) =
      (Inr (merkle_root X (leaf_table X (\<lambda>j. if j \<in> set is then Some (f j) else (T ++ record_map X rs) j))), S\<lparr>merkle_tree := t'\<rparr>)"
proof -
  obtain t1 where t1: "batch_insert (bw_inserts w) t = Inr t1" "map_of (leaves t1) = leaf_table X (T ++ record_map X rs)"
    using inserted_leaves [OF assms(2-4)] assms(7) by metis
  have "set is \<subseteq> dom (T ++ record_map X rs)" using assms(5) by auto
  from updated_leaves [OF t1(2) this assms(6)] obtain t2 where t2: "batch_update (bw_updates w) t1 = Inr t2"
    "map_of (leaves t2) = leaf_table X (\<lambda>j. if j \<in> set is then Some (f j) else (T ++ record_map X rs) j)"
    using assms(8) by metis
  have t2_ok: "tree_ok X t2" using tree_ok_batch(1) [OF assms(1) t1(1)] tree_ok_batch(2) [OF _ t2(1)] by blast
  obtain r t3 where t3: "smt_root X t2 = (r, t3)" by fastforce
  have "(if bw_inserts w \<noteq> [] then batch_insert (bw_inserts w) t else Inr t) = Inr t1"
    "(if bw_updates w \<noteq> [] then batch_update (bw_updates w) t1 else Inr t1) = Inr t2"
    using t1(1) t2(1) by (auto simp: batch_insert_Inr batch_update_Inr smt_insert_all_def)
  then have "merkle_phase X B b w (S\<lparr>merkle_tree := t\<rparr>) = (Inr r, S\<lparr>merkle_tree := t3\<rparr>)"
    using assms(9) unfolding merkle_phase_def by (auto simp: t3)
  with that smt_root_eq(1) [OF t2_ok t3] t2(2) show thesis by simp
qed

text \<open>A block over the table that another block of the same height has left.\<close>

lemma block_over_block:
  assumes "table_ok X h tbl" "honest X b1" "block_error X S tbl b1 = None" "honest X b2" "block_error X S tbl b2 = None"
  shows "set (removals b2) \<subseteq> dom (block_table X b1 tbl)"
    and "i \<in> set (removals b2) \<Longrightarrow> record_coin_id X (spend (bd_height b2) (the (tbl i))) = i"
    and "(\<lambda>j. if j \<in> set (removals b2) then Some (spend (bd_height b2) (the (tbl j)))
        else (block_table X b1 tbl ++ record_map X (new_records b2)) j) = block_table X b2 (block_table X b1 tbl)"
proof -
  note a = accepted_block [OF assms(5,4)] and a1 = accepted_block [OF assms(3,2)]
  let ?T = "block_table X b1 tbl"
  show "set (removals b2) \<subseteq> dom ?T"
    unfolding block_table_eq [OF assms(3,2)]
    by (auto simp: map_add_def split: option.splits dest!: a(3))
  show "record_coin_id X (spend (bd_height b2) (the (tbl i))) = i" if "i \<in> set (removals b2)"
    using a(3) [OF that] table_ok_id [OF assms(1)] by auto
  have "Some (spend (bd_height b2) (the (tbl j))) = block_table X b2 ?T j" if removed: "j \<in> set (removals b2)" for j
  proof -
    obtain r where r: "tbl j = Some r" using a(3) [OF removed] by blast
    then have "record_map X (new_records b1) j = None" using a1(5) dom_record_map [of X "new_records b1"] by blast
    then have "?T j = Some r \<or> ?T j = Some (spend (bd_height b2) r)"
      using r a(2) a1(2) by (simp add: block_table_def map_add_def)
    then show ?thesis using removed r by (auto simp: block_table_def spend_def)
  qed
  then show "(\<lambda>j. if j \<in> set (removals b2) then Some (spend (bd_height b2) (the (tbl j)))
        else (?T ++ record_map X (new_records b2)) j) = block_table X b2 ?T"
    by (auto simp: fun_eq_iff block_table_def)
qed

text \<open>An acceptable block over whatever tree: rows and root part.\<close>

lemma block_over_tree:
  assumes "reliable_backend B view ok" "bincode_ok X" "store_ok X view ok S tbl Hs" "height S \<noteq> - 1"
    and "honest X block" "block_error X S tbl block = None"
    and w: "bw_batch w = block_ops X block rs" "bw_inserts w = map (leaf_entry X) (new_records block)"
      "bw_updates w = map (\<lambda>i. leaf_entry X (spend (bd_height block) (the (tbl i)))) (removals block)"
    and "block_batch X block rs = Inr w" "rs = map (\<lambda>i. the (tbl i)) (removals block)" "expected_state_root block = None"
    and "merkle_phase X B block w (S\<lparr>merkle_tree := t\<rparr>) = (Inr r, S\<lparr>merkle_tree := t'\<rparr>)"
  obtains R S2 where "apply_block X B block (S\<lparr>merkle_tree := t\<rparr>) = (Inr R, S2\<lparr>merkle_tree := t'\<rparr>)" "abr_state_root R = r"
    "store_ok X view ok S2 (block_table X block tbl) (Hs \<union> block_hints block)"
proof -
  have root: "root_expected block r'" for r' using assms(12) by (simp add: root_expected_def)
  obtain tg where tg: "tree_ok X tg" "map_of (leaves tg) = leaf_table X (block_table X block tbl)"
    by (rule reliable_backend.merkle_updated [OF assms(1,3,6,5) w(2,3)]) (rule that)
  let ?R = "\<lparr>abr_state_root = r, coins_created = bw_created w, coins_spent = bw_spent w, abr_height = bd_height block\<rparr>"
  obtain S2 where S2: "commit_block X B block w r (S\<lparr>merkle_tree := tg\<rparr>) = (Inr ?R, S2)"
    "store_ok X view ok S2 (block_table X block tbl) (Hs \<union> block_hints block)"
    by (rule reliable_backend.block_committed [OF assms(1,3,6,5,4) tg]) (use w(1) assms(11) that in auto)
  have "commit_block X B block w r (S\<lparr>merkle_tree := t'\<rparr>) = (Inr ?R, S2\<lparr>merkle_tree := t'\<rparr>)"
    using S2(1) unfolding commit_tree by (cases "commit_block X B block w r S") auto
  moreover have "validate_block X B S block = Inr rs"
    using reliable_backend.validated [OF assms(1-3), of block] assms(6,11) by simp
  ultimately have "apply_block X B block (S\<lparr>merkle_tree := t\<rparr>) = (Inr ?R, S2\<lparr>merkle_tree := t'\<rparr>)"
    using assms(10,13) by (simp add: apply_block_def)
  with that S2(2) show thesis by simp
qed

text \<open>
  C16. A second block after a failed write. After the write of one block failed, another block of the same height
  whose coins do not clash with it is accepted, and the state root it reports is that of a table with both
  blocks, although only the second is stored: reopening the store gives the root of the second block alone.
\<close>

theorem failed_write_poisons:
  assumes "reliable_backend B view ok" "bincode_ok X" "store_ok X view ok S tbl Hs" "height S \<noteq> - 1"
    and "honest X b1" "block_error X S tbl b1 = None" "expected_state_root b1 = None"
    and "honest X b2" "block_error X S tbl b2 = None" "expected_state_root b2 = None"
    and "record_coin_id X ` set (new_records b2) \<inter> dom (block_table X b1 tbl) = {}"
  shows "\<exists>S1 R S2 S3. apply_block X (no_batches e B) b1 S = (Inl (from_storage_error e), S1)
    \<and> apply_block X B b2 S1 = (Inr R, S2)
    \<and> abr_state_root R = merkle_root X (leaf_table X (block_table X b2 (block_table X b1 tbl)))
    \<and> open_store X B (cs_config S) (backend S2) = Inr S3
    \<and> store_ok X view ok S3 (block_table X b2 tbl) (Hs \<union> block_hints b2)
    \<and> fst (state_root X S3) = merkle_root X (leaf_table X (block_table X b2 tbl))"
proof -
  let ?T = "block_table X b1 tbl" and ?rs = "map (\<lambda>i. the (tbl i)) (removals b2)"
  let ?w = "\<lparr>bw_batch = block_ops X b2 ?rs, bw_inserts = map (leaf_entry X) (new_records b2),
     bw_updates = map (\<lambda>r. leaf_entry X (spend (bd_height b2) r)) ?rs,
     bw_created = length (new_records b2), bw_spent = length ?rs\<rparr>"
  have w: "bw_batch ?w = block_ops X b2 ?rs" "bw_inserts ?w = map (leaf_entry X) (new_records b2)"
    "bw_updates ?w = map (\<lambda>i. leaf_entry X (spend (bd_height b2) (the (tbl i)))) (removals b2)"
    by (simp_all add: comp_def)
  have root: "root_expected b1 r" for r using assms(7) by (simp add: root_expected_def)
  obtain t where t: "tree_ok X t" "map_of (leaves t) = leaf_table X ?T"
    "apply_block X (no_batches e B) b1 S = (Inl (from_storage_error e), S\<lparr>merkle_tree := t\<rparr>)"
    by (rule reliable_backend.block_not_written [OF assms(1-3,5,6) root, of e]) (rule that)
  have "table_ok X (height S) tbl" using assms(3) by (simp add: store_ok_def)
  note over = block_over_block [OF this assms(5,6,8,9)]
  obtain t' where t': "merkle_phase X B b2 ?w (S\<lparr>merkle_tree := t\<rparr>) =
      (Inr (merkle_root X (leaf_table X (block_table X b2 ?T))), S\<lparr>merkle_tree := t'\<rparr>)"
    by (rule merkle_over [OF t(1,2) accepted_block(4) [OF assms(9,8)] assms(11) over(1,2) w(2,3) assms(10), of B S])
      (assumption, rule that, simp only: over(3))
  have "block_batch X b2 ?rs = Inr ?w" using block_batch_eq [OF assms(2), of b2 ?rs] by simp
  from block_over_tree [OF assms(1-4,8,9) w this refl assms(10) t']
  obtain R S2 where S2: "apply_block X B b2 (S\<lparr>merkle_tree := t\<rparr>) = (Inr R, S2\<lparr>merkle_tree := t'\<rparr>)"
    "abr_state_root R = merkle_root X (leaf_table X (block_table X b2 ?T))"
    "store_ok X view ok S2 (block_table X b2 tbl) (Hs \<union> block_hints b2)" by metis
  obtain S3 where S3: "open_store X B (cs_config S) (backend S2) = Inr S3"
    "store_ok X view ok S3 (block_table X b2 tbl) (Hs \<union> block_hints b2)"
    by (rule reliable_backend.reopen [OF assms(1,2) S2(3)]) (rule that)
  have "fst (state_root X S3) = merkle_root X (leaf_table X (block_table X b2 tbl))"
    using state_root_ok(1) [OF S3(2)] by (metis prod.collapse)
  with t(3) S2(1,2) S3 show ?thesis by (intro exI [of _ "S\<lparr>merkle_tree := t\<rparr>"]) auto
qed

definition rival_block :: block_data where
  "rival_block = \<lparr>bd_height = 1, bd_timestamp = 9, block_hash = 78, parent_hash = 0, additions = [], removals = [10],
     coinbase_coins = [sample_coin 3, sample_coin 4], bd_hints = [], expected_state_root = None\<rparr>"

theorem failed_write_poisons_witness:
  "\<exists>S S1 R S2 S3. apply_block sample_externals (no_batches MapFull (rocks_backend mem_rocks)) sample_block S
       = (Inl (from_storage_error MapFull), S1)
     \<and> apply_block sample_externals (rocks_backend mem_rocks) rival_block S1 = (Inr R, S2)
     \<and> open_store sample_externals (rocks_backend mem_rocks) (cs_config S) (backend S2) = Inr S3
     \<and> fst (state_root sample_externals S3) = merkle_root sample_externals (leaf_table sample_externals
         (block_table sample_externals rival_block (genesis_table sample_externals 5 sample_coins)))"
proof (rule sample_chain)
  fix S
  let ?tbl = "genesis_table sample_externals 5 sample_coins"
  assume S: "store_ok sample_externals (rocks_view mem_rocks mem_tab) mem_ok S ?tbl {}"
    "initialized S" "height S = 0" "tip_hash S = 0"
  have b1: "height S \<noteq> - 1" "expected_state_root sample_block = None" using S(3) by (simp_all add: sample_block_sel)
  have b2: "honest sample_externals rival_block" "block_error sample_externals S ?tbl rival_block = None"
    "expected_state_root rival_block = None"
    using S(2-4) by (simp_all add: rival_block_def honest_def block_error_def genesis_table_def genesis_records_def
        sample_coins_def record_map_def bad_removal_def is_spent_def)
  have "record_coin_id sample_externals ` set (new_records rival_block) = {6, 7}"
    by (auto simp: new_records_def rival_block_def record_coin_id_def)
  moreover have "block_table sample_externals sample_block ?tbl 6 = None" "block_table sample_externals sample_block ?tbl 7 = None"
    by (simp_all add: block_table_def sample_block_def genesis_table_def genesis_records_def sample_coins_def
        record_map_def new_records_def addition_record_def record_coin_id_def)
  ultimately have new: "record_coin_id sample_externals ` set (new_records rival_block) \<inter> dom (block_table sample_externals sample_block ?tbl) = {}"
    by (simp add: domIff)
  show ?thesis
    using failed_write_poisons [OF mem_rocks.rocks.reliable_backend_axioms, OF bincode_ok_sample S(1) b1(1) sample_block_honest
        sample_block_accepted [OF S(2-4)] b1(2) b2 new, of MapFull] by blast
qed

end
