(* ===== verification/Partial_Writes.thy ===== *)
theory Partial_Writes
  imports Failures
begin

text \<open>
  The two operations that do not write in one batch, \<open>restore\<close> and \<open>add_hint\<close>, when the backend fails after
  their first write.
\<close>

section \<open>A restore whose write fails\<close>

text \<open>Every step of the loops either fails with the error of the backend or only collects.\<close>

definition only_collects :: "coin_store_error \<Rightarrow> ('b \<Rightarrow> 's \<Rightarrow> (coin_store_error + 'b) \<times> 's) \<Rightarrow> bool" where
  "only_collects err f \<longleftrightarrow> (\<forall>b s. f b s = (Inl err, s) \<or> (\<exists>b'. f b s = (Inr b', s)))"

lemma only_collects_loop: "(\<And>x. only_collects err (f x)) \<Longrightarrow> only_collects err (try_fold_state f xs)"
proof (induction xs)
  case Nil
  then show ?case by (simp add: only_collects_def)
next
  case (Cons x xs)
  then have loop: "only_collects err (try_fold_state f xs)" by simp
  show ?case unfolding only_collects_def
  proof (intro allI)
    fix b s
    consider "f x b s = (Inl err, s)" | b' where "f x b s = (Inr b', s)"
      using Cons.prems [of x] unfolding only_collects_def by blast
    then show "try_fold_state f (x # xs) b s = (Inl err, s) \<or> (\<exists>b'. try_fold_state f (x # xs) b s = (Inr b', s))"
      using loop unfolding only_collects_def by cases simp_all
  qed
qed

lemma only_collects_restore:
  "only_collects (from_storage_error e) (restore_record X (no_batches e B) x)"
  "only_collects (from_storage_error e) (restore_hint (no_batches e B) h)"
  by (auto simp: only_collects_def restore_record_def restore_hint_def restore_flush_def split: prod.splits)

lemma restore_write_fails:
  assumes "try_fold_state (clear_column_family B) ALL_COLUMN_FAMILIES () s0 = (Inr (), s)"
  shows "restore_write X (no_batches e B) rows snap s0 = (Inl (from_storage_error e), s)"
proof -
  let ?err = "from_storage_error e"
  have meta: "restore_meta snap b \<noteq> []" for b by (simp add: restore_meta_def batch_put_def Let_def)
  have rows: "only_collects ?err (try_fold_state (restore_record X (no_batches e B)) rows)"
    and hints: "only_collects ?err (try_fold_state (restore_hint (no_batches e B)) (sn_hints snap))"
    by (intro only_collects_loop only_collects_restore)+
  consider "try_fold_state (restore_record X (no_batches e B)) rows batch_new s = (Inl ?err, s)"
    | b where "try_fold_state (restore_record X (no_batches e B)) rows batch_new s = (Inr b, s)"
    using rows unfolding only_collects_def by blast
  then show ?thesis
  proof cases
    case 1
    then show ?thesis by (simp add: restore_write_def assms)
  next
    case 2
    consider "try_fold_state (restore_hint (no_batches e B)) (sn_hints snap) b s = (Inl ?err, s)"
      | b' where "try_fold_state (restore_hint (no_batches e B)) (sn_hints snap) b s = (Inr b', s)"
      using hints unfolding only_collects_def by blast
    then show ?thesis using 2 meta by cases (simp_all add: restore_write_def assms Let_def)
  qed
qed

text \<open>
  C18. A restore whose write fails. When the snapshot is good but its rows cannot be written, \<open>restore\<close> returns
  the storage error after it has deleted every row of the store: lookups find no coin any more, while the height,
  the set of unspent ids and the state root in memory are still the old ones, and the reopened store is empty
  and not initialised. Unlike a failed block, this cannot be undone from what is stored.
\<close>

theorem failed_restore_loses:
  assumes "reliable_backend B view ok" "bincode_ok X" "store_ok X view ok S tbl Hs" "keys_ok (view (backend S))"
    and "hm_ok (sn_coins snap)" "counts_ok X snap"
    and "sn_state_root snap = merkle_root X (leaf_table X (map_of (sn_coins snap)))"
  shows "\<exists>S'. restore X (no_batches e B) snap S = (Inl (from_storage_error e), S')
    \<and> (\<forall>i. get_coin_record X B S' i = Inr None) \<and> count_hints B S' = Inr 0 \<and> available_snapshot_heights B S' = Inr []
    \<and> initialized S' = initialized S \<and> height S' = height S \<and> (\<forall>i. is_unspent S' i \<longleftrightarrow> is_unspent S i)
    \<and> fst (state_root X S') = merkle_root X (leaf_table X tbl)
    \<and> (\<exists>S2. open_store X B (cs_config S) (backend S') = Inr S2 \<and> store_ok X view ok S2 Map.empty {} \<and> \<not> initialized S2)"
proof -
  have ids: "\<forall>(i, r) \<in> set (sn_coins snap). record_coin_id X r = i" using assms(6) by (simp add: counts_ok_def)
  have ok: "ok (backend S)" using assms(3) by (simp add: store_ok_def)
  have keys: "\<forall>cf \<in> set ALL_COLUMN_FAMILIES. \<forall>k \<in> dom (view (backend S) cf). key_ok k"
    using assms(4) by (auto simp: keys_ok_def)
  obtain s where s: "try_fold_state (clear_column_family B) ALL_COLUMN_FAMILIES () (backend S) = (Inr (), s)" "ok s"
    "view s = (\<lambda>cf. if cf \<in> set ALL_COLUMN_FAMILIES then Map.empty else view (backend S) cf)"
    by (rule reliable_backend.all_cleared [OF assms(1) ok _ keys]) (rule subset_refl, rule that)
  obtain t where "\<And>expected. restore_tree X (map (\<lambda>r. (r, row X r)) (map snd (sn_coins snap))) expected =
      (let root = merkle_root X (leaf_table X (map_of (sn_coins snap)))
       in if root \<noteq> expected then Inl (StateRootMismatch expected root) else Inr t)"
    by (rule restore_tree_eq [OF assms(5) ids]) (rule that)
  then have "restore X (no_batches e B) snap S = (Inl (from_storage_error e), S\<lparr>backend := s\<rparr>)"
    using restore_check_cases [of X snap] assms(6,7) restore_write_fails [OF s(1)]
    by (simp add: restore_def restore_rows_eq [OF assms(2)] Let_def del: map_map)
  moreover have empty: "view s cf = Map.empty" if "cf \<in> set ALL_COLUMN_FAMILIES" for cf using that s(3) by simp
  have "get_coin_record X B (S\<lparr>backend := s\<rparr>) i = Inr None" for i
    using reliable_backend.get_eq [OF assms(1) s(2), of CF_COIN_RECORDS "coin_key i"] empty [of CF_COIN_RECORDS]
    by (simp add: get_coin_record_def)
  moreover have scans: "kv_prefix_scan B s cf [] = Inr []" if "cf \<in> set ALL_COLUMN_FAMILIES" for cf
    using reliable_backend.scan_eq [OF assms(1) s(2) that, of "[]"] empty [OF that] set_scan_entries [of "view s cf" "[]"]
    by simp
  moreover have "fst (state_root X (S\<lparr>backend := s\<rparr>)) = merkle_root X (leaf_table X tbl)"
  proof -
    have "fst (state_root X (S\<lparr>backend := s\<rparr>)) = fst (state_root X S)" by (simp add: state_root_def split: prod.splits)
    then show ?thesis using state_root_ok(1) [OF assms(3)] by (metis prod.collapse)
  qed
  moreover obtain S2 where "open_store X B (cs_config S) s = Inr S2" "store_ok X view ok S2 Map.empty {}" "\<not> initialized S2"
    by (rule empty_store_opens [OF assms(1,2) s(2) empty]) (assumption, rule that)
  ultimately show ?thesis
    by (intro exI [of _ "S\<lparr>backend := s\<rparr>"])
      (simp add: count_hints_def available_snapshot_heights_def snapshot_heights_def is_unspent_def)
qed

theorem failed_restore_loses_witness:
  "\<exists>S S'. initialized S \<and> is_unspent S 10
     \<and> restore sample_externals (no_batches MapFull (rocks_backend mem_rocks)) sample_snapshot S
         = (Inl (from_storage_error MapFull), S')
     \<and> is_unspent S' 10 \<and> get_coin_record sample_externals (rocks_backend mem_rocks) S' 10 = Inr None"
proof (rule sample_reachable)
  fix S
  assume S: "reachable sample_externals (rocks_backend mem_rocks) no_tables S" "initialized S"
    "store_ok sample_externals (rocks_view mem_rocks mem_tab) mem_ok S (genesis_table sample_externals 5 sample_coins) {}"
  have keys: "keys_ok (rocks_view mem_rocks mem_tab (backend S))"
    using reachable_ok [OF S(1) mem_rocks.rocks.reliable_backend_axioms, OF bincode_ok_sample snapshot_codec_ok_sample
        no_tables_view] by (simp add: system_ok_def)
  have root: "sn_state_root sample_snapshot
      = merkle_root sample_externals (leaf_table sample_externals (map_of (sn_coins sample_snapshot)))"
    unfolding sample_snapshot_good(3) by (simp add: sample_snapshot_def)
  have "is_unspent S 10"
    using S(3) by (simp add: store_ok_def is_unspent_def unspent_of_def genesis_table_def genesis_records_def
        sample_coins_def record_map_def)
  with failed_restore_loses [OF mem_rocks.rocks.reliable_backend_axioms, OF bincode_ok_sample S(3) keys
      sample_snapshot_good(1,2) root, of MapFull] S(2)
  show ?thesis by blast
qed

section \<open>A hint that is stored by half\<close>

lemma no_puts_ops [simp]:
  "kv_get (no_puts cf e B) = kv_get B" "kv_prefix_scan (no_puts cf e B) = kv_prefix_scan B"
  "kv_put (no_puts cf e B) s cf' k v = (if cf' = cf then Inl e else kv_put B s cf' k v)"
  by (simp_all add: no_puts_def)

text \<open>Opening reads the metadata and the rows only.\<close>

lemma open_store_other:
  assumes "\<And>k. key_ok k \<Longrightarrow> kv_get B s' CF_METADATA k = kv_get B s CF_METADATA k"
    and "kv_prefix_scan B s' CF_COIN_RECORDS [] = kv_prefix_scan B s CF_COIN_RECORDS []"
    and "open_store X B config s = Inr S"
  shows "open_store X B config s' = Inr (S\<lparr>backend := s'\<rparr>)"
proof -
  have "rebuild_merkle_tree X B s' = rebuild_merkle_tree X B s"
    "rebuild_unspent_ids_from_backend X B s' = rebuild_unspent_ids_from_backend X B s"
    by (simp_all add: rebuild_merkle_tree_def rebuild_unspent_ids_from_backend_def assms(2))
  moreover have meta: "kv_get B s' CF_METADATA META_INITIALIZED = kv_get B s CF_METADATA META_INITIALIZED"
    "kv_get B s' CF_METADATA META_HEIGHT = kv_get B s CF_METADATA META_HEIGHT"
    "kv_get B s' CF_METADATA META_TIP_HASH = kv_get B s CF_METADATA META_TIP_HASH"
    "kv_get B s' CF_METADATA META_TIMESTAMP = kv_get B s CF_METADATA META_TIMESTAMP"
    by (simp_all add: assms(1))
  ultimately show ?thesis
    using assms(3) unfolding open_store_def meta by (auto split: sum.splits option.splits if_splits)
qed

context reliable_backend
begin

lemma half_hint:
  assumes "store_ok X view ok S tbl Hs" "0 < length h" "length h \<le> 32" "(i, h) \<notin> Hs"
  obtains s where "add_hint (no_puts CF_HINTS_BY_VALUE e B) i h S = (Inl (from_storage_error e), S\<lparr>backend := s\<rparr>)"
    "ok s" "view s = (view (backend S))(CF_HINTS := (view (backend S) CF_HINTS)(as_ref i @ h \<mapsto> []))"
proof -
  have ok: "ok (backend S)" "hints_ok (view (backend S)) Hs" using assms(1) by (simp_all add: store_ok_def)
  have key: "key_ok (as_ref i @ h)" using assms(3) by (simp add: key_ok_def)
  obtain s where s: "kv_put B (backend S) CF_HINTS (as_ref i @ h) [] = Inr s" "ok s"
    "view s = apply_op (Put CF_HINTS (as_ref i @ h) []) (view (backend S))"
    by (rule put_ok [OF ok(1) _ key, of CF_HINTS "[]"]) simp_all
  have "add_hint (no_puts CF_HINTS_BY_VALUE e B) i h S = (Inl (from_storage_error e), S\<lparr>backend := s\<rparr>)"
    using assms(2-4) key s(1) ok
    by (auto simp: add_hint_def validate_hint_def MAX_HINT_LENGTH_def get_eq hints_ok_lookup Let_def)
  with that s(2,3) show thesis by simp
qed

lemma hint_present:
  assumes "ok (backend S)" "0 < length h" "length h \<le> 32" "view (backend S) CF_HINTS (as_ref i @ h) \<noteq> None"
  shows "add_hint B i h S = (Inr (), S)"
  using assms by (auto simp: add_hint_def validate_hint_def MAX_HINT_LENGTH_def get_eq key_ok_def Let_def)

end

text \<open>
  C19. A hint whose second write fails. \<open>add_hint\<close> writes the index by coin and then the index by hint as two
  separate puts. If the second fails, the call returns the error with the first entry stored; the hint counts,
  but no lookup by hint finds it. Calling \<open>add_hint\<close> again returns success and changes nothing, because the
  first entry is there: the hint can no longer be found by any lookup by hint, reopened or not.
\<close>

theorem failed_hint_lost:
  assumes "reliable_backend B view ok" "bincode_ok X" "store_ok X view ok S tbl Hs"
    and "0 < length h" "length h \<le> 32" "(i, h) \<notin> Hs"
  shows "\<exists>S'. add_hint (no_puts CF_HINTS_BY_VALUE e B) i h S = (Inl (from_storage_error e), S')
    \<and> add_hint B i h S' = (Inr (), S')
    \<and> count_hints B S' = Inr (of_nat (card Hs) + 1)
    \<and> (\<forall>g n. length g \<le> 32 \<longrightarrow> get_coin_ids_by_hint_bytes B S' g n = Inr (take n (ids_of_hint Hs g)))
    \<and> (\<exists>S2. open_store X B (cs_config S) (backend S') = Inr S2 \<and> add_hint B i h S2 = (Inr (), S2)
        \<and> (\<forall>n. get_coin_ids_by_hint_bytes B S2 h n = Inr (take n (ids_of_hint Hs h))))"
proof (rule reliable_backend.half_hint [OF assms(1,3-6), of e])
  fix s
  assume s: "add_hint (no_puts CF_HINTS_BY_VALUE e B) i h S = (Inl (from_storage_error e), S\<lparr>backend := s\<rparr>)" "ok s"
    "view s = (view (backend S))(CF_HINTS := (view (backend S) CF_HINTS)(as_ref i @ h \<mapsto> []))"
  let ?S = "S\<lparr>backend := s\<rparr>" and ?m = "view (backend S) CF_HINTS"
  have ok: "ok (backend S)" "hints_ok (view (backend S)) Hs" using assms(3) by (simp_all add: store_ok_def)
  note fin = reliable_backend.hint_represented(3) [OF assms(1,3)]
  have scan: "kv_prefix_scan B s cf p = kv_prefix_scan B (backend S) cf p"
    if "cf \<noteq> CF_HINTS" "cf \<in> set ALL_COLUMN_FAMILIES" "prefix_ok p" for cf p
    using reliable_backend.scan_eq [OF assms(1)] s(2,3) ok(1) that by simp
  have again: "add_hint B i h Q = (Inr (), Q)" if "backend Q = s" for Q
    using reliable_backend.hint_present [OF assms(1) _ assms(4,5), of Q i] that s(2,3) by simp
  have lookup: "get_coin_ids_by_hint_bytes B Q g n = Inr (take n (ids_of_hint Hs g))" if "backend Q = s" "length g \<le> 32" for Q g n
    using reliable_backend.ids_by_hint_bytes [OF assms(1,3), of g n] scan [of CF_HINTS_BY_VALUE g] that
    by (simp add: get_coin_ids_by_hint_bytes_def prefix_ok_def)
  have "count_hints B ?S = Inr (of_nat (card Hs) + 1)"
  proof -
    have "?m (as_ref i @ h) = None" using hints_ok_lookup [OF ok(2)] assms(6) by simp
    then have "as_ref i @ h \<notin> dom ?m" by (simp add: domIff)
    moreover have "finite (dom ?m)" using storage_backend.view_finite [OF reliable_backend.axioms(1) [OF assms(1)] ok(1)] .
    ultimately have "length (scan_entries (view s CF_HINTS) []) = Suc (length (scan_entries ?m []))"
      using s(3) by (simp add: length_scan_entries)
    moreover have "of_nat (length (scan_entries ?m [])) = (of_nat (card Hs) :: u64)"
      using reliable_backend.hints_counted [OF assms(1,3)] reliable_backend.scan_eq [OF assms(1) ok(1), of CF_HINTS "[]"]
      by (simp add: count_hints_def prefix_ok_def)
    ultimately show ?thesis
      using reliable_backend.scan_eq [OF assms(1) s(2), of CF_HINTS "[]"] by (simp add: count_hints_def prefix_ok_def)
  qed
  moreover have "\<exists>S2. open_store X B (cs_config S) s = Inr S2 \<and> backend S2 = s"
  proof (rule reliable_backend.reopen [OF assms(1-3), of "cs_config S"])
    fix S0
    assume "open_store X B (cs_config S) (backend S) = Inr S0"
    moreover have "kv_get B s CF_METADATA k = kv_get B (backend S) CF_METADATA k" if "key_ok k" for k
      using reliable_backend.get_eq [OF assms(1)] s(2,3) ok(1) that by simp
    ultimately have "open_store X B (cs_config S) s = Inr (S0\<lparr>backend := s\<rparr>)"
      using scan [of CF_COIN_RECORDS "[]"] by (intro open_store_other) simp_all
    then show ?thesis by simp
  qed
  ultimately show ?thesis using s(1) again lookup assms(5) by (intro exI [of _ ?S]) auto
qed

theorem failed_hint_lost_witness:
  "\<exists>S S'. add_hint (no_puts CF_HINTS_BY_VALUE MapFull (rocks_backend mem_rocks)) 10 [7] S
       = (Inl (from_storage_error MapFull), S')
     \<and> add_hint (rocks_backend mem_rocks) 10 [7] S' = (Inr (), S')
     \<and> count_hints (rocks_backend mem_rocks) S' = Inr 1
     \<and> get_coin_ids_by_hint_bytes (rocks_backend mem_rocks) S' [7] 100 = Inr []"
proof (rule sample_chain)
  fix S
  assume S: "store_ok sample_externals (rocks_view mem_rocks mem_tab) mem_ok S
      (genesis_table sample_externals 5 sample_coins) {}"
  have none: "ids_of_hint {} g = []" for g by (simp add: ids_of_hint_def)
  have hint: "0 < length [7 :: byte]" "length [7 :: byte] \<le> 32" "(10, [7]) \<notin> ({} :: (coin_id \<times> bytes) set)" by simp_all
  obtain S' where S': "add_hint (no_puts CF_HINTS_BY_VALUE MapFull (rocks_backend mem_rocks)) 10 [7] S
      = (Inl (from_storage_error MapFull), S')" "add_hint (rocks_backend mem_rocks) 10 [7] S' = (Inr (), S')"
    "count_hints (rocks_backend mem_rocks) S' = Inr (of_nat (card ({} :: (coin_id \<times> bytes) set)) + 1)"
    "\<forall>g n. length g \<le> 32 \<longrightarrow> get_coin_ids_by_hint_bytes (rocks_backend mem_rocks) S' g n = Inr (take n (ids_of_hint {} g))"
    using failed_hint_lost [OF mem_rocks.rocks.reliable_backend_axioms, OF bincode_ok_sample S hint, of MapFull] by blast
  then have "get_coin_ids_by_hint_bytes (rocks_backend mem_rocks) S' [7] 100 = Inr []" by (simp add: none)
  with S'(1-3) show ?thesis by (intro exI [of _ S] exI [of _ S']) simp
qed

end
