(* ===== verification/Resumption.thy ===== *)
theory Resumption
  imports Pagination
begin

text \<open>
  A client that pages through the coin states: it repeats the paginated query from the height the last
  answer returned until none is returned. For unspent coins the pages fit together, and the client ends
  exactly when no height has more matching coins than a page holds.
\<close>

section \<open>The client\<close>

text \<open>At most \<open>k\<close> calls; \<open>None\<close> when they do not suffice or one fails.\<close>

fun page_through ::
  "externals \<Rightarrow> 's storage_ops \<Rightarrow> 's coin_store \<Rightarrow> bytes32 list \<Rightarrow> coin_state_filters \<Rightarrow> nat \<Rightarrow> nat \<Rightarrow> u64
    \<Rightarrow> coin_state list option" where
  "page_through X B S phs f n 0 m = None"
| "page_through X B S phs f n (Suc k) m =
     (case batch_coin_states_by_puzzle_hashes X B S phs m f n of
        Inl _ \<Rightarrow> None
      | Inr (page, None) \<Rightarrow> Some page
      | Inr (page, Some h) \<Rightarrow> map_option (\<lambda>rest. page @ rest) (page_through X B S phs f n k h))"

section \<open>Candidates of a resumed query\<close>

lemma event_height_unspent: "spent_height r = None \<Longrightarrow> event_height r = confirmed_height r"
  by (simp add: event_height_def)

lemma matching_unspent:
  assumes "\<not> csf_include_spent f" "r \<in> matching X tbl Hs phs m f"
  shows "event_height r = confirmed_height r" "m \<le> event_height r"
  using assms by (auto simp: matching_def state_filter_def is_spent_def event_height_def)

lemma matching_resumed:
  assumes "\<not> csf_include_spent f" "m \<le> h"
  shows "matching X tbl Hs phs h f = {r \<in> matching X tbl Hs phs m f. h \<le> event_height r}"
  using assms by (auto simp: matching_def state_filter_def is_spent_def event_height_def not_less)

lemma page_sorted_unique:
  assumes "page_sorted X cs" "page_sorted X cs'" "distinct cs" "distinct cs'" "set cs = set cs'" "inj_on (record_coin_id X) (set cs)"
  shows "cs = cs'"
proof (rule map_sorted_distinct_set_unique [where f = "\<lambda>r. (event_height r, record_coin_id X r)"])
  have inj: "inj_on (\<lambda>r. (event_height r, record_coin_id X r)) (set cs)"
    using assms(6) by (auto simp: inj_on_def)
  then show "inj_on (\<lambda>r. (event_height r, record_coin_id X r)) (set cs \<union> set cs')" using assms(5) by simp
  show "distinct (map (\<lambda>r. (event_height r, record_coin_id X r)) cs)"
    "distinct (map (\<lambda>r. (event_height r, record_coin_id X r)) cs')"
    using assms(3-5) inj by (simp_all add: distinct_map)
qed (use assms in \<open>simp_all add: page_sorted_def\<close>)

context reliable_backend
begin

lemma candidates_resumed:
  assumes "bincode_ok X" "store_ok X view ok S tbl Hs" "\<not> csf_include_spent f" "m \<le> h"
    and "batch_candidates X B S phs m f = Inr cs"
  shows "batch_candidates X B S phs h f = Inr (filter (\<lambda>r. h \<le> event_height r) cs)"
proof -
  note rep = represented [OF assms(1,2)]
  obtain cs0 where cs0: "batch_candidates X B S phs m f = Inr cs0" "set cs0 = matching X tbl Hs phs m f" "distinct cs0"
    "page_sorted X cs0" by (rule candidates_exact [OF assms(1,2)]) (rule that)
  obtain cs' where cs': "batch_candidates X B S phs h f = Inr cs'" "set cs' = matching X tbl Hs phs h f" "distinct cs'"
    "page_sorted X cs'" by (rule candidates_exact [OF assms(1,2)]) (rule that)
  have cs: "cs0 = cs" using cs0(1) assms(5) by simp
  have "page_sorted X (filter (\<lambda>r. h \<le> event_height r) cs)"
    using cs0(4) unfolding cs page_sorted_def sorted_map by (rule sorted_wrt_filter)
  moreover have "set cs' = set (filter (\<lambda>r. h \<le> event_height r) cs)"
    using cs'(2) cs0(2) matching_resumed [OF assms(3,4), of X tbl Hs phs] by (simp add: cs)
  moreover have "inj_on (record_coin_id X) (set cs')"
  proof -
    have "set cs' \<subseteq> ran tbl" using cs'(2) by (auto simp: matching_def)
    moreover have "inj_on (record_coin_id X) (ran tbl)"
    proof (rule inj_onI)
      fix r q
      assume "r \<in> ran tbl" "q \<in> ran tbl" "record_coin_id X r = record_coin_id X q"
      moreover from this obtain i j where "tbl i = Some r" "tbl j = Some q" by (auto simp: ran_def)
      ultimately show "r = q" using table_ok_id [OF rep(6)] by (metis option.inject)
    qed
    ultimately show ?thesis by (rule inj_on_subset [rotated])
  qed
  ultimately have "cs' = filter (\<lambda>r. h \<le> event_height r) cs"
    using cs'(3,4) cs0(3) cs by (intro page_sorted_unique [of X]) simp_all
  with cs'(1) show ?thesis by simp
qed

end

section \<open>Termination\<close>

lemma batch_query_eq:
  "length phs \<le> 990 \<Longrightarrow> batch_candidates X B S phs m f = Inr cs \<Longrightarrow>
     batch_coin_states_by_puzzle_hashes X B S phs m f n = (case batch_page cs n of (page, next) \<Rightarrow> Inr (map to_coin_state page, next))"
  by (simp add: batch_coin_states_by_puzzle_hashes_def MAX_PUZZLE_HASH_BATCH_SIZE_def)

lemma length_filter_filter: "length (filter P (filter Q xs)) \<le> length (filter P xs)"
  by (induction xs) auto

lemma sorted_split: "sorted (map g xs) \<Longrightarrow> filter (\<lambda>x. g x < h) xs @ filter (\<lambda>x. h \<le> g x) xs = xs"
  for g :: "'a \<Rightarrow> 'b :: linorder"
proof (induction xs)
  case Nil
  then show ?case by simp
next
  case (Cons x xs)
  show ?case
  proof (cases "g x < h")
    case True
    then show ?thesis using Cons by simp
  next
    case False
    then have "\<forall>y \<in> set xs. h \<le> g y" using Cons.prems by fastforce
    then have "filter (\<lambda>x. g x < h) xs = []" "filter (\<lambda>x. h \<le> g x) xs = xs"
      by (auto simp: filter_empty_conv filter_id_conv)
    then show ?thesis using False by simp
  qed
qed

text \<open>A page is empty only when more records share its first height than it holds.\<close>

lemma overflow_split:
  assumes "page_sorted X cs" "n < length cs" "h = event_height (cs ! n)"
  shows "batch_page cs n = (filter (\<lambda>r. event_height r < h) cs, Some h)"
    "filter (\<lambda>r. event_height r < h) cs @ filter (\<lambda>r. h \<le> event_height r) cs = cs"
    "filter (\<lambda>r. event_height r < h) cs = [] \<Longrightarrow> n < length (filter (\<lambda>r. event_height r = h) cs)"
proof -
  note srt = page_sorted_heights [OF assms(1)]
  have page: "take (page_end cs h n) cs = filter (\<lambda>r. event_height r < h) cs" by (rule page_is_filter [OF srt assms(2,3)])
  then show "batch_page cs n = (filter (\<lambda>r. event_height r < h) cs, Some h)" using assms by (simp add: batch_page_def Let_def)
  have up: "event_height r \<le> h" if "r \<in> set (take (Suc n) cs)" for r
    using that assms(2,3) sorted_nth_mono [OF srt, of _ n] by (fastforce simp: in_set_conv_nth less_Suc_eq_le)
  show "filter (\<lambda>r. event_height r < h) cs @ filter (\<lambda>r. h \<le> event_height r) cs = cs" by (rule sorted_split [OF srt])
  assume "filter (\<lambda>r. event_height r < h) cs = []"
  then have low: "h \<le> event_height r" if "r \<in> set cs" for r using that by (auto simp: filter_empty_conv not_less)
  have "filter (\<lambda>r. event_height r = h) (take (Suc n) cs) = take (Suc n) cs"
    using up low by (auto simp: filter_id_conv intro!: antisym dest: in_set_takeD)
  then have "filter (\<lambda>r. event_height r = h) cs = take (Suc n) cs @ filter (\<lambda>r. event_height r = h) (drop (Suc n) cs)"
    by (metis append_take_drop_id filter_append)
  then show "n < length (filter (\<lambda>r. event_height r = h) cs)" using assms(2) by simp
qed

context reliable_backend
begin

lemma paged_to_end:
  assumes "bincode_ok X" "store_ok X view ok S tbl Hs" "\<not> csf_include_spent f" "length phs \<le> 990"
  shows "batch_candidates X B S phs m f = Inr cs \<Longrightarrow> (\<And>h. length (filter (\<lambda>r. event_height r = h) cs) \<le> n) \<Longrightarrow>
    length cs < k \<Longrightarrow> page_through X B S phs f n k m = Some (map to_coin_state cs)"
proof (induction k arbitrary: m cs)
  case 0
  then show ?case by simp
next
  case (Suc k)
  note query = batch_query_eq [OF assms(4) Suc.prems(1), of n]
  show ?case
  proof (cases "length cs \<le> n")
    case True
    then show ?thesis using query by (simp add: batch_page_def)
  next
    case False
    obtain cs0 where cs0: "batch_candidates X B S phs m f = Inr cs0" "set cs0 = matching X tbl Hs phs m f" "page_sorted X cs0"
      by (rule candidates_exact [OF assms(1,2)]) (rule that)
    let ?h = "event_height (cs ! n)" and ?rest = "filter (\<lambda>r. event_height (cs ! n) \<le> event_height r) cs"
    have cs: "set cs = matching X tbl Hs phs m f" "page_sorted X cs" "n < length cs" using cs0 Suc.prems(1) False by auto
    note split = overflow_split [OF cs(2,3) refl]
    have "m \<le> ?h" using matching_unspent(2) [OF assms(3)] cs(1,3) nth_mem by blast
    note rest = candidates_resumed [OF assms(1-3) this Suc.prems(1)]
    have small: "length (filter (\<lambda>r. event_height r = h) ?rest) \<le> n" for h
      using length_filter_filter Suc.prems(2) by (rule order_trans)
    have "filter (\<lambda>r. event_height r < ?h) cs \<noteq> []" using split(3) Suc.prems(2) [of ?h] by fastforce
    moreover have "length (filter (\<lambda>r. event_height r < ?h) cs) + length ?rest = length cs"
      using arg_cong [OF split(2), of length] by simp
    ultimately have "length ?rest < length cs" by (cases "filter (\<lambda>r. event_height r < ?h) cs") auto
    then have "page_through X B S phs f n k ?h = Some (map to_coin_state ?rest)" using Suc.IH [OF rest small] Suc.prems(3) by simp
    then show ?thesis using query split(1) arg_cong [OF split(2), of "map to_coin_state"] by simp
  qed
qed

lemma paged_forever:
  assumes "bincode_ok X" "store_ok X view ok S tbl Hs" "\<not> csf_include_spent f" "length phs \<le> 990"
  shows "batch_candidates X B S phs m f = Inr cs \<Longrightarrow> n < length (filter (\<lambda>r. event_height r = h) cs) \<Longrightarrow>
    page_through X B S phs f n k m = None"
proof (induction k arbitrary: m cs)
  case 0
  then show ?case by simp
next
  case (Suc k)
  obtain cs0 where cs0: "batch_candidates X B S phs m f = Inr cs0" "set cs0 = matching X tbl Hs phs m f" "page_sorted X cs0"
    by (rule candidates_exact [OF assms(1,2)]) (rule that)
  have "n < length cs" using Suc.prems(2) length_filter_le less_le_trans by blast
  then have cs: "set cs = matching X tbl Hs phs m f" "page_sorted X cs" "n < length cs" using cs0 Suc.prems(1) by auto
  let ?h = "event_height (cs ! n)"
  note split = overflow_split [OF cs(2,3) refl]
  have "m \<le> ?h" using matching_unspent(2) [OF assms(3)] cs(1,3) nth_mem by blast
  note rest = candidates_resumed [OF assms(1-3) this Suc.prems(1)]
  have "?h \<le> h"
  proof (rule ccontr)
    assume "\<not> ?h \<le> h"
    then have "filter (\<lambda>r. event_height r = h) cs = filter (\<lambda>r. event_height r = h) (filter (\<lambda>r. event_height r < ?h) cs)"
      by (auto intro: filter_cong)
    moreover have "length (filter (\<lambda>r. event_height r < ?h) cs) \<le> n"
      using page_is_filter [OF page_sorted_heights [OF cs(2)] cs(3) refl] page_end_le [of cs ?h n] by (metis length_take min.coboundedI2)
    ultimately show False using Suc.prems(2) length_filter_le [of "\<lambda>r. event_height r = h" "filter (\<lambda>r. event_height r < ?h) cs"] by simp
  qed
  then have "filter (\<lambda>r. event_height r = h) (filter (\<lambda>r. ?h \<le> event_height r) cs) = filter (\<lambda>r. event_height r = h) cs"
    by (auto intro: filter_cong)
  then have "page_through X B S phs f n k ?h = None" using Suc.IH [OF rest] Suc.prems(2) by simp
  then show ?case using batch_query_eq [OF assms(4) Suc.prems(1), of n] split(1) by simp
qed

end

text \<open>
  C29. Paging to the end. A client that asks for unspent coins only and resumes at the height returned ends if
  and only if no height has more matching coins than a page holds. In that case it has the states of exactly
  the matching records, each once, in the order of height and id, after at most one call more than there are
  records. Otherwise no number of calls ends: from the first such height on the pages are empty.
\<close>

theorem paging_terminates:
  assumes "reliable_backend B view ok" "bincode_ok X" "store_ok X view ok S tbl Hs"
    and "\<not> csf_include_spent f" "length phs \<le> 990"
  shows "\<exists>cs. set cs = matching X tbl Hs phs m f \<and> distinct cs \<and> page_sorted X cs
    \<and> (if \<forall>h. card {r \<in> matching X tbl Hs phs m f. confirmed_height r = h} \<le> n
       then \<forall>k > length cs. page_through X B S phs f n k m = Some (map to_coin_state cs)
       else \<forall>k. page_through X B S phs f n k m = None)"
proof -
  obtain cs where cs: "batch_candidates X B S phs m f = Inr cs" "set cs = matching X tbl Hs phs m f" "distinct cs"
    "page_sorted X cs" by (rule reliable_backend.candidates_exact [OF assms(1-3)]) (rule that)
  have heights: "card {r \<in> matching X tbl Hs phs m f. confirmed_height r = h} = length (filter (\<lambda>r. event_height r = h) cs)" for h
  proof -
    have "{r \<in> matching X tbl Hs phs m f. confirmed_height r = h} = {r. event_height r = h} \<inter> set cs"
      using matching_unspent(1) [OF assms(4)] cs(2) by auto
    then show ?thesis by (simp only: distinct_length_filter [OF cs(3)])
  qed
  have "page_through X B S phs f n k m = Some (map to_coin_state cs)"
    if "\<forall>h. length (filter (\<lambda>r. event_height r = h) cs) \<le> n" "length cs < k" for k
    using reliable_backend.paged_to_end [OF assms cs(1) _ that(2)] that(1) by blast
  moreover have "page_through X B S phs f n k m = None" if "n < length (filter (\<lambda>r. event_height r = h) cs)" for h k
    by (rule reliable_backend.paged_forever [OF assms cs(1) that])
  ultimately show ?thesis using cs(2-4) unfolding heights by (intro exI [of _ cs]) (auto simp: not_le)
qed

definition unspent_states :: coin_state_filters where
  "unspent_states = \<lparr>csf_include_spent = False, csf_include_unspent = True, csf_include_hinted = False, csf_min_amount = 0\<rparr>"

theorem paging_terminates_witness:
  "\<exists>S. page_through sample_externals (rocks_backend mem_rocks) S [2] unspent_states 1 2 0
       = Some [to_coin_state (coin_record_new (sample_coin 7) 0 5 False)]
     \<and> page_through sample_externals (rocks_backend mem_rocks) S [2] unspent_states 0 100 0 = None"
proof (rule sample_chain)
  fix S
  let ?tbl = "genesis_table sample_externals 5 sample_coins" and ?r = "coin_record_new (sample_coin 7) 0 5 False"
  assume S: "store_ok sample_externals (rocks_view mem_rocks mem_tab) mem_ok S ?tbl {}"
  have ran: "ran ?tbl = {?r}" by (simp add: genesis_table_def genesis_records_def sample_coins_def record_map_def)
  have "state_filter unspent_states 0 ?r" "coin_puzzle_hash (cr_coin ?r) = 2"
    by (simp_all add: state_filter_def unspent_states_def is_spent_def) (simp add: coin_record_new_def sample_coin_def)
  then have "{r \<in> {?r}. state_filter unspent_states 0 r \<and> coin_puzzle_hash (cr_coin r) \<in> set [2]} = {?r}" by auto
  then have m: "matching sample_externals ?tbl {} [2] 0 unspent_states = {?r}"
    unfolding matching_def ran by (simp add: unspent_states_def)
  have f: "\<not> csf_include_spent unspent_states" "length [2 :: bytes32] \<le> 990" by (simp_all add: unspent_states_def)
  have c: "confirmed_height ?r = 0" by (simp add: coin_record_new_def)
  have one: "card {q \<in> {?r}. confirmed_height q = h} = (if h = 0 then 1 else 0)" for h
  proof -
    have "{q \<in> {?r}. confirmed_height q = h} = (if h = 0 then {?r} else {})" using c by auto
    then show ?thesis by simp
  qed
  note ends = paging_terminates [OF mem_rocks.rocks.reliable_backend_axioms, OF bincode_ok_sample S f, of 0, unfolded m one]
  obtain cs where cs: "set cs = {?r}" "distinct cs"
    "\<forall>k > length cs. page_through sample_externals (rocks_backend mem_rocks) S [2] unspent_states 1 k 0 = Some (map to_coin_state cs)"
  proof -
    have all: "\<forall>h :: u64. (if h = 0 then 1 else 0 :: nat) \<le> 1" by simp
    show thesis using ends [of 1, unfolded if_P [OF all]] that by blast
  qed
  have len: "length cs = 1" using distinct_card [OF cs(2)] by (simp add: cs(1))
  then have "cs = [?r]" using cs(1) by (cases cs) auto
  then have "page_through sample_externals (rocks_backend mem_rocks) S [2] unspent_states 1 2 0 = Some [to_coin_state ?r]"
    using cs(3) len by simp
  moreover have some: "\<not> (\<forall>h :: u64. (if h = 0 then 1 else 0 :: nat) \<le> 0)" by (auto intro: exI [of _ 0])
  have "page_through sample_externals (rocks_backend mem_rocks) S [2] unspent_states 0 100 0 = None"
    using ends [of 0, unfolded if_not_P [OF some]] by blast
  ultimately show ?thesis by blast
qed

end
