(* ===== verification/Row_Types.thy ===== *)
theory Row_Types
  imports System
begin

text \<open>
  The shape of every stored row and what it refers to, as a type of the database: keys and values have the
  lengths of the schema and decode with its decoders, every index row names a record that is there and agrees
  with it, every record has its index rows, the two hint indices mirror each other, every saved checkpoint
  decodes to a snapshot that \<open>restore\<close> accepts, the metadata is complete, and no other row exists.
\<close>

section \<open>Row types\<close>

text \<open>The record stored under an id.\<close>

definition stored :: "externals \<Rightarrow> disk \<Rightarrow> coin_id \<Rightarrow> coin_record option" where
  "stored X D i = (case D CF_COIN_RECORDS (coin_key i) of None \<Rightarrow> None | Some v \<Rightarrow> decode_coin_record_bytes X v)"

text \<open>The rows that a record must have in the indices.\<close>

definition indexed :: "disk \<Rightarrow> coin_id \<Rightarrow> coin_record \<Rightarrow> bool" where
  "indexed D i r \<longleftrightarrow>
     D CF_COIN_BY_PUZZLE_HASH (puzzle_hash_coin_key (coin_puzzle_hash (cr_coin r)) i) = Some (as_ref i)
     \<and> D CF_UNSPENT_BY_PUZZLE_HASH (puzzle_hash_coin_key (coin_puzzle_hash (cr_coin r)) i) = (if is_spent r then None else Some [])
     \<and> D CF_COIN_BY_PARENT (parent_coin_key (parent_coin_info (cr_coin r)) i) = Some (as_ref i)
     \<and> D CF_COIN_BY_CONFIRMED_HEIGHT (height_coin_key (confirmed_height r) i) = Some (as_ref i)
     \<and> (case spent_height r of None \<Rightarrow> True | Some h \<Rightarrow> D CF_COIN_BY_SPENT_HEIGHT (height_coin_key h i) = Some (as_ref i))"

definition refers :: "externals \<Rightarrow> disk \<Rightarrow> bytes \<Rightarrow> (coin_record \<Rightarrow> bool) \<Rightarrow> bool" where
  "refers X D i P \<longleftrightarrow> (case stored X D (bytes32_from i) of None \<Rightarrow> False | Some r \<Rightarrow> P r)"

text \<open>The four rows of the metadata come together.\<close>

definition meta_complete :: "disk \<Rightarrow> bool" where
  "meta_complete D \<longleftrightarrow> {META_INITIALIZED, META_HEIGHT, META_TIP_HASH, META_TIMESTAMP} \<subseteq> dom (D CF_METADATA)"

definition row_typed :: "externals \<Rightarrow> disk \<Rightarrow> string \<Rightarrow> bytes \<Rightarrow> bytes \<Rightarrow> bool" where
  "row_typed X D cf k v \<longleftrightarrow>
     (if cf = CF_COIN_RECORDS then
        (case (coin_id_from_key k, decode_coin_record_bytes X v) of
           (Some i, Some r) \<Rightarrow> length k = 32 \<and> record_coin_id X r = i \<and> indexed D i r
         | _ \<Rightarrow> False)
      else if cf = CF_COIN_BY_PUZZLE_HASH then
        length k = 64 \<and> v = slice 32 64 k \<and> refers X D v (\<lambda>r. puzzle_hash_from_key k = Some (coin_puzzle_hash (cr_coin r)))
      else if cf = CF_UNSPENT_BY_PUZZLE_HASH then
        length k = 64 \<and> v = []
        \<and> refers X D (slice 32 64 k) (\<lambda>r. \<not> is_spent r \<and> puzzle_hash_from_key k = Some (coin_puzzle_hash (cr_coin r)))
      else if cf = CF_COIN_BY_PARENT then
        length k = 64 \<and> v = slice 32 64 k \<and> refers X D v (\<lambda>r. as_ref (parent_coin_info (cr_coin r)) = slice 0 32 k)
      else if cf = CF_COIN_BY_CONFIRMED_HEIGHT then
        length k = 40 \<and> v = slice 8 40 k \<and> refers X D v (\<lambda>r. height_from_key k = Some (confirmed_height r))
      else if cf = CF_COIN_BY_SPENT_HEIGHT then
        length k = 40 \<and> v = slice 8 40 k \<and> refers X D v (\<lambda>r. height_from_key k = spent_height r \<and> is_spent r)
      else if cf = CF_HINTS then
        32 < length k \<and> length k \<le> 64 \<and> v = [] \<and> D CF_HINTS_BY_VALUE (drop 32 k @ take 32 k) = Some []
      else if cf = CF_HINTS_BY_VALUE then
        32 < length k \<and> length k \<le> 64 \<and> v = []
        \<and> D CF_HINTS (drop (length k - 32) k @ take (length k - 32) k) = Some []
      else if cf = CF_STATE_SNAPSHOTS then checkpoint_row X k v
      else if cf = CF_METADATA then meta_row k v \<and> meta_complete D
      else False)"

section \<open>Rows of a represented table\<close>

lemma index_row:
  assumes "index_is m tbl P key val" "m k = Some v"
  obtains i r where "tbl i = Some r" "P r" "k = key i r" "v = val i r"
proof -
  obtain i where "index_entry P key val i (tbl i) = Some (k, v)" using assms by (auto simp: index_is_def)
  with that show thesis by (cases "tbl i") (auto split: if_splits)
qed

lemma index_has:
  assumes "index_is m tbl P key val" "tbl i = Some r" "P r"
  shows "m (key i r) = Some (val i r)"
  using assms unfolding index_is_def by (metis index_entry_simps(2))

lemma index_lacks:
  assumes "index_is m tbl P key val" "key_inj key" "tbl i = Some r" "\<not> P r"
  shows "m (key i r) = None"
proof (rule ccontr)
  assume "m (key i r) \<noteq> None"
  then obtain v where "m (key i r) = Some v" by blast
  then obtain j q where "tbl j = Some q" "P q" "key i r = key j q" by (rule index_row [OF assms(1)])
  moreover from this have "i = j" using assms(2) by (auto simp: key_inj_def)
  ultimately show False using assms(3,4) by simp
qed

lemma stored_table: "bincode_ok X \<Longrightarrow> disk_ok X D tbl \<Longrightarrow> table_ok X h tbl \<Longrightarrow> stored X D i = tbl i"
  using decode_row [OF _ table_ok_row] by (cases "tbl i") (auto simp: stored_def disk_record_lookup)

lemma refers_table:
  assumes "bincode_ok X" "disk_ok X D tbl" "table_ok X h tbl" "tbl i = Some r"
  shows "refers X D (as_ref i) P \<longleftrightarrow> P r"
  using stored_table [OF assms(1-3), of i] assms(4) by (simp add: refers_def)

lemma disk_indices:
  assumes "disk_ok X D tbl"
  shows "index_is (D CF_COIN_BY_PUZZLE_HASH) tbl (\<lambda>_. True) ph_key (\<lambda>i _. as_ref i)"
    "index_is (D CF_UNSPENT_BY_PUZZLE_HASH) tbl (\<lambda>r. spent_height r = None) ph_key (\<lambda>_ _. [])"
    "index_is (D CF_COIN_BY_PARENT) tbl (\<lambda>_. True) parent_key (\<lambda>i _. as_ref i)"
    "index_is (D CF_COIN_BY_CONFIRMED_HEIGHT) tbl (\<lambda>_. True) confirmed_key (\<lambda>i _. as_ref i)"
    "index_is (D CF_COIN_BY_SPENT_HEIGHT) tbl (\<lambda>r. spent_height r \<noteq> None) spent_key (\<lambda>i _. as_ref i)"
  using assms by (simp_all add: disk_ok_def)

lemma table_indexed:
  assumes "disk_ok X D tbl" "tbl i = Some r"
  shows "indexed D i r"
proof -
  note idx = disk_indices [OF assms(1)]
  have "D CF_UNSPENT_BY_PUZZLE_HASH (ph_key i r) = (if is_spent r then None else Some [])"
  proof (cases "spent_height r")
    case None
    then show ?thesis using index_has [OF idx(2), of i r] assms(2) by (simp add: is_spent_def)
  next
    case (Some h)
    then show ?thesis using index_lacks [OF idx(2) key_inj_keys(2), of i r] assms(2) by (simp add: is_spent_def)
  qed
  moreover have "D CF_COIN_BY_SPENT_HEIGHT (height_coin_key h i) = Some (as_ref i)" if "spent_height r = Some h" for h
    using index_has [OF idx(5), of i r] assms(2) that by (simp add: spent_key_def)
  ultimately show ?thesis
    using index_has [OF idx(1), of i r] index_has [OF idx(3), of i r] index_has [OF idx(4), of i r] assms(2)
    by (simp add: indexed_def ph_key_def parent_key_def confirmed_key_def split: option.split)
qed

lemma coin_rows_typed:
  assumes "bincode_ok X" "disk_ok X D tbl" "table_ok X h tbl" "cf \<in> index_cfs" "D cf k = Some v"
  shows "row_typed X D cf k v"
proof -
  note idx = disk_indices [OF assms(2)]
  note refers = refers_table [OF assms(1-3)]
  from assms(4) consider (1) "cf = CF_COIN_RECORDS" | (2) "cf = CF_COIN_BY_PUZZLE_HASH" | (3) "cf = CF_UNSPENT_BY_PUZZLE_HASH"
    | (4) "cf = CF_COIN_BY_PARENT" | (5) "cf = CF_COIN_BY_CONFIRMED_HEIGHT" | (6) "cf = CF_COIN_BY_SPENT_HEIGHT"
    unfolding index_cfs_def by blast
  then show ?thesis
  proof cases
    case 1
    then obtain i r where r: "tbl i = Some r" "k = coin_key i" "v = row X r"
      using assms(5) disk_records [OF assms(2)] by auto
    then show ?thesis
      using 1 decode_row [OF assms(1) table_ok_row [OF assms(3)]] table_indexed [OF assms(2) r(1)] table_ok_id [OF assms(3)]
      by (simp add: row_typed_def)
  next
    case 2
    obtain i r where "tbl i = Some r" "k = ph_key i r" "v = as_ref i"
      by (rule index_row [OF idx(1)]) (use 2 assms(5) that in auto)
    then show ?thesis using 2 refers by (simp add: row_typed_def ph_key_def puzzle_hash_coin_key_def puzzle_hash_from_key_def)
  next
    case 3
    obtain i r where "tbl i = Some r" "spent_height r = None" "k = ph_key i r" "v = []"
      by (rule index_row [OF idx(2)]) (use 3 assms(5) that in auto)
    then show ?thesis
      using 3 refers by (simp add: row_typed_def ph_key_def puzzle_hash_coin_key_def puzzle_hash_from_key_def is_spent_def)
  next
    case 4
    obtain i r where "tbl i = Some r" "k = parent_key i r" "v = as_ref i"
      by (rule index_row [OF idx(3)]) (use 4 assms(5) that in auto)
    then show ?thesis using 4 refers by (simp add: row_typed_def parent_key_def parent_coin_key_def)
  next
    case 5
    obtain i r where "tbl i = Some r" "k = confirmed_key i r" "v = as_ref i"
      by (rule index_row [OF idx(4)]) (use 5 assms(5) that in auto)
    then show ?thesis using 5 refers by (simp add: row_typed_def confirmed_key_def height_coin_key_def height_from_key_def)
  next
    case 6
    obtain i r where "tbl i = Some r" "spent_height r \<noteq> None" "k = spent_key i r" "v = as_ref i"
      by (rule index_row [OF idx(5)]) (use 6 assms(5) that in auto)
    then show ?thesis
      using 6 refers by (auto simp: row_typed_def spent_key_def height_coin_key_def height_from_key_def is_spent_def)
  qed
qed

lemma hint_rows_typed:
  assumes "hints_ok D Hs" "cf \<in> hint_cfs" "D cf k = Some v"
  shows "row_typed X D cf k v"
proof -
  from assms(2) consider "cf = CF_HINTS" | "cf = CF_HINTS_BY_VALUE" unfolding hint_cfs_def by blast
  then show ?thesis
  proof cases
    case 1
    then obtain i h where h: "(i, h) \<in> Hs" "k = as_ref i @ h" "v = []" using assms(1,3) by (auto simp: hints_ok_def)
    moreover have "D CF_HINTS_BY_VALUE (h @ as_ref i) = Some []" using assms(1) h(1) by (auto simp: hints_ok_def)
    ultimately show ?thesis using 1 hint_length [OF assms(1) h(1)] by (simp add: row_typed_def)
  next
    case 2
    then obtain i h where h: "(i, h) \<in> Hs" "k = h @ as_ref i" "v = []" using assms(1,3) by (auto simp: hints_ok_def)
    moreover have "D CF_HINTS (as_ref i @ h) = Some []" using assms(1) h(1) by (auto simp: hints_ok_def)
    ultimately show ?thesis using 2 hint_length [OF assms(1) h(1)] by (simp add: row_typed_def)
  qed
qed

lemma meta_is_complete:
  assumes "meta_ok D S" "meta_typed D" "D CF_METADATA k = Some v"
  shows "meta_complete D"
proof -
  have "meta_row k v" using assms(2,3) by (simp add: meta_typed_def)
  then have "k \<in> {META_INITIALIZED, META_HEIGHT, META_TIP_HASH, META_TIMESTAMP}" by (auto simp: meta_row_def)
  then have "initialized S" using assms(1,3) by (auto simp: meta_ok_def split: if_splits)
  then show ?thesis using assms(1) by (auto simp: meta_ok_def meta_complete_def)
qed

lemma other_rows_typed:
  assumes "meta_ok D S" "rows_ok X D" "cf \<notin> index_cfs" "cf \<notin> hint_cfs" "D cf k = Some v"
  shows "row_typed X D cf k v"
proof -
  have cf: "cf \<noteq> CF_COIN_RECORDS" "cf \<noteq> CF_COIN_BY_PUZZLE_HASH" "cf \<noteq> CF_UNSPENT_BY_PUZZLE_HASH" "cf \<noteq> CF_COIN_BY_PARENT"
    "cf \<noteq> CF_COIN_BY_CONFIRMED_HEIGHT" "cf \<noteq> CF_COIN_BY_SPENT_HEIGHT" "cf \<noteq> CF_HINTS" "cf \<noteq> CF_HINTS_BY_VALUE"
    using assms(3,4) by (auto simp: index_cfs_def hint_cfs_def)
  have rows: "meta_typed D" "others_empty D" "checkpoints_typed X D" using assms(2) by (simp_all add: rows_ok_def)
  consider "cf = CF_STATE_SNAPSHOTS" | "cf = CF_METADATA"
    using rows(2) assms(3-5) by (cases "cf = CF_STATE_SNAPSHOTS"; cases "cf = CF_METADATA") (auto simp: others_empty_def state_cfs_def)
  then show ?thesis
  proof cases
    case 1
    then show ?thesis using rows(3) assms(5) cf by (simp add: row_typed_def checkpoints_typed_def)
  next
    case 2
    then show ?thesis using rows(1) assms(5) cf meta_is_complete [OF assms(1) rows(1), of k v]
      by (simp add: row_typed_def meta_typed_def)
  qed
qed

text \<open>A run that saves a checkpoint of the genesis coins.\<close>

lemma sample_checkpoint:
  obtains S k v k' v' where "reachable sample_externals (rocks_backend mem_rocks) no_tables S"
    "rocks_view mem_rocks mem_tab (backend S) CF_COIN_BY_PARENT k = Some v"
    "rocks_view mem_rocks mem_tab (backend S) CF_STATE_SNAPSHOTS k' = Some v'"
proof (rule sample_reachable)
  fix S :: "tables coin_store"
  let ?D = "rocks_view mem_rocks mem_tab (backend S)" and ?tbl = "genesis_table sample_externals 5 sample_coins"
  assume S: "reachable sample_externals (rocks_backend mem_rocks) no_tables S" "initialized S"
    "store_ok sample_externals (rocks_view mem_rocks mem_tab) mem_ok S ?tbl {}"
  have sys: "system_ok sample_externals (rocks_view mem_rocks mem_tab) mem_ok S"
    by (rule reachable_ok [OF S(1) mem_rocks.rocks.reliable_backend_axioms, OF bincode_ok_sample snapshot_codec_ok_sample no_tables_view])
  then have cps: "checkpoints_ok ?D" by (simp add: system_ok_def)
  let ?H = "insert (height S) (checkpoints ?D)" and ?n = "max_snapshots (cs_config S)"
  obtain b s' where s': "save_snapshot sample_externals (rocks_backend mem_rocks) S = (Inr (), S\<lparr>backend := s'\<rparr>)"
    "rocks_view mem_rocks mem_tab s' = ?D(CF_STATE_SNAPSHOTS := (?D CF_STATE_SNAPSHOTS)(snapshot_key (height S) \<mapsto> b) |` (snapshot_key ` newest ?n ?H))"
    by (rule mem_rocks.rocks.saved [OF bincode_ok_sample snapshot_codec_ok_sample S(3,2) cps]) (rule that)
  have fin: "finite ?H" using mem_rocks.rocks.listed(4) [OF _ cps] S(3) by (simp add: store_ok_def)
  then have "newest ?n ?H \<noteq> {}" using card_newest [OF fin, of ?n] by (cases "?n = 0") (auto simp: newest_def)
  then obtain h where h: "h \<in> newest ?n ?H" by blast
  then have "h = height S \<or> h \<in> checkpoints ?D" using newest_subset [OF fin, of ?n] by blast
  then have cp: "\<exists>v'. rocks_view mem_rocks mem_tab s' CF_STATE_SNAPSHOTS (snapshot_key h) = Some v'"
    using h s'(2) by (auto simp: checkpoints_def restrict_map_def)
  have "?tbl 10 = Some (coin_record_new (sample_coin 7) 0 5 False)"
    by (simp add: genesis_table_def genesis_records_def sample_coins_def record_map_def)
  moreover have "disk_ok sample_externals ?D ?tbl" using S(3) by (simp add: store_ok_def)
  ultimately have "\<exists>k. ?D CF_COIN_BY_PARENT k = Some (as_ref 10)" using table_indexed unfolding indexed_def by blast
  then have row: "\<exists>k v. rocks_view mem_rocks mem_tab s' CF_COIN_BY_PARENT k = Some v" using s'(2) by auto
  have "reachable sample_externals (rocks_backend mem_rocks) no_tables (S\<lparr>backend := s'\<rparr>)"
    by (rule reachable.save [OF S(1) s'(1)])
  then show thesis using that [of "S\<lparr>backend := s'\<rparr>"] cp row by auto
qed

text \<open>
  C13. Every row is well typed. In a store reached by any sequence of calls from an empty database, each row
  of the families of coins, indices and hints has a key and a value of the schema's lengths, which the
  schema's decoders and the record decoder accept; each index row names a stored record with that puzzle
  hash, parent or height and spent state; each record has its row in every index it belongs to and none in
  the index of unspent coins once it is spent; and every hint row has its mirror in the other hint index.
  Each saved checkpoint decodes to a snapshot of the height its key names, without hints, that passes every
  check of \<open>restore\<close>: its totals, coin ids and state root are those of its coin map. The metadata holds only
  its four rows, of their lengths, and all of them once it holds any. There are no other rows: the families of
  Merkle nodes and of archived records stay empty, although the specification wants the dirty Merkle nodes
  written in the batch of each block; the values of the index rows are the coin ids, not empty.
\<close>

theorem rows_typed:
  assumes "reachable X B s0 S" "reliable_backend B view ok" "bincode_ok X" "snapshot_codec_ok X"
    "ok s0" "view s0 = (\<lambda>_. Map.empty)" "view (backend S) cf k = Some v"
  shows "row_typed X (view (backend S)) cf k v"
proof -
  have sys: "system_ok X view ok S" by (rule reachable_ok [OF assms(1-6)])
  then obtain tbl Hs where "store_ok X view ok S tbl Hs" by (auto simp: system_ok_def)
  note S = this [unfolded store_ok_def]
  have rows: "rows_ok X (view (backend S))" using sys by (simp add: system_ok_def)
  consider "cf \<in> index_cfs" | "cf \<in> hint_cfs" | "cf \<notin> index_cfs" "cf \<notin> hint_cfs" by blast
  then show ?thesis
  proof cases
    case 1
    then show ?thesis using coin_rows_typed [OF assms(3), where D = "view (backend S)"] S assms(7) by blast
  next
    case 2
    then show ?thesis using hint_rows_typed S assms(7) by blast
  next
    case 3
    then show ?thesis using other_rows_typed [OF _ rows 3] S assms(7) by blast
  qed
qed

theorem rows_typed_witness:
  "\<exists>S k v k' v'. reachable sample_externals (rocks_backend mem_rocks) no_tables S
     \<and> rocks_view mem_rocks mem_tab (backend S) CF_COIN_BY_PARENT k = Some v
     \<and> row_typed sample_externals (rocks_view mem_rocks mem_tab (backend S)) CF_COIN_BY_PARENT k v
     \<and> rocks_view mem_rocks mem_tab (backend S) CF_STATE_SNAPSHOTS k' = Some v'
     \<and> row_typed sample_externals (rocks_view mem_rocks mem_tab (backend S)) CF_STATE_SNAPSHOTS k' v'"
proof (rule sample_checkpoint)
  fix S :: "tables coin_store" and k v k' v'
  let ?D = "rocks_view mem_rocks mem_tab (backend S)"
  assume S: "reachable sample_externals (rocks_backend mem_rocks) no_tables S"
    "?D CF_COIN_BY_PARENT k = Some v" "?D CF_STATE_SNAPSHOTS k' = Some v'"
  note typed = rows_typed [OF S(1) mem_rocks.rocks.reliable_backend_axioms, OF bincode_ok_sample snapshot_codec_ok_sample
      no_tables_view]
  show ?thesis using S typed [OF S(2)] typed [OF S(3)] by blast
qed

end
