(* ===== verification/Commitment.thy ===== *)
theory Commitment
  imports System
begin

text \<open>
  What a state root commits to. Two stores that report the same root, over any backends and whatever their
  histories, answer every coin lookup alike, or else the paths of the coin in the two trees exhibit two
  different inputs with one hash: the leaf hash of two rows, or the node hash of two pairs of digests.
\<close>

section \<open>Leaves and collisions\<close>

text \<open>The bytes that are hashed for a coin id: the stored row, or the sentinel of an empty leaf.\<close>

definition leaf_input :: "externals \<Rightarrow> coin_record option \<Rightarrow> bytes" where
  "leaf_input X r = (case r of None \<Rightarrow> EMPTY_LEAF_SENTINEL | Some rec \<Rightarrow> row X rec)"

definition leaf_collision :: "externals \<Rightarrow> coin_record option \<Rightarrow> coin_record option \<Rightarrow> bool" where
  "leaf_collision X r r' \<longleftrightarrow> leaf_input X r \<noteq> leaf_input X r'
     \<and> merkle_leaf_hash X (leaf_input X r) = merkle_leaf_hash X (leaf_input X r')"

definition path_collision :: "externals \<Rightarrow> sparse_merkle_proof \<Rightarrow> sparse_merkle_proof \<Rightarrow> bool" where
  "path_collision X p q \<longleftrightarrow> (\<exists>d < SMT_HEIGHT. proof_inputs X p d \<noteq> proof_inputs X q d
     \<and> case_prod (merkle_node_hash X) (proof_inputs X p d) = case_prod (merkle_node_hash X) (proof_inputs X q d))"

lemma empty_leaf: "empty_hash X 0 = merkle_leaf_hash X EMPTY_LEAF_SENTINEL"
  by (simp add: empty_hash_eq)

lemma proof_leaf:
  assumes "map_of (leaves t) = leaf_table X tbl"
  shows "leaf_value X (get_proof X t i) = merkle_leaf_hash X (leaf_input X (tbl i))"
  using assms
  by (simp add: leaf_value_def get_proof_def build_sparse_proof_for_key_def leaf_table_def leaf_input_def empty_leaf
      split: option.split)

lemma proof_root: "proof_node X (get_proof X t i) 0 = merkle_root X (map_of (leaves t))"
  using build_proof_verifies [of X t i] by (simp add: verify_proof_node get_proof_def)

text \<open>A record written with bincode is longer than the sentinel, which a row of the legacy layout always is.\<close>

definition rows_not_empty :: "externals \<Rightarrow> bool" where
  "rows_not_empty X \<longleftrightarrow> (\<forall>rec b. kv_serialize_record X rec = Inr b \<longrightarrow> 32 < length b)"

lemma row_longer:
  assumes "bincode_ok X" "rows_not_empty X"
  shows "32 < length (row X r)"
proof (cases "ff_eligible r")
  case True
  obtain b where "kv_serialize_record X r = Inr b" using assms(1) unfolding bincode_ok_def by blast
  with True assms(2) show ?thesis
    by (auto simp: rows_not_empty_def row_def serialize_coin_record_storage_bytes_def encode_coin_record_def)
next
  case False
  then show ?thesis by (simp add: row_def serialize_coin_record_storage_bytes_def)
qed

lemma leaf_input_inj:
  assumes "bincode_ok X" "rows_not_empty X" "pred_option row_ok r" "pred_option row_ok r'"
    and "leaf_input X r = leaf_input X r'"
  shows "r = r'"
proof -
  have row: "row X rec \<noteq> EMPTY_LEAF_SENTINEL" for rec
    using row_longer [OF assms(1,2), of rec] by (metis EMPTY_LEAF_SENTINEL_def length_replicate less_irrefl)
  have inv: "decode_coin_record_bytes X (row X rec) = Some rec" if "row_ok rec" for rec
    by (rule decode_row [OF assms(1) that])
  consider (none) "r = None" "r' = None" | (left) rec where "r = Some rec" "r' = None"
    | (right) rec where "r = None" "r' = Some rec" | (both) rec rec' where "r = Some rec" "r' = Some rec'"
    by (cases r; cases r') blast+
  then show ?thesis
  proof cases
    case none
    then show ?thesis by simp
  next
    case (left rec)
    then have "row X rec = EMPTY_LEAF_SENTINEL" using assms(5) by (simp only: leaf_input_def option.case)
    with row show ?thesis by (rule notE)
  next
    case (right rec)
    then have "row X rec = EMPTY_LEAF_SENTINEL" using assms(5) by (simp only: leaf_input_def option.case)
    with row show ?thesis by (rule notE)
  next
    case (both rec rec')
    then have rows: "row X rec = row X rec'" using assms(5) by (simp only: leaf_input_def option.case)
    have "row_ok rec" "row_ok rec'" using assms(3,4) both by simp_all
    from inv [OF this(1)] inv [OF this(2)] have "Some rec = Some rec'" unfolding rows by (rule trans [OF sym])
    then show ?thesis by (simp only: both)
  qed
qed

lemma roots_commit:
  assumes "bincode_ok X" "rows_not_empty X" "table_ok X h tbl" "table_ok X h' tbl'"
    and "map_of (leaves t) = leaf_table X tbl" "map_of (leaves t') = leaf_table X tbl'"
    and "merkle_root X (leaf_table X tbl) = merkle_root X (leaf_table X tbl')"
  shows "tbl i = tbl' i \<or> leaf_collision X (tbl i) (tbl' i) \<or> path_collision X (get_proof X t i) (get_proof X t' i)"
proof (cases "leaf_value X (get_proof X t i) = leaf_value X (get_proof X t' i)")
  case True
  moreover have "tbl i = tbl' i" if "leaf_input X (tbl i) = leaf_input X (tbl' i)"
    using leaf_input_inj [OF assms(1,2) _ _ that] table_ok_row [OF assms(3)] table_ok_row [OF assms(4)]
    by (simp add: pred_option_def)
  ultimately show ?thesis
    using proof_leaf [OF assms(5), of i] proof_leaf [OF assms(6), of i] by (auto simp: leaf_collision_def)
next
  case False
  have "pf_key (get_proof X t i) = pf_key (get_proof X t' i)"
    by (simp add: get_proof_def build_sparse_proof_for_key_def)
  moreover have "proof_node X (get_proof X t i) 0 = proof_node X (get_proof X t' i) 0"
    by (simp add: proof_root assms(5-7))
  ultimately show ?thesis using proof_collision [OF _ _ False] by (simp add: path_collision_def)
qed

section \<open>The property\<close>

text \<open>
  C10. The state root commits to the coins. Take two stores, each reached from an empty backend by any sequence
  of operations, over backends that may differ. If they report the same state root, then for every coin id
  both lookups succeed with the same answer, or the two rows (or a row and the empty sentinel) are different
  bytes with one leaf hash, or at some level of the coin's path the two trees hash different pairs of digests
  to one node. The bincode encoding of a record is assumed longer than 32 bytes, as its two ids alone are.
\<close>

theorem state_root_commits:
  assumes "reachable X B s0 S" "reliable_backend B view ok" "ok s0" "view s0 = (\<lambda>_. Map.empty)"
    and "reachable X B' t0 T" "reliable_backend B' view' ok'" "ok' t0" "view' t0 = (\<lambda>_. Map.empty)"
    and "bincode_ok X" "snapshot_codec_ok X" "rows_not_empty X"
    and "fst (state_root X S) = fst (state_root X T)"
  shows "\<exists>r r'. get_coin_record X B S i = Inr r \<and> get_coin_record X B' T i = Inr r'
    \<and> (r = r' \<or> leaf_collision X r r'
        \<or> path_collision X (get_proof X (merkle_tree S) i) (get_proof X (merkle_tree T) i))"
proof -
  obtain tbl Hs where S: "store_ok X view ok S tbl Hs"
    using reachable_ok [OF assms(1,2,9,10,3,4)] by (auto simp: system_ok_def)
  obtain tbl' Hs' where T: "store_ok X view' ok' T tbl' Hs'"
    using reachable_ok [OF assms(5,6,9,10,7,8)] by (auto simp: system_ok_def)
  note s = S [unfolded store_ok_def] and t = T [unfolded store_ok_def]
  have "fst (state_root X S) = merkle_root X (leaf_table X tbl)" "fst (state_root X T) = merkle_root X (leaf_table X tbl')"
    using state_root_ok(1) [OF S] state_root_ok(1) [OF T] by (metis prod.collapse)+
  with assms(12) have "merkle_root X (leaf_table X tbl) = merkle_root X (leaf_table X tbl')" by simp
  then have "tbl i = tbl' i \<or> leaf_collision X (tbl i) (tbl' i)
      \<or> path_collision X (get_proof X (merkle_tree S) i) (get_proof X (merkle_tree T) i)"
    using roots_commit [OF assms(9,11), of "height S" tbl "height T" tbl' "merkle_tree S" "merkle_tree T"] s t by simp
  moreover have "get_coin_record X B S i = Inr (tbl i)"
    using reliable_backend.read_record [OF assms(2,9)] s by blast
  moreover have "get_coin_record X B' T i = Inr (tbl' i)"
    using reliable_backend.read_record [OF assms(6,9)] t by blast
  ultimately show ?thesis by blast
qed

text \<open>
  Under a hash with collisions the exception is real: an empty store and one with genesis coins report the
  same root and disagree on a coin.
\<close>

lemma weak_ok:
  "bincode_ok weak_externals" "snapshot_codec_ok weak_externals" "rows_not_empty weak_externals"
  "inj_on (coin_id_of weak_externals) (fst ` set sample_coins)"
proof -
  show "bincode_ok weak_externals" "snapshot_codec_ok weak_externals"
    "inj_on (coin_id_of weak_externals) (fst ` set sample_coins)"
    using bincode_ok_sample snapshot_codec_ok_sample sample_coins_inj
    by (simp_all add: bincode_ok_def snapshot_codec_ok_def weak_externals_def)
  show "rows_not_empty weak_externals"
    by (simp add: rows_not_empty_def weak_externals_def sample_externals_def sample_enc_record_def)
qed

lemma weak_root: "merkle_root weak_externals m = 0"
proof -
  have "smt_digest weak_externals (Suc n) f = 0" for n f by (simp add: merkle_node_hash_def weak_externals_def)
  from this [of 255] show ?thesis
    by (simp add: merkle_root_def SMT_HEIGHT_def eval_nat_numeral del: smt_digest.simps)
qed

theorem state_root_commits_witness:
  "\<exists>S T i r r'. reachable weak_externals (rocks_backend mem_rocks) no_tables S
     \<and> reachable weak_externals (lmdb_ops mem_heed) no_lmdb T
     \<and> get_coin_record weak_externals (rocks_backend mem_rocks) S i = Inr r
     \<and> get_coin_record weak_externals (lmdb_ops mem_heed) T i = Inr r' \<and> r \<noteq> r'
     \<and> (leaf_collision weak_externals r r' \<or> path_collision weak_externals
          (get_proof weak_externals (merkle_tree S) i) (get_proof weak_externals (merkle_tree T) i))"
proof -
  let ?X = weak_externals
  let ?g = "genesis_table ?X 5 sample_coins"
  obtain S0 where S0: "open_store ?X (rocks_backend mem_rocks) (cs_config sample_store) no_tables = Inr S0"
    "store_ok ?X (rocks_view mem_rocks mem_tab) mem_ok S0 Map.empty {}" "\<not> initialized S0"
    by (rule empty_store_opens [OF mem_rocks.rocks.reliable_backend_axioms, OF weak_ok(1) no_tables_view(1)]) (simp, rule that)
  obtain T where T: "open_store ?X (lmdb_ops mem_heed) (cs_config sample_store) no_lmdb = Inr T"
    "store_ok ?X (lmdb_view heed_tab) (lmdb_ok heed_ok) T Map.empty {}"
    by (rule empty_store_opens [OF mem_heed.lmdb.reliable_backend_axioms, OF weak_ok(1) no_lmdb_view(1)]) (simp, rule that)
  obtain result S where S: "init_genesis ?X (rocks_backend mem_rocks) sample_coins 5 S0 = (result, S)"
    "store_ok ?X (rocks_view mem_rocks mem_tab) mem_ok S ?g {}"
    by (rule reliable_backend.genesis_refines [OF mem_rocks.rocks.reliable_backend_axioms,
          OF weak_ok(1) S0(2,3) weak_ok(4), of 5]) (rule that)
  have reach: "reachable ?X (rocks_backend mem_rocks) no_tables S" "reachable ?X (lmdb_ops mem_heed) no_lmdb T"
    using reachable.genesis [OF reachable.opened [OF S0(1)] weak_ok(4) S(1)] reachable.opened [OF T(1)] .
  have root: "fst (state_root ?X S) = fst (state_root ?X T)"
    using state_root_ok(1) [OF S(2)] state_root_ok(1) [OF T(2)] by (metis prod.collapse weak_root)
  obtain i where i: "?g i \<noteq> None"
    using unspent_of_genesis [of ?X 5 sample_coins] by (fastforce simp: unspent_of_def sample_coins_def)
  have "get_coin_record ?X (rocks_backend mem_rocks) S i = Inr (?g i)"
    using reliable_backend.read_record [OF mem_rocks.rocks.reliable_backend_axioms, OF weak_ok(1)] S(2)
    unfolding store_ok_def by blast
  moreover have "get_coin_record ?X (lmdb_ops mem_heed) T i = Inr None"
    using reliable_backend.read_record [OF mem_heed.lmdb.reliable_backend_axioms, OF weak_ok(1)] T(2)
    unfolding store_ok_def by blast
  ultimately show ?thesis
    using state_root_commits [OF reach(1) mem_rocks.rocks.reliable_backend_axioms, OF no_tables_view reach(2)
        mem_heed.lmdb.reliable_backend_axioms, OF no_lmdb_view weak_ok(1-3) root, of i] i reach
    by (intro exI [of _ S] exI [of _ T] exI [of _ i] exI [of _ "?g i"] exI [of _ None]) auto
qed

section \<open>Proofs against a store's root\<close>

lemma root_clean: "smt_root X t = (r, t') \<Longrightarrow> \<not> is_dirty t'"
  by (auto simp: smt_root_def is_dirty_def Let_def split: option.splits prod.splits)

text \<open>
  C11. Coin proofs against the root a store reports. After \<open>state_root\<close> answered \<open>r\<close>, every coin id, present or
  not, has a proof from the store's tree; it verifies against \<open>r\<close>, and its leaf is the hash of the row that
  \<open>get_coin_record\<close> answers from (of the sentinel when there is none). Any other proof for that id that verifies
  against \<open>r\<close>, wherever it comes from, has the same leaf, or feeds at some level another pair of digests to the
  node hash with the same result. The store holds the tree; it does not export the proofs itself.
\<close>

theorem coin_proofs_of_store:
  assumes "reachable X B s0 S" "reliable_backend B view ok" "ok s0" "view s0 = (\<lambda>_. Map.empty)"
    and "bincode_ok X" "snapshot_codec_ok X"
  shows "case state_root X S of (r, S') \<Rightarrow>
    \<exists>rec q. get_coin_record X B S i = Inr rec \<and> get_coin_proof X (merkle_tree S') i = Inr q
      \<and> verify_coin_proof X q r \<and> leaf_value X q = merkle_leaf_hash X (leaf_input X rec)
      \<and> (\<forall>p. pf_key p = i \<and> verify_coin_proof X p r \<longrightarrow> leaf_value X p = leaf_value X q \<or> path_collision X p q)"
proof -
  obtain tbl Hs where S: "store_ok X view ok S tbl Hs"
    using reachable_ok [OF assms(1,2,5,6,3,4)] by (auto simp: system_ok_def)
  note ok = S [unfolded store_ok_def]
  obtain r t where rt: "smt_root X (merkle_tree S) = (r, t)" by fastforce
  note root = smt_root_eq [OF _ rt]
  have t: "map_of (leaves t) = leaf_table X tbl" "r = merkle_root X (map_of (leaves t))"
    using root(1,2) ok by simp_all
  let ?q = "get_proof X t i"
  have "get_coin_proof X t i = Inr ?q" using root_clean [OF rt] by (simp add: get_coin_proof_def get_proof_def)
  moreover have "verify_coin_proof X ?q r" using build_proof_verifies [of X t i] t(2) by (simp add: verify_coin_proof_def get_proof_def)
  moreover note proof_leaf [OF t(1), of i]
  moreover have "leaf_value X p = leaf_value X ?q \<or> path_collision X p ?q"
    if "pf_key p = i" "verify_coin_proof X p r" for p
    using proof_collision [of p ?q X] that proof_root [of X t i] t(2)
    by (auto simp: path_collision_def verify_coin_proof_def verify_proof_node get_proof_def build_sparse_proof_for_key_def)
  moreover have "get_coin_record X B S i = Inr (tbl i)"
    using reliable_backend.read_record [OF assms(2,5)] ok by blast
  ultimately show ?thesis using rt by (auto simp: state_root_def)
qed

theorem coin_proofs_of_store_witness:
  "\<exists>S. reachable sample_externals (rocks_backend mem_rocks) no_tables S \<and> initialized S
     \<and> (case state_root sample_externals S of (r, S') \<Rightarrow>
          \<exists>rec q. get_coin_record sample_externals (rocks_backend mem_rocks) S 10 = Inr rec
            \<and> get_coin_proof sample_externals (merkle_tree S') 10 = Inr q \<and> verify_coin_proof sample_externals q r
            \<and> leaf_value sample_externals q = merkle_leaf_hash sample_externals (leaf_input sample_externals rec))"
proof (rule sample_reachable)
  fix S
  assume S: "reachable sample_externals (rocks_backend mem_rocks) no_tables S" "initialized S"
  show ?thesis
    using coin_proofs_of_store [OF S(1) mem_rocks.rocks.reliable_backend_axioms, OF no_tables_view bincode_ok_sample
        snapshot_codec_ok_sample, of 10] S
    by (intro exI [of _ S]) (auto split: prod.splits)
qed

end
