(* ===== verification/Accounting.thy ===== *)
theory Accounting
  imports Ledger_Props Snapshot_Props
begin

text \<open>
  Chains of blocks seen as accounts. What a chain does to the coins that were there and to those it creates,
  which gives the balance of counts and values along a chain, and the table that remains when any number of
  its blocks is rolled back.
\<close>

section \<open>Coins along a chain\<close>

definition block_coins :: "block_data \<Rightarrow> coin list" where
  "block_coins b = coinbase_coins b @ map ca_coin (additions b)"

definition removed_ids :: "block_data list \<Rightarrow> coin_id set" where
  "removed_ids bs = (\<Union>b \<in> set bs. set (removals b))"

definition chain_table :: "externals \<Rightarrow> block_data list \<Rightarrow> ledger \<Rightarrow> coin_table" where
  "chain_table X bs L = lg_table (fold (ledger_block X) bs L)"

lemma chain_table_simps [simp]:
  "chain_table X [] L = lg_table L"
  "chain_table X (b # bs) L = chain_table X bs (ledger_block X b L)"
  by (simp_all add: chain_table_def)

lemma removed_ids_simps [simp]:
  "removed_ids [] = {}" "removed_ids (b # bs) = set (removals b) \<union> removed_ids bs"
  by (simp_all add: removed_ids_def)

text \<open>A store with the tip of a ledger, for the lemmas on single blocks.\<close>

definition tip_store :: "ledger \<Rightarrow> unit coin_store" where
  "tip_store L = \<lparr>cs_config = lg_config L, backend = (), merkle_tree = \<lparr>leaves = [], root_hash = None, dirty_merkle_nodes = []\<rparr>,
     height = lg_height L, tip_hash = lg_tip L, cs_timestamp = lg_time L, initialized = lg_init L, unspent_ids = {}\<rparr>"

lemma extends_accepted: "extends X L b \<Longrightarrow> block_error X (tip_store L) (lg_table L) b = None"
  using refusal_None [of X L b] unfolding block_error_def refusal_def by (simp add: tip_store_def cong: if_cong)

lemma extends_step:
  assumes "extends X L b" "honest X b"
  shows "\<And>i. i \<in> set (removals b) \<Longrightarrow> \<exists>r. lg_table L i = Some r \<and> spent_height r = None"
    and "distinct (map (record_coin_id X) (new_records b))"
    and "record_coin_id X ` set (new_records b) \<inter> dom (lg_table L) = {}"
    and "lg_table (ledger_block X b L) = (\<lambda>i. if i \<in> set (removals b) then Some (spend (bd_height b) (the (lg_table L i)))
           else (lg_table L ++ record_map X (new_records b)) i)"
    and "lg_height (ledger_block X b L) = bd_height b" "bd_height b = lg_height L + 1"
  using accepted_block [OF extends_accepted [OF assms(1)] assms(2)] block_table_eq [OF extends_accepted [OF assms(1)] assms(2)]
  by (simp_all add: ledger_block_def tip_store_def)

text \<open>What one block does to a coin that was there, and to one that was not.\<close>

lemma extends_coin:
  assumes "extends X L b" "honest X b"
  shows "lg_table L i = Some r \<Longrightarrow> lg_table (ledger_block X b L) i =
      Some (if i \<in> set (removals b) then spend (bd_height b) r else r)"
    and "lg_table L i = None \<Longrightarrow> lg_table (ledger_block X b L) i = record_map X (new_records b) i"
proof -
  note step = extends_step [OF assms]
  show "lg_table (ledger_block X b L) i = Some (if i \<in> set (removals b) then spend (bd_height b) r else r)"
    if "lg_table L i = Some r"
  proof -
    have "record_map X (new_records b) i = None"
      using step(3) that dom_record_map [of X "new_records b"] by (metis disjoint_iff domD domI domIff)
    with that show ?thesis unfolding step(4) by (simp add: map_add_def)
  qed
  show "lg_table (ledger_block X b L) i = record_map X (new_records b) i" if "lg_table L i = None"
    using step(1) [of i] that unfolding step(4) by (auto simp: map_add_def split: option.splits)
qed

text \<open>
  A coin that was there is unchanged, or was unspent and is now spent above the old tip; a coin that was
  not there is absent or confirmed above the old tip.
\<close>

definition chained :: "externals \<Rightarrow> block_data list \<Rightarrow> ledger \<Rightarrow> coin_id \<Rightarrow> bool" where
  "chained X bs L i \<longleftrightarrow> (case lg_table L i of
     Some r \<Rightarrow>
       if i \<in> removed_ids bs
       then spent_height r = None \<and> (\<exists>h > lg_height L. chain_table X bs L i = Some (spend h r))
       else chain_table X bs L i = Some r
   | None \<Rightarrow> pred_option (\<lambda>q. lg_height L < confirmed_height q) (chain_table X bs L i))"

lemma extends_height:
  assumes "extends X L b" "honest X b" "unat (lg_height L) + length (b # bs) < 2 ^ 64"
  shows "lg_height L < lg_height (ledger_block X b L)" "bd_height b = lg_height (ledger_block X b L)"
    "unat (lg_height (ledger_block X b L)) + length bs < 2 ^ 64"
proof -
  note step = extends_step(5,6) [OF assms(1,2)]
  have suc: "unat (lg_height L + 1) = Suc (unat (lg_height L))"
    using assms(3) unat_word_ariths(1) [of "lg_height L" 1] by simp
  then have "lg_height L \<noteq> - 1" by auto
  then show "lg_height L < lg_height (ledger_block X b L)" using u64_less_Suc step by simp
  show "unat (lg_height (ledger_block X b L)) + length bs < 2 ^ 64" using assms(3) step suc by simp
  show "bd_height b = lg_height (ledger_block X b L)" using step by simp
qed

lemma chain_coins:
  assumes "valid_chain X L bs" "list_all (honest X) bs" "unat (lg_height L) + length bs < 2 ^ 64"
  shows "chained X bs L i"
  using assms
proof (induction bs arbitrary: L)
  case Nil
  then show ?case by (simp add: chained_def split: option.split)
next
  case (Cons b bs)
  have valid: "extends X L b" "honest X b" "valid_chain X (ledger_block X b L) bs" "list_all (honest X) bs"
    using Cons.prems by simp_all
  note up = extends_height [OF valid(1,2) Cons.prems(3)]
  note IH = Cons.IH [OF valid(3,4) up(3), unfolded chained_def]
  show ?case
  proof (cases "lg_table L i")
    case None
    show ?thesis
    proof (cases "record_map X (new_records b) i")
      case None
      then show ?thesis
        using IH extends_coin(2) [OF valid(1,2) \<open>lg_table L i = None\<close>] \<open>lg_table L i = None\<close> up(1)
        by (auto simp: chained_def pred_option_def)
    next
      case (Some q)
      then have "lg_height L < confirmed_height q"
        using record_map_SomeD [OF Some] new_records_sel up(1,2) by metis
      then show ?thesis
        using IH extends_coin(2) [OF valid(1,2) \<open>lg_table L i = None\<close>] \<open>lg_table L i = None\<close> Some
        by (auto simp: chained_def split: if_splits)
    qed
  next
    case (Some r)
    note coin = extends_coin(1) [OF valid(1,2) Some]
    show ?thesis
    proof (cases "i \<in> set (removals b)")
      case True
      then have "spent_height r = None" using extends_step(1) [OF valid(1,2) True] Some by auto
      then show ?thesis
        using IH coin True Some up(1,2) by (auto simp: chained_def split: if_splits)
    next
      case False
      then show ?thesis
        using IH coin Some order.strict_trans [OF up(1)] by (auto simp: chained_def split: if_splits)
    qed
  qed
qed

text \<open>Every coin that a chain removes is spent at the height of the block that removed it, so only once.\<close>

lemma chain_spent_at:
  assumes "valid_chain X L bs" "list_all (honest X) bs" "unat (lg_height L) + length bs < 2 ^ 64"
    and "b \<in> set bs" "i \<in> set (removals b)"
  obtains r where "chain_table X bs L i = Some r" "spent_height r = Some (bd_height b)"
  using assms
proof (induction bs arbitrary: L thesis)
  case (Cons a bs)
  have valid: "extends X L a" "honest X a" "valid_chain X (ledger_block X a L) bs" "list_all (honest X) bs"
    using Cons.prems by simp_all
  note up = extends_height [OF valid(1,2) Cons.prems(4)]
  show ?case
  proof (cases "b \<in> set bs")
    case True
    then show ?thesis using Cons.IH [OF _ valid(3,4) up(3) True Cons.prems(6)] Cons.prems(1) by auto
  next
    case False
    then have b: "b = a" using Cons.prems(5) by simp
    obtain r where "lg_table L i = Some r" using extends_step(1) [OF valid(1,2)] Cons.prems(6) b by blast
    then have "lg_table (ledger_block X a L) i = Some (spend (bd_height a) r)"
      using extends_coin(1) [OF valid(1,2)] Cons.prems(6) b by simp
    then have "chain_table X (a # bs) L i = Some (spend (bd_height a) r)"
      using chain_coins [OF valid(3,4) up(3), of i] by (simp add: chained_def split: if_splits)
    then show ?thesis using Cons.prems(1) b by simp
  qed
qed simp

section \<open>Balances\<close>

text \<open>A weight of coins: the amount for values, one for counts.\<close>

definition weight :: "(coin \<Rightarrow> nat) \<Rightarrow> coin_table \<Rightarrow> coin_id \<Rightarrow> nat" where
  "weight f tbl i = (case tbl i of None \<Rightarrow> 0 | Some r \<Rightarrow> f (cr_coin r))"

lemma new_coins: "map cr_coin (new_records b) = block_coins b"
  by (simp add: new_records_def block_coins_def addition_record_def comp_def)

lemma new_weight:
  assumes "extends X L b" "honest X b"
  shows "(\<Sum>i \<in> record_coin_id X ` set (new_records b). weight f (lg_table (ledger_block X b L)) i)
    = (\<Sum>c \<leftarrow> block_coins b. f c)"
proof -
  note step = extends_step [OF assms]
  have "weight f (lg_table (ledger_block X b L)) (record_coin_id X r) = f (cr_coin r)" if "r \<in> set (new_records b)" for r
  proof -
    have "lg_table L (record_coin_id X r) = None" using step(3) that by blast
    moreover have "record_map X (new_records b) (record_coin_id X r) = Some r"
      using step(2) that unfolding record_map_def by (intro map_of_is_SomeI) (simp_all add: comp_def)
    ultimately show ?thesis using extends_coin(2) [OF assms] by (simp add: weight_def)
  qed
  then have "(\<Sum>r \<leftarrow> new_records b. weight f (lg_table (ledger_block X b L)) (record_coin_id X r))
      = (\<Sum>r \<leftarrow> new_records b. f (cr_coin r))" by (intro arg_cong [of _ _ sum_list] map_cong) auto
  moreover have "(\<Sum>i \<in> record_coin_id X ` set (new_records b). weight f (lg_table (ledger_block X b L)) i)
      = (\<Sum>r \<leftarrow> new_records b. weight f (lg_table (ledger_block X b L)) (record_coin_id X r))"
    using sum_list_distinct_conv_sum_set [OF step(2), of "weight f (lg_table (ledger_block X b L))"] by (simp add: comp_def)
  ultimately show ?thesis by (simp flip: new_coins add: comp_def)
qed

lemma block_balance:
  assumes "extends X L b" "honest X b" "finite (dom (lg_table L))"
  defines "T \<equiv> lg_table (ledger_block X b L)"
  shows "sum (weight f T) (unspent_of T) + sum (weight f T) (set (removals b))
      = sum (weight f (lg_table L)) (unspent_of (lg_table L)) + (\<Sum>c \<leftarrow> block_coins b. f c)"
    and "card (dom T) = card (dom (lg_table L)) + length (block_coins b)" "finite (dom T)"
proof -
  note step = extends_step [OF assms(1,2)]
  let ?U = "unspent_of (lg_table L)" and ?N = "record_coin_id X ` set (new_records b)" and ?R = "set (removals b)"
  have U: "unspent_of T = (?U \<union> ?N) - ?R"
    using unspent_of_block [OF extends_accepted [OF assms(1)] assms(2)] new_record_ids [OF assms(2)]
    by (simp add: T_def ledger_block_def unspent_after_block_def Un_assoc)
  have sub: "?R \<subseteq> ?U \<union> ?N" using step(1) by (auto simp: unspent_of_def)
  have dom: "?U \<subseteq> dom (lg_table L)" by (auto simp: unspent_of_def)
  then have fin: "finite (?U \<union> ?N)" using finite_subset [OF _ assms(3)] by blast
  have disj: "?U \<inter> ?N = {}" using dom step(3) by blast
  have old: "weight f T i = weight f (lg_table L) i" if "i \<in> dom (lg_table L)" for i
    using that extends_coin(1) [OF assms(1,2)] by (auto simp: weight_def T_def)
  have "sum (weight f T) (unspent_of T) + sum (weight f T) ?R = sum (weight f T) (?U \<union> ?N)"
    unfolding U by (rule sum.subset_diff [OF sub fin, symmetric])
  also have "\<dots> = sum (weight f T) ?U + sum (weight f T) ?N" using fin disj by (simp add: sum.union_disjoint)
  also have "sum (weight f T) ?U = sum (weight f (lg_table L)) ?U" by (intro sum.cong refl) (use old dom in blast)
  also have "sum (weight f T) ?N = (\<Sum>c \<leftarrow> block_coins b. f c)" unfolding T_def by (rule new_weight [OF assms(1,2)])
  finally show "sum (weight f T) (unspent_of T) + sum (weight f T) ?R
      = sum (weight f (lg_table L)) ?U + (\<Sum>c \<leftarrow> block_coins b. f c)" .
  have domT: "dom T = dom (lg_table L) \<union> ?N"
  proof -
    have "dom (\<lambda>i. if i \<in> R then Some (g i) else m i) = R \<union> dom m" for R g and m :: coin_table by (auto split: if_splits)
    moreover have "?R \<subseteq> dom (lg_table L)" using step(1) by blast
    ultimately show ?thesis unfolding T_def step(4) by (auto simp: dom_record_map)
  qed
  moreover have "card ?N = length (block_coins b)"
    using distinct_card [OF step(2)] arg_cong [OF new_coins, of length] by simp
  ultimately show "card (dom T) = card (dom (lg_table L)) + length (block_coins b)"
    using card_Un_disjoint [OF assms(3), of ?N] step(3) by (simp add: Int_commute)
  show "finite (dom T)" using domT assms(3) by simp
qed

lemma chain_weight:
  assumes "valid_chain X L bs" "list_all (honest X) bs" "unat (lg_height L) + length bs < 2 ^ 64" "i \<in> dom (lg_table L)"
  shows "weight f (chain_table X bs L) i = weight f (lg_table L) i"
  using chain_coins [OF assms(1-3), of i] assms(4) by (auto simp: chained_def weight_def split: if_splits)

lemma chain_balance:
  assumes "valid_chain X L bs" "list_all (honest X) bs" "unat (lg_height L) + length bs < 2 ^ 64" "finite (dom (lg_table L))"
  defines "T \<equiv> chain_table X bs L"
  shows "sum (weight f T) (unspent_of T) + (\<Sum>b \<leftarrow> bs. sum (weight f T) (set (removals b)))
      = sum (weight f (lg_table L)) (unspent_of (lg_table L)) + (\<Sum>b \<leftarrow> bs. \<Sum>c \<leftarrow> block_coins b. f c)"
    and "card (dom T) = card (dom (lg_table L)) + (\<Sum>b \<leftarrow> bs. length (block_coins b))" "finite (dom T)"
  using assms(1-4) unfolding T_def
proof (induction bs arbitrary: L)
  case (Cons b bs)
  {
    case 1
    then have valid: "extends X L b" "honest X b" "valid_chain X (ledger_block X b L) bs" "list_all (honest X) bs"
      by simp_all
    note up = extends_height [OF valid(1,2) 1(3)] and bal = block_balance [OF valid(1,2) 1(4)]
    have "set (removals b) \<subseteq> dom (lg_table (ledger_block X b L))"
      using extends_step(1) [OF valid(1,2)] extends_coin(1) [OF valid(1,2)] by blast
    then have "sum (weight f (chain_table X (b # bs) L)) (set (removals b))
        = sum (weight f (lg_table (ledger_block X b L))) (set (removals b))"
      using chain_weight [OF valid(3,4) up(3)] by (intro sum.cong) auto
    with Cons.IH(1) [OF valid(3,4) up(3) bal(3)] bal(1) [of f] show ?case by simp
  next
    case 2
    then have valid: "extends X L b" "honest X b" "valid_chain X (ledger_block X b L) bs" "list_all (honest X) bs"
      by simp_all
    note up = extends_height [OF valid(1,2) 2(3)] and bal = block_balance [OF valid(1,2) 2(4)]
    from Cons.IH(2) [OF valid(3,4) up(3) bal(3)] bal(2) show ?case by simp
  next
    case 3
    then have valid: "extends X L b" "honest X b" "valid_chain X (ledger_block X b L) bs" "list_all (honest X) bs"
      by simp_all
    note up = extends_height [OF valid(1,2) 3(3)] and bal = block_balance [OF valid(1,2) 3(4)]
    from Cons.IH(3) [OF valid(3,4) up(3) bal(3)] show ?case by simp
  }
qed simp_all

section \<open>Rolling back a chain\<close>

text \<open>The table before a chain, with the fast-forward flags of the coins it spent recomputed from the table after it.\<close>

definition undone :: "externals \<Rightarrow> block_data list \<Rightarrow> ledger \<Rightarrow> coin_table" where
  "undone X bs L i = map_option (\<lambda>r. if i \<in> removed_ids bs
     then r\<lparr>ff_eligible := (chain_table X bs L (parent_coin_info (cr_coin r)) \<noteq> None)\<rparr> else r) (lg_table L i)"

lemma rolled_back_chain:
  assumes "valid_chain X L bs" "list_all (honest X) bs" "unat (lg_height L) + length bs < 2 ^ 64"
    and "table_ok X (lg_height L) (lg_table L)"
  shows "rolled_back (lg_height L) (chain_table X bs L) = undone X bs L"
proof
  fix i
  note coin = chain_coins [OF assms(1-3), of i, unfolded chained_def]
  show "rolled_back (lg_height L) (chain_table X bs L) i = undone X bs L i"
  proof (cases "lg_table L i")
    case None
    then show ?thesis using coin by (auto simp: rolled_back_def undone_def split: option.splits)
  next
    case (Some r)
    then have "confirmed_height r \<le> lg_height L" "\<not> spent_after (lg_height L) r"
      using assms(4) by (auto simp: table_ok_def spent_after_def split: option.splits) force+
    moreover have "unspend T (spend h r) = r\<lparr>ff_eligible := (T (parent_coin_info (cr_coin r)) \<noteq> None)\<rparr>"
      if "spent_height r = None" for h T
      using that by (simp add: unspend_def spend_def)
    ultimately show ?thesis
      using coin Some by (auto simp: rolled_back_def undone_def spent_after_def not_less split: if_splits)
  qed
qed

lemma undone_same:
  "unspent_of (undone X bs L) = unspent_of (lg_table L)" "dom (undone X bs L) = dom (lg_table L)"
  "weight f (undone X bs L) = weight f (lg_table L)"
proof -
  show "dom (undone X bs L) = dom (lg_table L)" by (auto simp: undone_def)
  have "(\<exists>r. undone X bs L i = Some r \<and> spent_height r = None) \<longleftrightarrow> (\<exists>r. lg_table L i = Some r \<and> spent_height r = None)" for i
    by (cases "lg_table L i") (simp_all add: undone_def)
  then show "unspent_of (undone X bs L) = unspent_of (lg_table L)" unfolding unspent_of_def by simp
  show "weight f (undone X bs L) = weight f (lg_table L)"
    by (auto simp: fun_eq_iff weight_def undone_def split: option.split)
qed

lemma chain_deleted:
  assumes "valid_chain X L bs" "list_all (honest X) bs" "unat (lg_height L) + length bs < 2 ^ 64"
    and "table_ok X (lg_height L) (lg_table L)" "finite (dom (lg_table L))"
  shows "card (deleted_ids (lg_height L) (chain_table X bs L)) = (\<Sum>b \<leftarrow> bs. length (block_coins b))"
proof -
  let ?T = "lg_table L" and ?T' = "chain_table X bs L"
  have new: "i \<in> deleted_ids (lg_height L) ?T' \<longleftrightarrow> i \<in> dom ?T' - dom ?T" for i
  proof (cases "?T i")
    case None
    then show ?thesis
      using chain_coins [OF assms(1-3), of i] by (auto simp: chained_def deleted_ids_def)
  next
    case (Some r)
    then have "confirmed_height r \<le> lg_height L" using assms(4) unfolding table_ok_def by blast
    then have "\<not> lg_height L < confirmed_height r" by (rule leD)
    then show ?thesis
      using Some chain_coins [OF assms(1-3), of i] by (auto simp: chained_def deleted_ids_def split: if_splits)
  qed
  have "dom ?T \<subseteq> dom ?T'"
  proof
    fix i
    assume "i \<in> dom ?T"
    then show "i \<in> dom ?T'" using chain_coins [OF assms(1-3), of i] by (auto simp: chained_def split: if_splits)
  qed
  moreover have "deleted_ids (lg_height L) ?T' = dom ?T' - dom ?T" using new by blast
  ultimately show ?thesis
    using chain_balance(2) [OF assms(1-3,5)] card_Diff_subset [OF assms(5)] by simp
qed

section \<open>Chains that a store accepted\<close>

lemma accepted_chain:
  "list_all accepted (fst (run (ledger_step X) (map Block bs) L)) \<Longrightarrow> valid_chain X L bs"
proof (induction bs arbitrary: L)
  case (Cons b bs)
  show ?case
  proof (cases "extends X L b")
    case True
    with Cons show ?thesis using ledger_step_block(1) [OF True] by (simp add: split_def del: ledger_step.simps)
  next
    case False
    then obtain e where "ledger_step X (Block b) L = (Failed e, L)" using ledger_step_block(2) by blast
    with Cons.prems show ?thesis by (simp add: split_def del: ledger_step.simps)
  qed
qed simp

lemma accepted_bound:
  "valid_chain X L bs \<Longrightarrow> list_all (legal X) (map Block bs) \<Longrightarrow> unat (lg_height L) + length bs < 2 ^ 64"
proof (induction bs arbitrary: L)
  case Nil
  then show ?case using unsigned_less [of "lg_height L", where ?'a = nat] by simp
next
  case (Cons b bs)
  then have "lg_height (ledger_block X b L) = lg_height L + 1" "lg_height L + 1 \<noteq> 0"
    by (auto simp: ledger_block_def extends_def)
  moreover from this have "unat (lg_height L + 1) = Suc (unat (lg_height L))" by (metis add.commute unatSuc)
  ultimately show ?case using Cons.IH [of "ledger_block X b L"] Cons.prems by simp
qed

text \<open>What is known of a run of blocks that were all accepted.\<close>

lemma accepted_run:
  assumes "reliable_backend B view ok" "bincode_ok X" "snapshot_codec_ok X" "represents X view ok S L"
    and "list_all (legal X) (map Block bs)" "run (perform X B) (map Block bs) S = (outs, S')" "list_all accepted outs"
  shows "valid_chain X L bs" "list_all (honest X) bs" "unat (lg_height L) + length bs < 2 ^ 64"
    and "represents X view ok S' (fold (ledger_block X) bs L)"
proof -
  note runs = ledger_store.store_runs [OF ledger_storeI [OF assms(1-3)] assms(4,5), unfolded assms(6) fst_conv snd_conv]
  show valid: "valid_chain X L bs" using accepted_chain assms(7) runs(1) by metis
  show "list_all (honest X) bs" using assms(5) by (simp add: list_all_iff)
  show "unat (lg_height L) + length bs < 2 ^ 64" by (rule accepted_bound [OF valid assms(5)])
  show "represents X view ok S' (fold (ledger_block X) bs L)"
    using runs(2) run_valid_chain [OF valid] by simp
qed

lemma weight_unspent: "i \<in> unspent_of tbl \<Longrightarrow> weight f tbl i = f (cr_coin (the (tbl i)))"
  by (auto simp: unspent_of_def weight_def)

lemma counts_of_table:
  assumes "reliable_backend B view ok" "bincode_ok X" "store_ok X view ok S tbl Hs"
  shows "num_unspent X B S = Inr (of_nat (sum (weight (\<lambda>_. 1) tbl) (unspent_of tbl)))"
    "num_total B S = Inr (of_nat (card (dom tbl)))"
    "total_unspent_value X B S = Inr (of_nat (sum (weight (\<lambda>c. unat (amount c)) tbl) (unspent_of tbl)))"
proof -
  note rep = reliable_backend.represented [OF assms]
  note fold = reliable_backend.fold_unspent_eq [OF assms]
  have "sum (weight (\<lambda>_. 1) tbl) (unspent_of tbl) = card (unspent_of tbl)" by (simp add: weight_unspent)
  then show "num_unspent X B S = Inr (of_nat (sum (weight (\<lambda>_. 1) tbl) (unspent_of tbl)))"
    unfolding num_unspent_def fold fold_count by (simp add: length_unspent_records [OF rep(2)])
  show "num_total B S = Inr (of_nat (card (dom tbl)))"
    using reliable_backend.read_rows [OF assms(1) rep(3,4)] rep(2) by (simp add: num_total_def table_rows_def)
  have "of_nat (sum (weight (\<lambda>c. unat (amount c)) tbl) (unspent_of tbl))
      = (\<Sum>i \<in> unspent_of tbl. (ucast (amount (cr_coin (the (tbl i)))) :: 128 word))"
    unfolding of_nat_sum by (intro sum.cong refl) (simp add: weight_unspent)
  then show "total_unspent_value X B S = Inr (of_nat (sum (weight (\<lambda>c. unat (amount c)) tbl) (unspent_of tbl)))"
    unfolding total_unspent_value_def fold fold_total sum_unspent [OF rep(2), of "\<lambda>r. ucast (amount (cr_coin r))"] by simp
qed

definition coin_value :: "externals \<Rightarrow> 's storage_ops \<Rightarrow> 's coin_store \<Rightarrow> coin_id \<Rightarrow> nat" where
  "coin_value X B S i = (case get_coin_record X B S i of Inr (Some r) \<Rightarrow> unat (amount (cr_coin r)) | _ \<Rightarrow> 0)"

text \<open>
  C8. The books balance. Let a store accept a sequence of blocks. Then the number of unspent coins afterwards
  plus the coins the blocks spent is the number before plus the coins they created, the number of all coins
  has grown by the coins created, and the total unspent value afterwards plus the value spent is the value
  before plus the value created (counts modulo \<open>2 ^ 64\<close>, values modulo \<open>2 ^ 128\<close>, the widths of the answers).
  Coins listed twice in the removals of a block count once. Every coin a block removed is marked spent at the
  height of that block, so no coin is spent by two blocks.
\<close>

theorem chain_accounting:
  assumes "reliable_backend B view ok" "bincode_ok X" "snapshot_codec_ok X" "represents X view ok S L"
    and "list_all (legal X) (map Block bs)" "run (perform X B) (map Block bs) S = (outs, S')" "list_all accepted outs"
  shows "\<exists>n n' m v v'. num_unspent X B S = Inr n \<and> num_unspent X B S' = Inr n'
    \<and> n' + of_nat (\<Sum>b \<leftarrow> bs. card (set (removals b))) = n + of_nat (\<Sum>b \<leftarrow> bs. length (block_coins b))
    \<and> num_total B S = Inr m \<and> num_total B S' = Inr (m + of_nat (\<Sum>b \<leftarrow> bs. length (block_coins b)))
    \<and> total_unspent_value X B S = Inr v \<and> total_unspent_value X B S' = Inr v'
    \<and> v' + of_nat (\<Sum>b \<leftarrow> bs. \<Sum>i \<in> set (removals b). coin_value X B S' i)
        = v + of_nat (\<Sum>b \<leftarrow> bs. \<Sum>c \<leftarrow> block_coins b. unat (amount c))
    \<and> (\<forall>b \<in> set bs. \<forall>i \<in> set (removals b). \<exists>r. get_coin_record X B S' i = Inr (Some r)
         \<and> spent_height r = Some (bd_height b))"
proof -
  note acc = accepted_run [OF assms]
  let ?T = "lg_table L" and ?T' = "chain_table X bs L"
  have S: "store_ok X view ok S ?T (lg_hints L)" by (rule representsD(1) [OF assms(4)])
  have S': "store_ok X view ok S' ?T' (lg_hints (fold (ledger_block X) bs L))"
    using representsD(1) [OF acc(4)] by (simp add: chain_table_def)
  note rep' = reliable_backend.represented [OF assms(1,2) S']
  note before = counts_of_table [OF assms(1,2) S] and after = counts_of_table [OF assms(1,2) S']
  note bal = chain_balance [OF acc(1-3) reliable_backend.represented(2) [OF assms(1,2) S]]
  have "weight (\<lambda>c. unat (amount c)) ?T' = coin_value X B S'"
    by (simp add: fun_eq_iff weight_def coin_value_def rep'(1) split: option.split)
  note worth = bal(1) [of "\<lambda>c. unat (amount c)", unfolded this]
  have "sum (weight (\<lambda>_. 1) ?T') (set (removals b)) = card (set (removals b))" if "b \<in> set bs" for b
  proof -
    have "weight (\<lambda>_. 1) ?T' i = 1" if "i \<in> set (removals b)" for i
      by (rule chain_spent_at [OF acc(1-3) \<open>b \<in> set bs\<close> that]) (simp add: weight_def)
    then show ?thesis by simp
  qed
  then have "(\<Sum>b \<leftarrow> bs. sum (weight (\<lambda>_. 1) ?T') (set (removals b))) = (\<Sum>b \<leftarrow> bs. card (set (removals b)))"
    by (intro arg_cong [of _ _ sum_list] map_cong) auto
  moreover have "(\<Sum>c \<leftarrow> cs. 1) = length cs" for cs :: "coin list" by (simp add: sum_list_triv)
  ultimately have count: "sum (weight (\<lambda>_. 1) ?T') (unspent_of ?T') + (\<Sum>b \<leftarrow> bs. card (set (removals b)))
      = sum (weight (\<lambda>_. 1) ?T) (unspent_of ?T) + (\<Sum>b \<leftarrow> bs. length (block_coins b))"
    using bal(1) [of "\<lambda>_. 1"] by simp
  have spent: "\<exists>r. get_coin_record X B S' i = Inr (Some r) \<and> spent_height r = Some (bd_height b)"
    if "b \<in> set bs" "i \<in> set (removals b)" for b i
    by (rule chain_spent_at [OF acc(1-3) that]) (simp add: rep'(1))
  have worth': "total_unspent_value X B S' = Inr (of_nat (sum (coin_value X B S') (unspent_of ?T')))"
    using after(3) \<open>weight (\<lambda>c. unat (amount c)) ?T' = coin_value X B S'\<close> by simp
  have total: "num_total B S' = Inr (of_nat (card (dom ?T)) + of_nat (\<Sum>b \<leftarrow> bs. length (block_coins b)))"
    using after(2) bal(2) by simp
  have eqs: "(of_nat a :: 'w :: len word) + of_nat b = of_nat c + of_nat d" if "a + b = c + d" for a b c d
    using arg_cong [OF that, of of_nat] by simp
  show ?thesis
    using before(1) after(1) eqs [OF count] before(2) total before(3) worth' eqs [OF worth] spent by blast
qed

lemma sample_accepted_run:
  obtains S outs S' where "represents sample_externals (rocks_view mem_rocks mem_tab) mem_ok S sample_ledger"
    "run (perform sample_externals (rocks_backend mem_rocks)) (map Block [sample_block]) S = (outs, S')" "list_all accepted outs"
proof (rule sample_represents)
  fix S
  assume S: "represents sample_externals (rocks_view mem_rocks mem_tab) mem_ok S sample_ledger"
  have chain: "valid_chain sample_externals sample_ledger [sample_block]" using sample_extends by simp
  have "list_all (legal sample_externals) (map Block [sample_block])"
    using sample_block_honest by (simp add: sample_block_sel)
  from mem_store.store_runs(1) [OF S this] run_valid_chain [OF chain]
  have "list_all accepted (fst (run (perform sample_externals (rocks_backend mem_rocks)) (map Block [sample_block]) S))"
    by simp
  with that [OF S] show thesis by (metis prod.collapse)
qed

lemma sample_legal: "list_all (legal sample_externals) (map Block [sample_block])"
  using sample_block_honest by (simp add: sample_block_sel)

theorem chain_accounting_witness:
  "\<exists>S outs S' r. run (perform sample_externals (rocks_backend mem_rocks)) (map Block [sample_block]) S = (outs, S')
     \<and> num_unspent sample_externals (rocks_backend mem_rocks) S = Inr 1
     \<and> num_unspent sample_externals (rocks_backend mem_rocks) S' = Inr 3
     \<and> get_coin_record sample_externals (rocks_backend mem_rocks) S' 10 = Inr (Some r) \<and> spent_height r = Some 1"
proof (rule sample_accepted_run)
  fix S outs S'
  assume S: "represents sample_externals (rocks_view mem_rocks mem_tab) mem_ok S sample_ledger"
    "run (perform sample_externals (rocks_backend mem_rocks)) (map Block [sample_block]) S = (outs, S')" "list_all accepted outs"
  have "unspent_of (lg_table sample_ledger) = {10}"
    using unspent_of_genesis [of sample_externals 5 sample_coins] by (simp add: sample_ledger_def sample_coins_def)
  moreover from this have "weight (\<lambda>_. 1) (lg_table sample_ledger) 10 = 1" by (simp add: weight_unspent)
  ultimately have one: "num_unspent sample_externals (rocks_backend mem_rocks) S = Inr 1"
    using counts_of_table(1) [OF mem_rocks.rocks.reliable_backend_axioms, OF bincode_ok_sample representsD(1) [OF S(1)]]
    by simp
  have block: "length (block_coins sample_block) = 3" "set (removals sample_block) = {10}" "bd_height sample_block = 1"
    by (simp_all add: block_coins_def sample_block_def)
  from chain_accounting [OF mem_rocks.rocks.reliable_backend_axioms, OF bincode_ok_sample snapshot_codec_ok_sample
      S(1) sample_legal S(2,3)] one block
  obtain n' r where "num_unspent sample_externals (rocks_backend mem_rocks) S' = Inr n'" "n' + 1 = 1 + 3"
    "get_coin_record sample_externals (rocks_backend mem_rocks) S' 10 = Inr (Some r)" "spent_height r = Some 1" by auto
  moreover from this(2) have "n' = 3" by (simp add: eq_diff_eq [symmetric])
  ultimately show ?thesis using S(2) one by blast
qed

lemma chain_rolls_back:
  assumes "reliable_backend B view ok" "bincode_ok X" "snapshot_codec_ok X" "represents X view ok S L" "initialized S"
    and "list_all (legal X) (map Block bs)" "run (perform X B) (map Block bs) S = (outs, S')" "list_all accepted outs"
    and "unat (height S) + length bs < 2 ^ 63"
  obtains R S2 Hs where "rollback_to_block X B (height S) S' = (Inr R, S2)" "height S2 = height S"
    "coins_deleted R = (\<Sum>b \<leftarrow> bs. length (block_coins b))" "store_ok X view ok S2 (undone X bs L) Hs"
proof -
  note acc = accepted_run [OF assms(1-4,6-8)]
  let ?h = "height S" and ?T' = "chain_table X bs L" and ?L' = "fold (ledger_block X) bs L"
  note L = representsD(1,2) [OF assms(4)] and L' = representsD(1,2,5) [OF acc(4)]
  have S': "store_ok X view ok S' ?T' (lg_hints ?L')" using L'(1) by (simp add: chain_table_def)
  have ok: "table_ok X (lg_height L) (lg_table L)" "finite (dom (lg_table L))"
    using L reliable_backend.represented(2) [OF assms(1,2) L(1)] by (simp_all add: store_ok_def)
  have "height S' = ?h + of_nat (length bs)"
    using valid_chain_height [OF acc(1)] L(2) L'(2) by simp
  then have h': "unat (height S') = unat ?h + length bs"
    using assms(9) by (simp add: unat_word_ariths unat_of_nat)
  have sint: "sint w = int (unat w)" if "unat w < 2 ^ 63" for w :: u64
    using that by (subst sint_small) (simp_all add: word_less_nat_alt)
  show thesis
  proof (cases "bs = []")
    case True
    then have "S' = S" using assms(7) by simp
    moreover have "undone X bs L = lg_table L" using True by (simp add: undone_def fun_eq_iff option.map_ident)
    moreover have "rollback_to_block X B ?h S = (Inr \<lparr>modified_coins = [], coins_deleted = 0, coins_unspent = 0, new_height = ?h\<rparr>, S)"
      using assms(5,9) True by (simp add: rollback_to_block_def Let_def sint)
    ultimately show thesis using that [of _ S] L(1) True by auto
  next
    case False
    have "lg_init (fold (ledger_block X) bs M) = lg_init M" for M
      by (induction bs arbitrary: M) (simp_all add: ledger_block_def)
    then have init: "initialized S'" using L'(3) representsD(5) [OF assms(4)] assms(5) by simp
    have "0 < length bs" using False by simp
    then have cut: "sint ?h \<le> sint (height S')" "\<not> (0 \<le> sint ?h \<and> ?h = height S')" "\<not> sint ?h < 0"
      using h' assms(9) by (auto simp: sint)
    obtain R S2 where S2: "rollback_to_block X B ?h S' = (Inr R, S2)" "rolled_back_to X view ok ?h S' ?T' (lg_hints ?L') R S2"
      using rollback_cases [OF assms(1,2) S' init cut(1,2)] cut(3) by auto
    then show thesis
      using that [OF S2(1)] chain_deleted [OF acc(1-3) ok] rolled_back_chain [OF acc(1-3) ok(1)] L(2)
      by (auto simp: rolled_back_to_def)
  qed
qed

text \<open>
  C9. Rolling back any number of blocks. Let a store accept a sequence of blocks, below height \<open>2 ^ 63\<close>. Rolling
  back to the height before them succeeds, deletes exactly the coins they created, and gives back every coin
  that was there with all its fields but one: a coin that the blocks had spent is unspent again and has its
  fast-forward flag recomputed. The unspent set, the counts and the total unspent value are those before, and
  so is the state root where the recomputed flags are those the coins had.
\<close>

theorem rollback_undoes_chain:
  assumes "reliable_backend B view ok" "bincode_ok X" "snapshot_codec_ok X" "represents X view ok S L" "initialized S"
    and "list_all (legal X) (map Block bs)" "run (perform X B) (map Block bs) S = (outs, S')" "list_all accepted outs"
    and "unat (height S) + length bs < 2 ^ 63"
  shows "\<exists>R S2. rollback_to_block X B (height S) S' = (Inr R, S2) \<and> height S2 = height S
    \<and> coins_deleted R = (\<Sum>b \<leftarrow> bs. length (block_coins b))
    \<and> (\<forall>i. get_coin_record X B S2 i = Inr (undone X bs L i))
    \<and> unspent_ids S2 = unspent_ids S \<and> num_unspent X B S2 = num_unspent X B S
    \<and> num_total B S2 = num_total B S \<and> total_unspent_value X B S2 = total_unspent_value X B S
    \<and> (undone X bs L = lg_table L \<longrightarrow> fst (state_root X S2) = fst (state_root X S))"
proof -
  note L = representsD(1) [OF assms(4)]
  obtain R S2 Hs where roll: "rollback_to_block X B (height S) S' = (Inr R, S2)" "height S2 = height S"
    "coins_deleted R = (\<Sum>b \<leftarrow> bs. length (block_coins b))" and S2: "store_ok X view ok S2 (undone X bs L) Hs"
    by (rule chain_rolls_back [OF assms]) (rule that)
  have "unspent_ids S2 = unspent_ids S" using S2 L by (simp add: store_ok_def undone_same)
  moreover note counts_of_table [OF assms(1,2) S2, unfolded undone_same] counts_of_table [OF assms(1,2) L]
  moreover note reliable_backend.represented(1) [OF assms(1,2) S2]
  moreover have "fst (state_root X Q) = merkle_root X (leaf_table X T)" if "store_ok X view ok Q T H" for Q T H
    using state_root_ok(1) [OF that] by (metis prod.collapse)
  note this [OF S2] this [OF L]
  ultimately show ?thesis using roll(1-3) by (intro exI [of _ R] exI [of _ S2]) simp
qed

theorem rollback_undoes_chain_witness:
  "\<exists>S outs S' R S2. run (perform sample_externals (rocks_backend mem_rocks)) (map Block [sample_block]) S = (outs, S')
     \<and> rollback_to_block sample_externals (rocks_backend mem_rocks) 0 S' = (Inr R, S2) \<and> coins_deleted R = 3
     \<and> height S2 = 0 \<and> unspent_ids S2 = unspent_ids S
     \<and> get_coin_record sample_externals (rocks_backend mem_rocks) S2 10 = Inr (undone sample_externals [sample_block] sample_ledger 10)"
proof (rule sample_accepted_run)
  fix S outs S'
  assume S: "represents sample_externals (rocks_view mem_rocks mem_tab) mem_ok S sample_ledger"
    "run (perform sample_externals (rocks_backend mem_rocks)) (map Block [sample_block]) S = (outs, S')" "list_all accepted outs"
  have init: "initialized S" "height S = 0" using representsD(2,5) [OF S(1)] by (simp_all add: sample_ledger_def)
  then have low: "unat (height S) + length [sample_block] < 2 ^ 63" by simp
  have "length (block_coins sample_block) = 3" by (simp add: block_coins_def sample_block_def)
  with rollback_undoes_chain [OF mem_rocks.rocks.reliable_backend_axioms, OF bincode_ok_sample snapshot_codec_ok_sample
      S(1) init(1) sample_legal S(2,3) low] S(2) init(2)
  show ?thesis by (intro exI [of _ S] exI [of _ outs] exI [of _ S']) auto
qed

end
