(* ===== verification/Failed_Rollback.thy ===== *)
theory Failed_Rollback
  imports Failures
begin

text \<open>
  Genesis and rollback whose batch cannot be written. Both change the Merkle tree in memory before they write,
  as block application does: the call can then not be repeated until the store is reopened.
\<close>

section \<open>What comes before the write\<close>

lemma no_batches_lookup [simp]: "get_coin_record X (no_batches e B) S = get_coin_record X B S"
  by (simp add: fun_eq_iff get_coin_record_def)

lemma no_batches_rollback [simp]: "rollback_collect X (no_batches e B) S t = rollback_collect X B S t"
  unfolding rollback_collect_def rollback_scan_def rollback_hints_def rollback_delete_entry_def
    rollback_unspend_entry_def no_batches_ops no_batches_lookup by (rule refl)

lemma lookup_tree [simp]: "get_coin_record X B (S\<lparr>merkle_tree := t\<rparr>) = get_coin_record X B S"
  by (simp add: fun_eq_iff get_coin_record_def)

text \<open>Collecting what a rollback does not look at the tree.\<close>

lemma collect_tree [simp]: "rollback_collect X B (S\<lparr>merkle_tree := t\<rparr>) h = rollback_collect X B S h"
proof -
  have eqs: "rollback_scan B (S\<lparr>merkle_tree := t\<rparr>) cf f = rollback_scan B S cf f"
    "rollback_hints B (S\<lparr>merkle_tree := t\<rparr>) = rollback_hints B S"
    "rollback_delete_entry X B (S\<lparr>merkle_tree := t\<rparr>) = rollback_delete_entry X B S"
    "rollback_unspend_entry X B (S\<lparr>merkle_tree := t\<rparr>) = rollback_unspend_entry X B S"
    for cf and f :: "kv_pair \<Rightarrow> 'z \<Rightarrow> coin_store_error + 'z"
    unfolding fun_eq_iff rollback_scan_def rollback_hints_def rollback_delete_entry_def rollback_unspend_entry_def
      lookup_tree by simp_all
  show ?thesis unfolding rollback_collect_def eqs by simp
qed

lemma batch_remove_clash:
  assumes "ids \<noteq> []" "map_of (leaves t) (hd ids) = None"
  shows "batch_remove ids t = Inl (KeyNotFound (hd ids))"
proof -
  have "find (\<lambda>key. \<not> hm_contains_key (leaves t) key) ids = Some (hd ids)"
    using assms by (intro find_hd) (auto simp: hm_contains_key_def)
  then show ?thesis by (simp add: batch_remove_def)
qed

lemma root_of_tree:
  assumes "tree_ok X t"
  shows "fst (state_root X (S\<lparr>merkle_tree := t\<rparr>)) = merkle_root X (map_of (leaves t))"
  using smt_root_eq(1) [OF assms] by (auto simp: state_root_def split: prod.splits)

section \<open>A genesis whose write fails\<close>

text \<open>Genesis too cannot be repeated: its coins are already in the tree.\<close>

lemma failed_genesis_wedges:
  assumes "bincode_ok X" "store_ok X view ok S tbl Hs" "\<not> initialized S" "coins \<noteq> []"
  obtains S' where "init_genesis X (no_batches e B) coins ts S = (Inl (from_storage_error e), S')"
    "fst (state_root X S') = merkle_root X (leaf_table X (genesis_table X ts coins))" "\<not> initialized S'"
    "init_genesis X B coins ts S' = (Inl (StorageError (''Merkle insert error: ''
         @ merkle_error_to_string X (KeyAlreadyExists (coin_id_of X (fst (hd coins)))))), S')"
proof -
  note ok = assms(2) [unfolded store_ok_def]
  let ?rs = "genesis_records ts coins" and ?i = "coin_id_of X (fst (hd coins))"
  have "map_of (leaves (merkle_tree S)) = Map.empty"
    using ok assms(3) by (simp add: leaf_table_def fun_eq_iff)
  then obtain t where t: "batch_insert (map (leaf_entry X) ?rs) (merkle_tree S) = Inr t"
    "map_of (leaves t) = leaf_table X (genesis_table X ts coins)" using genesis_leaves by blast
  have t_ok: "tree_ok X t" using tree_ok_batch(1) [OF _ t(1)] ok by blast
  obtain r t' where t': "smt_root X t = (r, t')" by fastforce
  note root = smt_root_eq [OF t_ok t']
  have first: "?rs \<noteq> []" "fst (hd (map (leaf_entry X) ?rs)) = ?i" "record_coin_id X (hd ?rs) = ?i"
    using assms(4) by (cases coins; auto simp: genesis_records_def leaf_entry_def record_coin_id_def)+
  have "record_coin_id X (hd ?rs) \<in> dom (genesis_table X ts coins)"
    using first(1) by (simp add: genesis_table_def dom_record_map)
  then have "?i \<in> dom (genesis_table X ts coins)" unfolding first(3) .
  then have "map_of (leaves t') (fst (hd (map (leaf_entry X) ?rs))) \<noteq> None"
    unfolding root(2) t(2) first(2) by (auto simp: leaf_table_def)
  with first(1) have clash: "batch_insert (map (leaf_entry X) ?rs) t' = Inl (KeyAlreadyExists ?i)"
    using batch_insert_clash [of "map (leaf_entry X) ?rs" t'] first(2) by simp
  have "init_genesis X (no_batches e B) coins ts S = (Inl (from_storage_error e), S\<lparr>merkle_tree := t'\<rparr>)"
    using assms(3) t(1) t' first(1) by (simp add: init_genesis_def genesis_loop [OF assms(1)] batch_new_def Let_def)
  moreover have "init_genesis X B coins ts (S\<lparr>merkle_tree := t'\<rparr>) = (Inl (StorageError (''Merkle insert error: ''
         @ merkle_error_to_string X (KeyAlreadyExists ?i))), S\<lparr>merkle_tree := t'\<rparr>)"
    using assms(3) clash first(1) by (simp add: init_genesis_def genesis_loop [OF assms(1)] batch_new_def)
  moreover have "fst (state_root X (S\<lparr>merkle_tree := t'\<rparr>)) = merkle_root X (leaf_table X (genesis_table X ts coins))"
    using root_of_tree [of X t' S] root(4) root(2) t(2) by simp
  ultimately show thesis using that [of "S\<lparr>merkle_tree := t'\<rparr>"] assms(3) by simp
qed

section \<open>A rollback whose write fails\<close>

context reliable_backend
begin

lemma rollback_not_written:
  assumes "bincode_ok X" "store_ok X view ok S tbl Hs" "deleted_ids t tbl \<noteq> {}"
  obtains acc t2 i where "rollback_collect X B S t = Inr acc" "tree_ok X t2" "i \<in> deleted_ids t tbl"
    "map_of (leaves t2) = leaf_table X (rolled_back t tbl)"
    "rollback_commit X (no_batches e B) t acc S = (Inl (from_storage_error e), S\<lparr>merkle_tree := t2\<rparr>)"
    "rollback_commit X B t acc (S\<lparr>merkle_tree := t2\<rparr>) =
       (Inl (StorageError (''Merkle remove during rollback: '' @ merkle_error_to_string X (KeyNotFound i))),
        S\<lparr>merkle_tree := t2\<rparr>)"
proof -
  note ok = assms(2) [unfolded store_ok_def]
  have fin: "finite (dom tbl)" using finite_table ok view_finite by blast
  have tbl: "table_ok X (height S) tbl" using ok by simp
  obtain acc where acc: "rollback_collect X B S t = Inr acc" "collected X (view (backend S)) tbl t (height S) acc"
    by (rule rollback_collected [OF assms(1,2)])
  note c = acc(2) [unfolded collected_def Let_def]
  have gone: "set (ra_removals acc) = deleted_ids t tbl" using c above_props(1) [OF fin tbl] by simp
  obtain t1 t2 where t12: "batch_remove (ra_removals acc) (merkle_tree S) = Inr t1"
    "batch_update (ra_updates acc) t1 = Inr t2" "map_of (leaves t2) = leaf_table X (rolled_back t tbl)"
  proof (rule rolled_back_leaves)
    show "map_of (leaves (merkle_tree S)) = leaf_table X tbl" using ok by blast
    show "set (filter (\<lambda>i. i \<notin> deleted_ids t tbl) (spent_above t (height S) tbl)) = respent_ids t tbl"
      by (rule respent_above [OF fin tbl])
  qed (use c gone in auto)
  have t2_ok: "tree_ok X t2" using tree_ok_batch(3) [OF _ t12(1)] tree_ok_batch(2) [OF _ t12(2)] ok by blast
  have ne: "ra_removals acc \<noteq> []" using gone assms(3) by auto
  let ?i = "hd (ra_removals acc)"
  have i: "?i \<in> deleted_ids t tbl" using ne gone by (metis hd_in_set)
  then have "map_of (leaves t2) ?i = None"
    unfolding t12(3) by (auto simp: leaf_table_def rolled_back_def deleted_ids_def)
  note clash = batch_remove_clash [OF ne this]
  have "(if ra_updates acc \<noteq> [] then batch_update (ra_updates acc) t1 else Inr t1) = Inr t2"
    using t12(2) by (auto simp: batch_update_Inr smt_insert_all_def)
  then have "rollback_commit X (no_batches e B) t acc S = (Inl (from_storage_error e), S\<lparr>merkle_tree := t2\<rparr>)"
    using ne t12(1) by (simp add: rollback_commit_def Let_def)
  moreover have "rollback_commit X B t acc (S\<lparr>merkle_tree := t2\<rparr>) =
       (Inl (StorageError (''Merkle remove during rollback: '' @ merkle_error_to_string X (KeyNotFound ?i))),
        S\<lparr>merkle_tree := t2\<rparr>)"
    using ne clash by (simp add: rollback_commit_def)
  ultimately show thesis using that acc(1) t2_ok i t12(3) by blast
qed

end

text \<open>
  C17. A rollback whose write fails. If the batch of a rollback that deletes a coin cannot be written, the call
  returns the storage error with the cached tree already that of the rolled back table: height and lookups are
  those before, the state root is not. The same rollback then fails on a coin missing from the tree, although
  the backend works again, until the store is reopened; the reopened store represents the table before the
  call, and there the rollback succeeds with the root that the failed call had left.
\<close>

theorem failed_rollback_wedges:
  assumes "reliable_backend B view ok" "bincode_ok X" "store_ok X view ok S tbl Hs" "initialized S"
    and "sint target < sint (height S)" "deleted_ids (if sint target < 0 then 0 else target) tbl \<noteq> {}"
  shows "\<exists>S' i. rollback_to_block X (no_batches e B) target S = (Inl (from_storage_error e), S')
    \<and> height S' = height S \<and> (\<forall>j. get_coin_record X B S' j = Inr (tbl j))
    \<and> fst (state_root X S') = merkle_root X (leaf_table X (rolled_back (if sint target < 0 then 0 else target) tbl))
    \<and> i \<in> deleted_ids (if sint target < 0 then 0 else target) tbl
    \<and> rollback_to_block X B target S' = (Inl (StorageError (''Merkle remove during rollback: ''
         @ merkle_error_to_string X (KeyNotFound i))), S')
    \<and> (\<exists>S2 R S3. open_store X B (cs_config S) (backend S') = Inr S2 \<and> store_ok X view ok S2 tbl Hs
         \<and> rollback_to_block X B target S2 = (Inr R, S3) \<and> fst (state_root X S3) = fst (state_root X S'))"
proof -
  define t where "t = (if sint target < 0 then 0 else target)"
  note cut = assms(5) [THEN less_imp_le]
  have noop: "\<not> (0 \<le> sint target \<and> target = height S)" using assms(5) by auto
  note unfolds = rollback_unfolds [OF _ _ _, of _ target X, folded t_def]
  obtain acc t2 i where w: "rollback_collect X B S t = Inr acc" "tree_ok X t2" "i \<in> deleted_ids t tbl"
    "map_of (leaves t2) = leaf_table X (rolled_back t tbl)"
    "rollback_commit X (no_batches e B) t acc S = (Inl (from_storage_error e), S\<lparr>merkle_tree := t2\<rparr>)"
    "rollback_commit X B t acc (S\<lparr>merkle_tree := t2\<rparr>) =
       (Inl (StorageError (''Merkle remove during rollback: '' @ merkle_error_to_string X (KeyNotFound i))),
        S\<lparr>merkle_tree := t2\<rparr>)"
    by (rule reliable_backend.rollback_not_written [OF assms(1-3), of t e]) (use assms(6) in \<open>simp_all add: t_def\<close>)
  let ?S = "S\<lparr>merkle_tree := t2\<rparr>"
  have fails: "rollback_to_block X (no_batches e B) target S = (Inl (from_storage_error e), ?S)"
    using unfolds [OF assms(4) cut noop] w(1,5) by simp
  have again: "rollback_to_block X B target ?S = (Inl (StorageError (''Merkle remove during rollback: ''
         @ merkle_error_to_string X (KeyNotFound i))), ?S)"
    using unfolds [of ?S B] assms(4) cut noop w(1,6) by simp
  have root: "fst (state_root X ?S) = merkle_root X (leaf_table X (rolled_back t tbl))"
    using root_of_tree [OF w(2)] w(4) by simp
  obtain S2 where S2: "open_store X B (cs_config S) (backend S) = Inr S2" "store_ok X view ok S2 tbl Hs"
    "initialized S2 = initialized S" "height S2 = height S"
    by (rule reliable_backend.reopen [OF assms(1-3)]) (rule that)
  have init2: "initialized S2" "sint target \<le> sint (height S2)" "\<not> (0 \<le> sint target \<and> target = height S2)"
    using S2(3,4) assms(4) cut noop by simp_all
  obtain R S3 where S3: "rollback_to_block X B target S2 = (Inr R, S3)" "rolled_back_to X view ok t S2 tbl Hs R S3"
    by (rule rollback_cases [OF assms(1,2) S2(2) init2, folded t_def]) (rule that)
  then have "fst (state_root X S3) = merkle_root X (leaf_table X (rolled_back t tbl))"
    using state_root_ok(1) [of X view ok S3] by (metis prod.collapse rolled_back_to_def)
  with fails again root w(3) S2(1,2) S3(1) reliable_backend.represented(1) [OF assms(1-3)] show ?thesis
    unfolding t_def [symmetric] by (intro exI [of _ ?S] exI [of _ i]) simp
qed

theorem failed_rollback_wedges_witness:
  "\<exists>S S' i. height S = 1
     \<and> rollback_to_block sample_externals (no_batches MapFull (rocks_backend mem_rocks)) 0 S
         = (Inl (from_storage_error MapFull), S')
     \<and> rollback_to_block sample_externals (rocks_backend mem_rocks) 0 S'
         = (Inl (StorageError (''Merkle remove during rollback: ''
              @ merkle_error_to_string sample_externals (KeyNotFound i))), S')"
proof (rule sample_applied)
  fix S0 R S
  let ?tbl = "block_table sample_externals sample_block (genesis_table sample_externals 5 sample_coins)"
  assume S: "store_ok sample_externals (rocks_view mem_rocks mem_tab) mem_ok S ?tbl (block_hints sample_block)"
    "initialized S" "height S = 1"
  have "4 \<in> deleted_ids 0 ?tbl"
    by (simp add: deleted_ids_def block_table_def sample_block_def genesis_table_def genesis_records_def
        sample_coins_def record_map_def new_records_def addition_record_def record_coin_id_def)
  then have del: "deleted_ids (if sint (0 :: u64) < 0 then 0 else 0) ?tbl \<noteq> {}" by auto
  have low: "sint (0 :: u64) < sint (height S)" using S(3) by simp
  from failed_rollback_wedges [OF mem_rocks.rocks.reliable_backend_axioms, OF bincode_ok_sample S(1,2) low del, of MapFull]
  show ?thesis using S(3) by blast
qed

end
