(* ===== verification/Spec2Isabelle.thy ===== *)
theory Spec2Isabelle
  imports Ledger_Props Partial_Writes Resumption Row_Types Commitment Accounting Failed_Rollback
begin

text \<open>
  Verification of dig-coinstore, the coin-state database of the DIG Network L2 chain.

  \<^bold>\<open>The program.\<close> A \<open>CoinStore\<close> (\<open>src/src/coin_store.rs\<close>) keeps one record per coin in a key-value
  engine: a row table, five secondary indices, two hint indices, metadata rows and saved checkpoints,
  each in its own column family (\<open>src/src/storage/schema.rs\<close>). In memory it keeps the chain tip, a
  sparse Merkle tree over the rows (\<open>src/src/merkle\<close>) and the set of unspent ids. Genesis, block
  application, rollback and restore change all of these together through one write batch of the
  storage trait (\<open>src/src/storage/mod.rs\<close>); RocksDB and LMDB implement the trait. Queries
  (\<open>src/src/queries.rs\<close>) and hint lookups (\<open>src/src/hints.rs\<close>) read the indices.

  \<^bold>\<open>Conventions.\<close> Structs are records, enums are datatypes, \<open>u64\<close> is \<open>64 word\<close>, \<open>Bytes32\<close> is
  \<open>256 word\<close> with its big-endian bytes, \<open>HashMap\<close> is an association list whose order is the iteration
  order. Arithmetic is that of a release build and wraps. \<open>Result\<close> is a sum with the error on the left; the
  error \<open>Panicked\<close>, or \<open>None\<close> where nothing else can fail, stands for a panic. An operation on
  \<open>&mut self\<close>, or one that writes through the backend, returns its result and the state it leaves, also
  when it fails half way. Third-party code is an argument: \<open>externals\<close> (SHA-256, \<open>Coin::coin_id\<close>, bincode,
  the printing of hashes), \<open>rocks_db\<close> and \<open>heed\<close> (the engines), the creation of directories. Cargo
  features are Boolean arguments.

  \<^bold>\<open>Theories and code.\<close>
  \<^item> \<open>Prelude\<close>: bytes and words, prefixes and lexicographic order of keys, hash maps, formatting.
  \<^item> \<open>Types\<close>, \<open>Errors\<close>, \<open>Config\<close>: \<open>types.rs\<close>, \<open>error.rs\<close>, \<open>config.rs\<close>.
  \<^item> \<open>Schema\<close>: \<open>storage/schema.rs\<close>, the column families and every key encoder and decoder.
  \<^item> \<open>Storage\<close>: \<open>storage/mod.rs\<close>. The trait is the record \<open>storage_ops\<close>; its contract is the locale
    \<open>storage_backend\<close> (each operation acts on a logical disk, one finite map per family), and
    \<open>reliable_backend\<close> adds that operations on known families and keys of legal length succeed. The
    store's lemmas are proved in this locale.
  \<^item> \<open>Ordered_Table\<close>, \<open>Rocksdb\<close>, \<open>Lmdb\<close>, \<open>Backends\<close>: \<open>storage/rocksdb.rs\<close> and \<open>storage/lmdb.rs\<close>. The engines
    are locales; both backends interpret \<open>reliable_backend\<close>, and an in-memory engine shows that the engine
    locales can be met. LMDB's merging of twelve families into six databases by tagged keys is shown to be
    invisible, and the two backends to agree.
  \<^item> \<open>Codec\<close>: \<open>storage/kv_bincode.rs\<close> and the row codecs of \<open>coin_store.rs\<close>. The hypotheses on bincode are
    \<open>bincode_ok\<close> (records round trip; no decoder accepts 97 bytes) and \<open>snapshot_codec_ok\<close> (snapshots round
    trip up to the order of the coin map); \<open>sample_externals\<close> meets both.
  \<^item> \<open>Merkle\<close>, \<open>Merkle_Tree\<close>, \<open>Merkle_Proof\<close>: \<open>merkle/*.rs\<close>. The specification is \<open>merkle_root\<close>, the digest
    of the complete tree of height 256 over a leaf map; the recursive computation refines it, the pending
    node rows are exact, proofs are complete, and sound up to hash collisions.
  \<^item> \<open>Store\<close>, \<open>Block_Ops\<close>: the state, opening, genesis, \<open>apply_block\<close> and rollback of \<open>coin_store.rs\<close>,
    phase by phase.
  \<^item> \<open>Store_Inv\<close>, \<open>Store_Reads\<close>: the abstraction. \<open>store_ok X view ok S tbl Hs\<close> says that the store \<open>S\<close>
    represents the table \<open>tbl\<close> of coin records and the set \<open>Hs\<close> of hints: every index is the projection of
    \<open>tbl\<close>, the Merkle leaves are the hashes of its rows, the unspent set and the metadata rows agree, and
    confirmed and spent heights are ordered and within the tip.
  \<^item> \<open>Apply_Block\<close>, \<open>Genesis\<close>, \<open>Rollback\<close>: each operation refines its effect on the table (\<open>block_table\<close> with
    \<open>block_error\<close>, \<open>genesis_table\<close>, \<open>rolled_back\<close>), errors included. Ids of additions are assumed to be those
    of their coins (\<open>honest\<close>), and the height not to be the greatest \<open>u64\<close>.
  \<^item> \<open>Rollback_Doc\<close>: the rollback that \<open>SPEC.md\<close> (3.3, 6) and the requirements RBK-001 to RBK-004 ask for, as a
    function on tables. The code's \<open>rolled_back\<close> agrees with it except for the fast-forward flags of coins whose
    spend is undone, where the code only looks for the parent, and for a negative target, where the documents
    ask for an empty store and the code keeps the genesis coins. The theorems on rollback state both.
  \<^item> \<open>Chain\<close>: what composing block application and rollback gives.
  \<^item> \<open>Queries\<close>, \<open>Query_Props\<close>, \<open>Pagination\<close>: \<open>queries.rs\<close>, and that every query answers from the table.
  \<^item> \<open>Hints\<close>, \<open>Hint_Props\<close>: \<open>hints.rs\<close>, and that insertion, removal and lookup act on the set of hints.
  \<^item> \<open>Snapshot\<close>, \<open>Snapshot_Props\<close>, \<open>Restore\<close>, \<open>Checkpoints\<close>: statistics, snapshots, restore and retained
    checkpoints of \<open>coin_store.rs\<close>; the batches of 50,000 operations, the checks before the first write, and
    pruning to the newest checkpoints.
  \<^item> \<open>System\<close>: the stores reachable by sequences of all operations that change one, as an inductive relation,
    and the invariant along them. \<open>Row_Types\<close> reads the invariant as a type of the database: the shape of
    every row and the rows it must agree with, checkpoints that decode and that \<open>restore\<close> accepts, complete
    metadata, and no row in the families of Merkle nodes and archived records. The theorem at the end of this theory combines the invariant
    with snapshots, restore and the queries: moving a store to another backend preserves its answers.
  \<^item> \<open>Ledger\<close>, \<open>Ledger_Refines\<close>, \<open>Ledger_Props\<close>: the contract of the whole interface. \<open>ledger_step\<close> is the effect and
    the outcome of one call on an abstract ledger (table, hints, tip, checkpoint heights), \<open>perform\<close> the call
    on the store; the locale \<open>simulation\<close> lifts the agreement of single calls to runs. Replicas agree, and
    chains of valid blocks are accepted to their end.
  \<^item> \<open>Accounting\<close>: chains of blocks as a whole. The books balance along an accepted chain, no coin is spent
    twice, and rolling back any number of blocks gives back what was there before them.
  \<^item> \<open>Atomicity\<close>, \<open>Failures\<close>, \<open>Failed_Rollback\<close>, \<open>Partial_Writes\<close>: engines that fail. Genesis, block application and rollback write one
    batch, so a failing call changes nothing but the cached tree, and reopening recovers; what goes wrong
    without reopening is shown, and what \<open>restore\<close> and \<open>add_hint\<close>, which write in pieces, leave behind.
  \<^item> \<open>Commitment\<close>: what the state root binds. Equal roots mean equal answers, and a proof against a store's root
    shows the row the store answers from, unless the theorem names two inputs of one hash (a leaf, or a node
    on the path of the coin); that rows are longer than the sentinel of an empty leaf is \<open>rows_not_empty\<close>.
  \<^item> \<open>Resumption\<close>: a client that pages through coin states, and when it ends.

  \<^bold>\<open>Bounds.\<close> All loops of the program are structural recursion over lists, words or tree heights, so no fuel is
  needed; only the paging client of \<open>Resumption\<close> has a number of calls as fuel, and one more than there are
  records is shown to be enough. Key lengths are bounded by 510 bytes (\<open>key_ok\<close>), the limit of LMDB less the
  tag byte; every key of the store has at most 64.

  \<^bold>\<open>Not modelled.\<close> \<open>lib.rs\<close>, \<open>block_apply.rs\<close>, \<open>rollback.rs\<close>, \<open>archive.rs\<close> and \<open>cache/*.rs\<close> hold re-exports and
  documentation only. Logging, timing and the locking of the engines have no counterpart. A failing engine
  is covered by the models (every error branch is there); the refinement theorems assume a reliable one, and
  what a failing one leaves is the subject of \<open>Failures\<close>, \<open>Failed_Rollback\<close> and \<open>Partial_Writes\<close>. A batch write that fails has
  written nothing, as both engines document. RocksDB's FIFO compaction of \<open>state_snapshots\<close>, which deletes the
  oldest files above 1 GiB, is not part of the engine's contract: the theorems on checkpoints hold below that.
\<close>

section \<open>Moving a store to another backend\<close>

lemma same_table_answers:
  assumes "reliable_backend B view ok" "reliable_backend B' view' ok'" "bincode_ok X"
    and "store_ok X view ok S tbl Hs" "store_ok X view' ok' S' tbl Hs'"
  shows "get_coin_record X B' S' i = get_coin_record X B S i" "unspent_ids S' = unspent_ids S"
    "fst (state_root X S') = fst (state_root X S)"
    "get_coin_records_by_puzzle_hash X B' S' inc ph s e = get_coin_records_by_puzzle_hash X B S inc ph s e"
    "get_coin_records_by_parent_ids X B' S' inc ps s e = get_coin_records_by_parent_ids X B S inc ps s e"
    "get_coins_added_at_height X B' S' h = get_coins_added_at_height X B S h"
    "get_coins_removed_at_height X B' S' h = get_coins_removed_at_height X B S h"
    "num_unspent X B' S' = num_unspent X B S"
proof -
  note old = assms(1,3,4) and new = assms(2,3,5)
  show "get_coin_record X B' S' i = get_coin_record X B S i"
    using reliable_backend.represented(1) [OF old] reliable_backend.represented(1) [OF new] by simp
  show "unspent_ids S' = unspent_ids S" using assms(4,5) by (simp add: store_ok_def)
  show "fst (state_root X S') = fst (state_root X S)"
    using state_root_ok(1) [OF assms(4)] state_root_ok(1) [OF assms(5)] by (metis prod.collapse)
  show "get_coin_records_by_puzzle_hash X B' S' inc ph s e = get_coin_records_by_puzzle_hash X B S inc ph s e"
    using reliable_backend.by_puzzle_hash [OF old] reliable_backend.by_puzzle_hash [OF new] by simp
  show "get_coin_records_by_parent_ids X B' S' inc ps s e = get_coin_records_by_parent_ids X B S inc ps s e"
    using reliable_backend.by_parent [OF old] reliable_backend.by_parent [OF new] by simp
  show "get_coins_added_at_height X B' S' h = get_coins_added_at_height X B S h"
    "get_coins_removed_at_height X B' S' h = get_coins_removed_at_height X B S h"
    using reliable_backend.by_height [OF old] reliable_backend.by_height [OF new] by simp_all
  show "num_unspent X B' S' = num_unspent X B S"
    by (simp add: num_unspent_def reliable_backend.fold_unspent_eq [OF old] reliable_backend.fold_unspent_eq [OF new])
qed

text \<open>
  C20. Moving a store. Let a store have been reached from an empty database by any sequence of operations and
  be initialised, and let another store, over the same or another reliable backend, have been reached in the
  same way. Then a snapshot of the first restores into the second, and afterwards the second has the same
  tip, state root and unspent coins and answers lookups, the queries by puzzle hash, parent and height and
  the count of unspent coins exactly as the first.
\<close>

theorem moved_store_agrees:
  assumes "reachable X B s0 S" "reliable_backend B view ok" "ok s0" "view s0 = (\<lambda>_. Map.empty)" "initialized S"
    and "reachable X B' s0' S0" "reliable_backend B' view' ok'" "ok' s0'" "view' s0' = (\<lambda>_. Map.empty)"
    and "bincode_ok X" "snapshot_codec_ok X"
  shows "\<exists>snap S'. snapshot X B S = Inr snap \<and> restore X B' snap S0 = (Inr (), S') \<and> reachable X B' s0' S'
    \<and> height S' = height S \<and> tip_hash S' = tip_hash S \<and> cs_timestamp S' = cs_timestamp S
    \<and> unspent_ids S' = unspent_ids S \<and> fst (state_root X S') = fst (state_root X S)
    \<and> (\<forall>i. get_coin_record X B' S' i = get_coin_record X B S i)
    \<and> (\<forall>inc ph s e. get_coin_records_by_puzzle_hash X B' S' inc ph s e = get_coin_records_by_puzzle_hash X B S inc ph s e)
    \<and> (\<forall>inc ps s e. get_coin_records_by_parent_ids X B' S' inc ps s e = get_coin_records_by_parent_ids X B S inc ps s e)
    \<and> (\<forall>h. get_coins_added_at_height X B' S' h = get_coins_added_at_height X B S h)
    \<and> (\<forall>h. get_coins_removed_at_height X B' S' h = get_coins_removed_at_height X B S h)
    \<and> num_unspent X B' S' = num_unspent X B S"
proof -
  have sys: "system_ok X view ok S" "system_ok X view' ok' S0"
    using reachable_ok [OF assms(1,2,10,11,3,4)] reachable_ok [OF assms(6,7,10,11,8,9)] .
  then obtain tbl Hs where S: "store_ok X view ok S tbl Hs" by (auto simp: system_ok_def)
  have S0: "ok' (backend S0)" "keys_ok (view' (backend S0))" using sys(2) by (auto simp: system_ok_def store_ok_def)
  note rep = reliable_backend.represented [OF assms(2,10) S]
  note good = snapshot_of_good [OF rep(2,6)]
  let ?snap = "snapshot_of X S tbl"
  have tab: "table_ok X (sn_height ?snap) (map_of (sn_coins ?snap))"
    unfolding good(3) using rep(6) by (simp add: snapshot_of_def)
  have root: "sn_state_root ?snap = merkle_root X (leaf_table X (map_of (sn_coins ?snap)))" by (simp only: good(3,4))
  obtain S' where S': "restore X B' ?snap S0 = (Inr (), S')"
    "store_ok X view' ok' S' (map_of (sn_coins ?snap)) (snapshot_hints ?snap)"
    "height S' = sn_height ?snap" "tip_hash S' = sn_block_hash ?snap" "cs_timestamp S' = sn_timestamp ?snap"
    by (rule reliable_backend.restored [OF assms(7,10) S0 good(1,2) root tab]) (rule that)
  have "reachable X B' s0' S'" by (rule reachable.restore [OF assms(6) good(1) tab S'(1)])
  moreover have "height S' = height S" "tip_hash S' = tip_hash S" "cs_timestamp S' = cs_timestamp S"
    using S'(3-5) by (simp_all add: snapshot_of_def)
  moreover note same_table_answers [OF assms(2,7,10) S S'(2) [unfolded good(3)]]
  moreover have "snapshot X B S = Inr ?snap" by (rule reliable_backend.snapshot_taken [OF assms(2,10) S assms(5)])
  ultimately show ?thesis using S'(1) by (intro exI [of _ ?snap] exI [of _ S'] conjI allI) assumption+
qed

theorem moved_store_agrees_witness:
  "\<exists>S snap S'. snapshot sample_externals (rocks_backend mem_rocks) S = Inr snap
     \<and> restore sample_externals (rocks_backend mem_rocks) snap S = (Inr (), S') \<and> initialized S
     \<and> num_unspent sample_externals (rocks_backend mem_rocks) S' = num_unspent sample_externals (rocks_backend mem_rocks) S"
proof (rule sample_reachable)
  fix S
  assume S: "reachable sample_externals (rocks_backend mem_rocks) no_tables S" "initialized S"
  show ?thesis
    using moved_store_agrees [OF S(1) mem_rocks.rocks.reliable_backend_axioms, OF no_tables_view S(2) S(1)
        mem_rocks.rocks.reliable_backend_axioms, OF no_tables_view bincode_ok_sample snapshot_codec_ok_sample] S(2)
    by blast
qed

end
